(* ===== verification/LogDB_Prelude.thy ===== *)
theory LogDB_Prelude
  imports Main "HOL-Library.Word" "HOL-Library.Multiset"
begin

text \<open>
  Shared ground of the development: the result type of operations that can hit undefined
  behaviour, the fixed-width integers of the on-disk format and their little-endian encoding,
  positional writes into a byte sequence, and the lemmas on lists and words the components use.
\<close>

section \<open>Collections of facts\<close>

named_theorems kernel_defs \<open>definitions of the system calls\<close>
named_theorems frame_simps \<open>which parts of the state an operation leaves alone\<close>

section \<open>Types\<close>

type_synonym byte = "8 word"
type_synonym ptr = nat

text \<open>
  \<^typ>\<open>ptr\<close> is an address; 0 is the null pointer. A C operation either returns a value or runs
  into behaviour after which the C program has no meaning or no progress: the use of a null,
  freed or never allocated pointer, an access past the end of an object, a call of
  \<open>abort\<close>, a wait that nobody ends, a recursion or loop that does not end.
\<close>

datatype fault = BadPtr ptr | OutOfBounds | Abort | Blocked | Diverges

datatype 'a outcome = Done 'a | Fault fault

fun obind :: "'a outcome \<Rightarrow> ('a \<Rightarrow> 'b outcome) \<Rightarrow> 'b outcome" where
  "obind (Done x) f = f x"
| "obind (Fault e) f = Fault e"

lemma obind_eq_Done: "obind m f = Done y \<longleftrightarrow> (\<exists>x. m = Done x \<and> f x = Done y)"
  by (cases m) auto

lemma runs_to: "(case m of Done y \<Rightarrow> P y | Fault _ \<Rightarrow> False) \<Longrightarrow> \<exists>y. m = Done y \<and> P y"
  by (cases m) simp_all

lemma obind_cong [fundef_cong]:
  "\<lbrakk>m = m'; \<And>x. m' = Done x \<Longrightarrow> f x = g x\<rbrakk> \<Longrightarrow> obind m f = obind m' g"
  by (cases m) auto

lemma obind_assoc: "obind (obind m f) g = obind m (\<lambda>x. obind (f x) g)"
  by (cases m) auto

text \<open>The call returns, and its result satisfies the predicate.\<close>

definition returning :: "'a outcome \<Rightarrow> ('a \<Rightarrow> bool) \<Rightarrow> bool" where
  "returning m P = (case m of Done x \<Rightarrow> P x | Fault _ \<Rightarrow> False)"

lemma returningE:
  assumes "returning m P"
  obtains x where "m = Done x" "P x"
  using assms by (cases m) (auto simp: returning_def)

lemma returning_obind: "returning (obind m f) P \<longleftrightarrow> returning m (\<lambda>x. returning (f x) P)"
  by (cases m) (auto simp: returning_def)

section \<open>Positional writes\<close>

text \<open>
  \<open>write_at f off bs\<close> is the file \<open>f\<close> after the bytes \<open>bs\<close> are stored at offset \<open>off\<close>: a gap is
  filled with zeros, and storing no bytes changes nothing.
\<close>

definition write_at :: "byte list \<Rightarrow> nat \<Rightarrow> byte list \<Rightarrow> byte list" where
  "write_at f off bs =
     (if bs = [] then f
      else take off f @ replicate (off - length f) 0 @ bs @ drop (off + length bs) f)"

definition seg :: "byte list \<Rightarrow> nat \<Rightarrow> nat \<Rightarrow> byte list" where
  "seg f off n = take n (drop off f)"

lemma write_at_Nil [simp]: "write_at f off [] = f"
  by (simp add: write_at_def)

lemma length_write_at:
  "length (write_at f off bs) = (if bs = [] then length f else max (length f) (off + length bs))"
  by (auto simp: write_at_def max_def)

lemma length_write_at_ge: "length f \<le> length (write_at f off bs)"
  by (auto simp: length_write_at)

lemma length_seg [simp]: "length (seg f off n) = min n (length f - off)"
  by (simp add: seg_def)

lemma seg_0 [simp]: "seg f off 0 = []"
  by (simp add: seg_def)

lemma write_at_end: "write_at f (length f) bs = f @ bs"
  by (simp add: write_at_def)

lemma seg_write_at_same [simp]: "seg (write_at f off bs) off (length bs) = bs"
  by (auto simp: write_at_def seg_def min_def)

lemma seg_write_at_before:
  assumes "a + n \<le> off" "a + n \<le> length f"
  shows "seg (write_at f off bs) a n = seg f a n"
proof (cases "bs = []")
  case False
  have "take n (drop a (take off f)) = take n (drop a f)"
    using assms by (simp add: drop_take min_def)
  with assms False show ?thesis
    by (auto simp: write_at_def seg_def min_def)
qed simp

lemma seg_write_at_after:
  assumes "off + length bs \<le> a"
  shows "seg (write_at f off bs) a n = seg f a n"
proof (cases "off \<le> length f")
  case True
  with assms show ?thesis by (auto simp: write_at_def seg_def)
next
  case False
  with assms show ?thesis by (auto simp: write_at_def seg_def)
qed

lemma drop_write_at: "off + length xs \<le> n \<Longrightarrow> off \<le> n \<Longrightarrow> drop n (write_at f off xs) = drop n f"
  by (cases "length f \<le> off") (auto simp: write_at_def)

lemma take_write_at:
  "xs \<noteq> [] \<Longrightarrow> take (off + length xs) (write_at f off xs) = take off f @ replicate (off - length f) 0 @ xs"
  by (cases "length f \<le> off") (auto simp: write_at_def)

lemma take_eq_length: "take n xs = take n ys \<Longrightarrow> n \<le> length ys \<Longrightarrow> n \<le> length xs"
  by (metis length_take min.absorb_iff2 min.commute)

lemma take_write_before: "n \<le> off \<Longrightarrow> n \<le> length f \<Longrightarrow> take n (write_at f off xs) = take n f"
  by (cases "length f \<le> off") (auto simp: write_at_def)

lemma write_at_append:
  "write_at (write_at f off xs) (off + length xs) ys = write_at f off (xs @ ys)"
proof (cases "xs = [] \<or> ys = []")
  case False
  then have "off + length xs \<le> length (write_at f off xs)"
    by (simp add: length_write_at)
  with False show ?thesis
    by (simp add: write_at_def [of "write_at f off xs"] write_at_def [of f off "xs @ ys"]
        drop_write_at take_write_at add.assoc)
qed auto

lemma seg_append_join: "seg f off (m + n) = seg f off m @ seg f (off + m) n"
  by (simp add: seg_def take_add add.commute)

lemma seg_take: "off + n \<le> m \<Longrightarrow> seg (take m f) off n = seg f off n"
  by (simp add: seg_def drop_take min_def)

lemma seg_append_left: "off + n \<le> length f \<Longrightarrow> seg (f @ g) off n = seg f off n"
  by (simp add: seg_def)

lemma seg_append_right: "seg (f @ g) (length f) n = take n g"
  by (simp add: seg_def)

lemma take_seg: "take m (seg f off n) = seg f off (min m n)"
  by (simp add: seg_def)

lemma drop_seg: "drop m (seg f off n) = seg f (off + m) (n - m)"
  by (simp add: seg_def drop_take add.commute)

section \<open>Little-endian encoding\<close>

text \<open>
  The structs of the file format are written as they lie in memory; the program is for
  little-endian machines. \<open>le_bytes k n\<close> are the \<open>k\<close> low bytes of \<open>n\<close>.
\<close>

fun le_bytes :: "nat \<Rightarrow> nat \<Rightarrow> byte list" where
  "le_bytes 0 n = []"
| "le_bytes (Suc k) n = of_nat n # le_bytes k (n div 256)"

fun le_nat :: "byte list \<Rightarrow> nat" where
  "le_nat [] = 0"
| "le_nat (b # bs) = unat b + 256 * le_nat bs"

lemma length_le_bytes [simp]: "length (le_bytes k n) = k"
  by (induction k arbitrary: n) auto

lemma unat_8_less: "unat (w :: 8 word) < 256"
proof -
  have "unat w < 2 ^ LENGTH(8)" by (rule unsigned_less)
  then show ?thesis by simp
qed

lemma unat_16_less: "unat (w :: 16 word) < 65536"
proof -
  have "unat w < 2 ^ LENGTH(16)" by (rule unsigned_less)
  then show ?thesis by simp
qed

lemma unat_32_less: "unat (w :: 32 word) < 4294967296"
proof -
  have "unat w < 2 ^ LENGTH(32)" by (rule unsigned_less)
  then show ?thesis by simp
qed

lemma unat_of_nat_byte: "unat (of_nat n :: byte) = n mod 256"
  by (simp add: unat_of_nat)

lemma le_nat_le_bytes: "le_nat (le_bytes k n) = n mod 256 ^ k"
proof (induction k arbitrary: n)
  case (Suc k)
  have "n mod (256 * 256 ^ k) = 256 * (n div 256 mod 256 ^ k) + n mod 256"
    by (rule mod_mult2_eq)
  with Suc show ?case by (simp add: unat_of_nat_byte add.commute)
qed simp

lemma byte_of_unat_add: "(of_nat (unat b + 256 * m) :: byte) = b"
proof -
  have "unat (of_nat (unat b + 256 * m) :: byte) = unat b"
    unfolding unat_of_nat using unat_8_less [of b] by simp
  then show ?thesis by (simp only: unsigned_word_eqI)
qed

lemma le_bytes_le_nat: "le_bytes (length bs) (le_nat bs) = bs"
proof (induction bs)
  case (Cons b bs)
  have "unat b < 256" by (rule unat_8_less)
  then have "(unat b + 256 * le_nat bs) div 256 = le_nat bs" by simp
  with Cons show ?case by (simp only: le_nat.simps le_bytes.simps length_Cons byte_of_unat_add)
qed simp

definition le16 :: "16 word \<Rightarrow> byte list" where
  "le16 w = le_bytes 2 (unat w)"

definition of_le16 :: "byte list \<Rightarrow> 16 word" where
  "of_le16 bs = of_nat (le_nat (take 2 bs))"

definition le32 :: "32 word \<Rightarrow> byte list" where
  "le32 w = le_bytes 4 (unat w)"

definition of_le32 :: "byte list \<Rightarrow> 32 word" where
  "of_le32 bs = of_nat (le_nat (take 4 bs))"

lemma length_le16 [simp]: "length (le16 w) = 2"
  by (simp add: le16_def)

lemma length_le32 [simp]: "length (le32 w) = 4"
  by (simp add: le32_def)

lemma of_le16_le16 [simp]: "of_le16 (le16 w @ bs) = w"
  using unat_16_less [of w] by (simp add: of_le16_def le16_def le_nat_le_bytes)

lemma of_le16_le16' [simp]: "of_le16 (le16 w) = w"
  using of_le16_le16 [of w "[]"] by simp

lemma of_le32_le32 [simp]: "of_le32 (le32 w @ bs) = w"
  using unat_32_less [of w] by (simp add: of_le32_def le32_def le_nat_le_bytes)

lemma of_le32_le32' [simp]: "of_le32 (le32 w) = w"
  using of_le32_le32 [of w "[]"] by simp

lemma le_nat_less: "le_nat bs < 256 ^ length bs"
proof (induction bs)
  case (Cons b bs)
  have "unat b < 256" by (rule unat_8_less)
  moreover have "256 * le_nat bs + 256 \<le> 256 * 256 ^ length bs" using Cons by simp
  ultimately show ?case by simp
qed simp

lemma le16_of_le16: "length bs = 2 \<Longrightarrow> le16 (of_le16 bs) = bs"
  using le_nat_less [of bs] le_bytes_le_nat [of bs]
  by (simp add: le16_def of_le16_def unat_of_nat)

lemma le32_of_le32: "length bs = 4 \<Longrightarrow> le32 (of_le32 bs) = bs"
  using le_nat_less [of bs] le_bytes_le_nat [of bs]
  by (simp add: le32_def of_le32_def unat_of_nat)

section \<open>Lists of lists as multisets\<close>

lemma mset_concat_update:
  "k < length xs \<Longrightarrow> mset (concat (map f (xs[k := y]))) + mset (f (xs ! k)) = mset (concat (map f xs)) + mset (f y)"
proof (induction xs arbitrary: k)
  case (Cons x xs)
  then show ?case by (cases k) (auto simp: ac_simps)
qed simp

end
