(* ===== verification/Buffer.thy ===== *)
theory Buffer
  imports LogDB_Prelude
begin

text \<open>
  \<^verbatim>\<open>src/logdb_buffer.c\<close>: reference-counted buffers that are linked into chains. The heap maps
  addresses to memory blocks, buffer structs and transaction structs. An address is handed out
  once, so that a dangling pointer is never a valid one again and its use is the fault
  \<open>BadPtr\<close>. The recursions through \<open>orig\<close> and \<open>next\<close> are bounded by a fuel that exceeds the number
  of allocated cells; a recursion that needs more has met a cycle and does not end in C either.
\<close>

section \<open>State\<close>

text \<open>A disposer is a null function pointer or a function, named by a number; 0 is \<open>free\<close>.\<close>

record logdb_buffer_t =
  b_data :: ptr
  b_len :: "32 word"
  b_disposer :: "nat option"
  b_orig :: ptr
  b_next :: ptr
  b_refcnt :: int

record logdb_txn_t =
  t_outer :: ptr
  t_buf :: ptr

record heap =
  mem :: "ptr \<Rightarrow> byte list option"
  bufs :: "ptr \<Rightarrow> logdb_buffer_t option"
  txns :: "ptr \<Rightarrow> logdb_txn_t option"
  brk :: nat                     \<comment> \<open>the highest address handed out\<close>
  oom :: "bool list"             \<comment> \<open>outcomes of the next allocations; exhausted: they succeed\<close>
  disposed :: "(nat \<times> ptr) list" \<comment> \<open>calls of disposers, oldest first\<close>

definition C_free :: nat where [simp]: "C_free = 0"

definition h_malloc :: "heap \<Rightarrow> ptr \<times> heap" where
  "h_malloc h =
     (case oom h of
        [] \<Rightarrow> (Suc (brk h), h\<lparr>brk := Suc (brk h)\<rparr>)
      | fails # rest \<Rightarrow> if fails then (0, h\<lparr>oom := rest\<rparr>)
                        else (Suc (brk h), h\<lparr>brk := Suc (brk h), oom := rest\<rparr>))"

definition put_buf :: "heap \<Rightarrow> ptr \<Rightarrow> logdb_buffer_t \<Rightarrow> heap" where
  "put_buf h p b = h\<lparr>bufs := (bufs h)(p := Some b)\<rparr>"

definition get_buf :: "heap \<Rightarrow> ptr \<Rightarrow> logdb_buffer_t outcome" where
  "get_buf h p = (case bufs h p of None \<Rightarrow> Fault (BadPtr p) | Some b \<Rightarrow> Done b)"

definition load_bytes :: "heap \<Rightarrow> ptr \<Rightarrow> nat \<Rightarrow> byte list outcome" where
  "load_bytes h p n =
     (case mem h p of
        None \<Rightarrow> Fault (BadPtr p)
      | Some bs \<Rightarrow> if length bs < n then Fault OutOfBounds else Done (take n bs))"

definition dispose :: "nat option \<Rightarrow> ptr \<Rightarrow> heap \<Rightarrow> heap outcome" where
  "dispose d p h =
     (case d of
        None \<Rightarrow> Done h
      | Some f \<Rightarrow>
          if f = C_free \<and> p = 0 then Done h
          else if mem h p = None then Fault (BadPtr p)
          else Done (h\<lparr>mem := (mem h)(p := None), disposed := disposed h @ [(f, p)]\<rparr>))"

definition fuel_of :: "heap \<Rightarrow> nat" where
  "fuel_of h = Suc (brk h)"

section \<open>Operations\<close>

definition logdb_buffer_new_direct :: "bool \<Rightarrow> ptr \<Rightarrow> 32 word \<Rightarrow> nat option \<Rightarrow> heap \<Rightarrow> ptr \<times> heap" where
  "logdb_buffer_new_direct dbg data len disposer h =
     (if dbg \<and> data = 0 then (0, h)
      else case h_malloc h of (buf, h) \<Rightarrow>
        if buf = 0 then (0, h)
        else (buf, put_buf h buf \<lparr>b_data = data, b_len = len, b_disposer = disposer,
                                  b_orig = 0, b_next = 0, b_refcnt = 1\<rparr>))"

definition logdb_buffer_new_copy :: "bool \<Rightarrow> ptr \<Rightarrow> 32 word \<Rightarrow> heap \<Rightarrow> (ptr \<times> heap) outcome" where
  "logdb_buffer_new_copy dbg data len h =
     (if dbg \<and> data = 0 then Done (0, h)
      else case h_malloc h of (copy, h) \<Rightarrow>
        if copy = 0 then Done (0, h)
        else obind (load_bytes h data (unat len)) (\<lambda>bs.
          let h = h\<lparr>mem := (mem h)(copy := Some bs)\<rparr>;
              (result, h) = logdb_buffer_new_direct dbg copy len (Some C_free) h
          in if result = 0 then Done (0, h\<lparr>mem := (mem h)(copy := None)\<rparr>)
             else Done (result, h)))"

fun buffer_length_loop :: "nat \<Rightarrow> heap \<Rightarrow> ptr \<Rightarrow> 32 word \<Rightarrow> 32 word outcome" where
  "buffer_length_loop 0 h p len = (if p = 0 then Done len else Fault Diverges)"
| "buffer_length_loop (Suc n) h p len =
     (if p = 0 then Done len
      else obind (get_buf h p) (\<lambda>buf.
           obind (if b_orig buf \<noteq> 0 then buffer_length_loop n h (b_orig buf) 0 else Done (b_len buf))
             (\<lambda>l. buffer_length_loop n h (b_next buf) (len + l))))"

definition logdb_buffer_length :: "heap \<Rightarrow> ptr \<Rightarrow> 32 word outcome" where
  "logdb_buffer_length h buffer = buffer_length_loop (fuel_of h) h buffer 0"

definition logdb_buffer_retain :: "ptr \<Rightarrow> heap \<Rightarrow> heap outcome" where
  "logdb_buffer_retain p h =
     obind (get_buf h p) (\<lambda>buf. Done (put_buf h p (buf\<lparr>b_refcnt := b_refcnt buf + 1\<rparr>)))"

definition logdb_buffer_copy :: "bool \<Rightarrow> ptr \<Rightarrow> heap \<Rightarrow> (ptr \<times> heap) outcome" where
  "logdb_buffer_copy dbg p h =
     obind (get_buf h p) (\<lambda>buf.
       case logdb_buffer_new_direct dbg (b_data buf) (b_len buf) None h of (result, h) \<Rightarrow>
         if result = 0 then Done (0, h)
         else obind (logdb_buffer_retain p h) (\<lambda>h.
              obind (get_buf h result) (\<lambda>r.
              Done (result, put_buf h result (r\<lparr>b_orig := p\<rparr>)))))"

text \<open>
  \<open>logdb_buffer_data\<close> and its loop over the chain: \<open>copy_chain\<close> returns the bytes it has put
  behind \<open>dataptr\<close>, or None when the data of an original could not be had.
\<close>

fun buffer_data :: "nat \<Rightarrow> bool \<Rightarrow> ptr \<Rightarrow> heap \<Rightarrow> (ptr \<times> heap) outcome"
and copy_chain :: "nat \<Rightarrow> bool \<Rightarrow> ptr \<Rightarrow> byte list \<Rightarrow> heap \<Rightarrow> (byte list option \<times> heap) outcome" where
  "buffer_data 0 dbg p h = Fault Diverges"
| "buffer_data (Suc n) dbg p h =
     (if p = 0 then (if dbg then Done (0, h) else Fault (BadPtr 0))
      else obind (get_buf h p) (\<lambda>buf.
        if b_orig buf \<noteq> 0 then buffer_data n dbg (b_orig buf) h
        else if b_next buf \<noteq> 0 then
          obind (logdb_buffer_length h p) (\<lambda>newlen.
            case h_malloc h of (newdata, h) \<Rightarrow>
              if newdata = 0 then Done (0, h)
              else obind (copy_chain n dbg p [] h) (\<lambda>(got, h).
                case got of
                  None \<Rightarrow> Done (0, h)
                | Some bs \<Rightarrow>
                    if unat newlen < length bs then Fault OutOfBounds
                    else obind (get_buf h p) (\<lambda>buf.
                         obind (dispose (b_disposer buf) (b_data buf) h) (\<lambda>h.
                         Done (newdata,
                           put_buf (h\<lparr>mem := (mem h)(newdata := Some bs)\<rparr>) p
                             (buf\<lparr>b_data := newdata, b_len := newlen, b_next := 0,
                                  b_disposer := Some C_free\<rparr>))))))
        else Done (b_data buf, h)))"
| "copy_chain 0 dbg cur acc h = (if cur = 0 then Done (Some acc, h) else Fault Diverges)"
| "copy_chain (Suc n) dbg cur acc h =
     (if cur = 0 then Done (Some acc, h)
      else obind (get_buf h cur) (\<lambda>c.
        if b_orig c \<noteq> 0 then
          obind (logdb_buffer_length h (b_orig c)) (\<lambda>len.
          obind (buffer_data n dbg (b_orig c) h) (\<lambda>(data, h).
            if data = 0 then Done (None, h)
            else obind (load_bytes h data (unat len)) (\<lambda>bs.
                 obind (get_buf h cur) (\<lambda>c. copy_chain n dbg (b_next c) (acc @ bs) h))))
        else obind (load_bytes h (b_data c) (unat (b_len c))) (\<lambda>bs.
             copy_chain n dbg (b_next c) (acc @ bs) h)))"

definition logdb_buffer_data :: "bool \<Rightarrow> ptr \<Rightarrow> heap \<Rightarrow> (ptr \<times> heap) outcome" where
  "logdb_buffer_data dbg buffer h = buffer_data (2 * fuel_of h) dbg buffer h"

text \<open>The walk to the end of the first chain; None when it meets the second buffer.\<close>

fun find_last :: "nat \<Rightarrow> heap \<Rightarrow> ptr \<Rightarrow> ptr \<Rightarrow> ptr option outcome" where
  "find_last 0 h buf buffer2 = Fault Diverges"
| "find_last (Suc n) h buf buffer2 =
     obind (get_buf h buf) (\<lambda>b.
       if b_next b = 0 then Done (Some buf)
       else if b_next b = buffer2 then Done None
       else find_last n h (b_next b) buffer2)"

definition logdb_buffer_append :: "bool \<Rightarrow> ptr \<Rightarrow> ptr \<Rightarrow> heap \<Rightarrow> (ptr \<times> heap) outcome" where
  "logdb_buffer_append dbg buffer1 buffer2 h =
     (if dbg \<and> (buffer2 = 0 \<or> buffer1 = buffer2) then Done (0, h)
      else if buffer1 = 0 then Done (buffer2, h)
      else obind (logdb_buffer_length h buffer1) (\<lambda>len1.
           obind (logdb_buffer_length h buffer2) (\<lambda>len2.
             if (-1) - len1 < len2 then Done (0, h)
             else obind (find_last (fuel_of h) h buffer1 buffer2) (\<lambda>found.
               case found of
                 None \<Rightarrow> Done (0, h)
               | Some buf \<Rightarrow>
                   obind (logdb_buffer_copy dbg buffer2 h) (\<lambda>(c, h).
                   obind (get_buf h buf) (\<lambda>b.
                   Done (buffer1, put_buf h buf (b\<lparr>b_next := c\<rparr>))))))))"

fun buffer_free :: "nat \<Rightarrow> ptr \<Rightarrow> heap \<Rightarrow> heap outcome" where
  "buffer_free 0 p h = (if p = 0 then Done h else Fault Diverges)"
| "buffer_free (Suc n) p h =
     (if p = 0 then Done h
      else obind (get_buf h p) (\<lambda>buf.
        let h = put_buf h p (buf\<lparr>b_refcnt := b_refcnt buf - 1\<rparr>) in
        if b_refcnt buf > 1 then Done h
        else obind (dispose (b_disposer buf) (b_data buf) h) (\<lambda>h.
             obind (if b_orig buf \<noteq> 0 then buffer_free n (b_orig buf) h else Done h) (\<lambda>h.
             obind (if b_next buf \<noteq> 0 then buffer_free n (b_next buf) h else Done h) (\<lambda>h.
             Done (h\<lparr>bufs := (bufs h)(p := None)\<rparr>))))))"

definition logdb_buffer_free :: "ptr \<Rightarrow> heap \<Rightarrow> heap outcome" where
  "logdb_buffer_free buffer h = buffer_free (fuel_of h) buffer h"

section \<open>The contents of a buffer\<close>

text \<open>
  \<open>brep h n p xs\<close>: following \<open>orig\<close> and \<open>next\<close> from \<open>p\<close> ends after at most \<open>n\<close> links on every
  path, meets live memory only, and yields the bytes \<open>xs\<close>.
\<close>

inductive brep :: "heap \<Rightarrow> nat \<Rightarrow> ptr \<Rightarrow> byte list \<Rightarrow> bool" for h where
  null: "brep h 0 0 []"
| own: "\<lbrakk>p \<noteq> 0; bufs h p = Some b; b_orig b = 0; load_bytes h (b_data b) (unat (b_len b)) = Done ys;
         brep h n (b_next b) zs\<rbrakk> \<Longrightarrow> brep h (Suc n) p (ys @ zs)"
| ref: "\<lbrakk>p \<noteq> 0; bufs h p = Some b; b_orig b \<noteq> 0; brep h m (b_orig b) ys;
         brep h n (b_next b) zs\<rbrakk> \<Longrightarrow> brep h (Suc (max m n)) p (ys @ zs)"

inductive_simps brep_null [simp]: "brep h n 0 xs"
inductive_cases brepE: "brep h n p xs"

lemma load_bytes_length: "load_bytes h p n = Done bs \<Longrightarrow> length bs = n"
  by (auto simp: load_bytes_def split: option.splits if_splits)

definition heap_ok :: "heap \<Rightarrow> bool" where
  "heap_ok h \<longleftrightarrow> (\<forall>p. (mem h p \<noteq> None \<or> bufs h p \<noteq> None \<or> txns h p \<noteq> None) \<longrightarrow> 0 < p \<and> p \<le> brk h)"

lemma brep_det: "brep h n p xs \<Longrightarrow> brep h m p ys \<Longrightarrow> m = n \<and> ys = xs"
proof (induction arbitrary: m ys rule: brep.induct)
  case null
  then show ?case by simp
next
  case (own p b ys' n zs)
  from own.prems own.hyps show ?case
    by (cases rule: brepE) (auto dest: own.IH)
next
  case (ref p b k ys' n zs)
  from ref.prems obtain k' ys2 n' zs2 where
    "m = Suc (max k' n')" "ys = ys2 @ zs2" "brep h k' (b_orig b) ys2" "brep h n' (b_next b) zs2"
    by (cases rule: brepE) (use ref.hyps in auto)
  with ref.IH(1) [of k' ys2] ref.IH(2) [of n' zs2] show ?case by simp
qed

lemma brep_levels:
  assumes "brep h n p xs"
  shows "\<forall>k\<in>{1..n}. \<exists>q ys. brep h k q ys \<and> bufs h q \<noteq> None"
  using assms
proof (induction rule: brep.induct)
  case (own p b ys n zs)
  have "brep h (Suc n) p (ys @ zs)" by (rule brep.own) (use own in auto)
  then have "\<exists>q ys. brep h (Suc n) q ys \<and> bufs h q \<noteq> None" using own.hyps(2) by blast
  with own.IH show ?case by (simp add: atLeastAtMostSuc_conv)
next
  case (ref p b m ys n zs)
  have "brep h (Suc (max m n)) p (ys @ zs)" by (rule brep.ref) (use ref in auto)
  then have "\<exists>q ys. brep h (Suc (max m n)) q ys \<and> bufs h q \<noteq> None" using ref.hyps(2) by blast
  moreover have "\<forall>k\<in>{1..max m n}. \<exists>q ys. brep h k q ys \<and> bufs h q \<noteq> None"
    using ref.IH by (cases "m \<le> n") (simp_all add: max_def)
  ultimately show ?case by (simp add: atLeastAtMostSuc_conv)
qed simp

lemma brep_height:
  assumes "heap_ok h" "brep h n p xs"
  shows "n \<le> brk h"
proof -
  from brep_levels [OF assms(2)] obtain f where
    f: "\<And>k. k \<in> {1..n} \<Longrightarrow> \<exists>ys. brep h k (f k) ys \<and> bufs h (f k) \<noteq> None"
    by metis
  have "inj_on f {1..n}"
    by (rule inj_onI) (metis f brep_det)
  moreover have "f ` {1..n} \<subseteq> {1..brk h}"
    using f assms(1) by (fastforce simp: heap_ok_def Suc_le_eq)
  ultimately have "card {1..n} \<le> card {1..brk h}"
    by (metis card_image card_mono finite_atLeastAtMost)
  then show ?thesis by simp
qed

lemma of_nat_length_load: "load_bytes h p (unat l) = Done bs \<Longrightarrow> of_nat (length bs) = l"
  by (drule load_bytes_length) simp

lemma buffer_length_loop_correct:
  "brep h n p xs \<Longrightarrow> n \<le> k \<Longrightarrow> buffer_length_loop k h p acc = Done (acc + of_nat (length xs))"
proof (induction arbitrary: k acc rule: brep.induct)
  case null
  then show ?case by (cases k) simp_all
next
  case (own p b ys n zs)
  then obtain k' where "k = Suc k'" "n \<le> k'" by (cases k) auto
  with own show ?case by (simp add: get_buf_def of_nat_length_load add.assoc)
next
  case (ref p b m ys n zs)
  then obtain k' where "k = Suc k'" "m \<le> k'" "n \<le> k'" by (cases k) auto
  with ref show ?case by (simp add: get_buf_def add.assoc)
qed

lemma fuel_enough: "heap_ok h \<Longrightarrow> brep h n p xs \<Longrightarrow> n \<le> fuel_of h"
  using brep_height by (fastforce simp: fuel_of_def)

lemma logdb_buffer_length_correct:
  "heap_ok h \<Longrightarrow> brep h n p xs \<Longrightarrow> logdb_buffer_length h p = Done (of_nat (length xs))"
  using buffer_length_loop_correct [of h n p xs "fuel_of h" 0] fuel_enough
  by (simp add: logdb_buffer_length_def)

section \<open>What a change of the heap leaves alone\<close>

inductive breach :: "heap \<Rightarrow> ptr \<Rightarrow> ptr \<Rightarrow> bool" for h where
  here: "p \<noteq> 0 \<Longrightarrow> breach h p p"
| via_orig: "bufs h p = Some b \<Longrightarrow> breach h (b_orig b) q \<Longrightarrow> breach h p q"
| via_next: "bufs h p = Some b \<Longrightarrow> breach h (b_next b) q \<Longrightarrow> breach h p q"

text \<open>The part of a buffer struct that determines the contents.\<close>

definition bview :: "logdb_buffer_t \<Rightarrow> ptr \<times> 32 word \<times> ptr \<times> ptr" where
  "bview b = (b_data b, b_len b, b_orig b, b_next b)"

definition same_view :: "heap \<Rightarrow> heap \<Rightarrow> ptr \<Rightarrow> bool" where
  "same_view h h' p \<longleftrightarrow> map_option bview (bufs h' p) = map_option bview (bufs h p)"

definition mem_kept :: "heap \<Rightarrow> heap \<Rightarrow> bool" where
  "mem_kept h h' \<longleftrightarrow> (\<forall>a bs. mem h a = Some bs \<longrightarrow> mem h' a = Some bs)"

lemma mem_kept_refl [simp]: "mem_kept h h"
  by (simp add: mem_kept_def)

lemma load_bytes_kept:
  "mem_kept h h' \<Longrightarrow> load_bytes h p n = Done bs \<Longrightarrow> load_bytes h' p n = Done bs"
  by (auto simp: mem_kept_def load_bytes_def split: option.splits if_splits)

lemma brep_frame:
  assumes "brep h n p xs" "\<And>q. breach h p q \<Longrightarrow> same_view h h' q" "mem_kept h h'"
  shows "brep h' n p xs"
  using assms
proof (induction rule: brep.induct)
  case null
  show ?case by (rule brep.null)
next
  case (own p b ys n zs)
  have "same_view h h' p" using own.hyps(1) own.prems(1) by (blast intro: breach.here)
  then obtain b' where b': "bufs h' p = Some b'" "bview b' = bview b"
    using own.hyps(2) by (auto simp: same_view_def)
  have "brep h' n (b_next b) zs"
    by (rule own.IH) (use own in \<open>blast intro: breach.via_next\<close>)+
  with own.hyps b' own.prems(2) show ?case
    by (intro brep.own [of p h' b']) (auto simp: bview_def intro: load_bytes_kept)
next
  case (ref p b m ys n zs)
  have "same_view h h' p" using ref.hyps(1) ref.prems(1) by (blast intro: breach.here)
  then obtain b' where b': "bufs h' p = Some b'" "bview b' = bview b"
    using ref.hyps(2) by (auto simp: same_view_def)
  have "brep h' n (b_next b) zs"
    by (rule ref.IH(2)) (use ref in \<open>blast intro: breach.via_next\<close>)+
  moreover have "brep h' m (b_orig b) ys"
    by (rule ref.IH(1)) (use ref in \<open>blast intro: breach.via_orig\<close>)+
  ultimately show ?case using ref.hyps b'
    by (intro brep.ref [of p h' b']) (auto simp: bview_def)
qed

lemma heap_ok_null: "heap_ok h \<Longrightarrow> bufs h 0 = None"
  by (cases "bufs h 0") (auto simp: heap_ok_def)

lemma breach_null: "heap_ok h \<Longrightarrow> \<not> breach h 0 q"
  by (auto simp: heap_ok_null elim: breach.cases)

lemma brep_reach_live:
  "brep h n p xs \<Longrightarrow> heap_ok h \<Longrightarrow> breach h p q \<Longrightarrow> bufs h q \<noteq> None"
  by (induction arbitrary: q rule: brep.induct) (auto elim: breach.cases simp: breach_null)

lemma brep_head_live: "brep h n p xs \<Longrightarrow> p \<noteq> 0 \<Longrightarrow> \<exists>b. bufs h p = Some b"
  by (auto elim: brepE)

section \<open>Allocation and copies\<close>

definition plenty :: "heap \<Rightarrow> bool" where
  "plenty h = list_all Not (oom h)"

definition h_bump :: "heap \<Rightarrow> heap" where
  "h_bump h = h\<lparr>brk := Suc (brk h), oom := tl (oom h)\<rparr>"

lemma h_bump_simps [simp]:
  "mem (h_bump h) = mem h" "bufs (h_bump h) = bufs h" "txns (h_bump h) = txns h"
  "brk (h_bump h) = Suc (brk h)" "disposed (h_bump h) = disposed h" "oom (h_bump h) = tl (oom h)"
  by (simp_all add: h_bump_def)

lemma put_buf_simps [simp]:
  "mem (put_buf h p b) = mem h" "bufs (put_buf h p b) = (bufs h)(p := Some b)"
  "txns (put_buf h p b) = txns h" "brk (put_buf h p b) = brk h"
  "disposed (put_buf h p b) = disposed h" "oom (put_buf h p b) = oom h"
  by (simp_all add: put_buf_def)

lemma load_bytes_frame [simp]:
  "load_bytes (h_bump h) a n = load_bytes h a n" "load_bytes (put_buf h p b) a n = load_bytes h a n"
  by (simp_all add: load_bytes_def)

lemma plenty_bump [simp]: "plenty h \<Longrightarrow> plenty (h_bump h)"
  by (cases "oom h") (simp_all add: plenty_def)

lemma plenty_put [simp]: "plenty (put_buf h p b) = plenty h"
  by (simp add: plenty_def)

lemma h_malloc_plenty: "plenty h \<Longrightarrow> h_malloc h = (Suc (brk h), h_bump h)"
  by (auto simp: h_malloc_def h_bump_def plenty_def split: list.splits)

lemma heap_ok_bump [simp]: "heap_ok h \<Longrightarrow> heap_ok (h_bump h)"
  by (fastforce simp: heap_ok_def)

lemma heap_ok_put: "heap_ok h \<Longrightarrow> 0 < p \<Longrightarrow> p \<le> brk h \<Longrightarrow> heap_ok (put_buf h p b)"
  by (auto simp: heap_ok_def)

lemma heap_ok_fresh: "heap_ok h \<Longrightarrow> bufs h (Suc (brk h)) = None"
  by (cases "bufs h (Suc (brk h))") (fastforce simp: heap_ok_def)+

lemma heap_ok_bound: "heap_ok h \<Longrightarrow> bufs h p = Some b \<Longrightarrow> 0 < p \<and> p \<le> brk h"
  by (auto simp: heap_ok_def)

lemma new_direct_plenty:
  "plenty h \<Longrightarrow> \<not> (dbg \<and> data = 0) \<Longrightarrow>
   logdb_buffer_new_direct dbg data len d h =
     (Suc (brk h), put_buf (h_bump h) (Suc (brk h))
        \<lparr>b_data = data, b_len = len, b_disposer = d, b_orig = 0, b_next = 0, b_refcnt = 1\<rparr>)"
  by (auto simp: logdb_buffer_new_direct_def h_malloc_plenty)

lemma new_direct_brep:
  assumes "plenty h" "data \<noteq> 0" "load_bytes h data (unat len) = Done bs"
    and "logdb_buffer_new_direct dbg data len d h = (p, h')"
  shows "p \<noteq> 0" "brep h' 1 p bs"
proof -
  show "p \<noteq> 0" using assms by (auto simp: new_direct_plenty)
  have "brep h' (Suc 0) p (bs @ [])"
    using assms by (intro brep.own) (auto simp: new_direct_plenty)
  then show "brep h' 1 p bs" by simp
qed

lemma logdb_buffer_copy_plenty:
  assumes "plenty h" "heap_ok h" "bufs h p = Some b" "\<not> (dbg \<and> b_data b = 0)"
  shows "logdb_buffer_copy dbg p h =
     Done (Suc (brk h), put_buf (put_buf (h_bump h) p (b\<lparr>b_refcnt := b_refcnt b + 1\<rparr>)) (Suc (brk h))
        \<lparr>b_data = b_data b, b_len = b_len b, b_disposer = None, b_orig = p, b_next = 0, b_refcnt = 1\<rparr>)"
proof -
  have "p \<noteq> Suc (brk h)" using assms(2,3) heap_ok_bound by fastforce
  with assms show ?thesis
    by (simp add: logdb_buffer_copy_def get_buf_def new_direct_plenty logdb_buffer_retain_def
        put_buf_def fun_upd_twist)
qed

section \<open>Append\<close>

text \<open>
  \<open>owned_chain h p l\<close>: \<open>l\<close> ends the chain that starts at \<open>p\<close>, and no original of the chain
  leads back to \<open>l\<close>. Every chain the interface builds has this shape, as the inner nodes of a
  chain are copies nobody else holds.
\<close>

inductive owned_chain :: "heap \<Rightarrow> ptr \<Rightarrow> ptr \<Rightarrow> bool" for h where
  last: "\<lbrakk>bufs h p = Some b; b_next b = 0; \<not> breach h (b_orig b) p\<rbrakk> \<Longrightarrow> owned_chain h p p"
| more: "\<lbrakk>bufs h p = Some b; p \<noteq> l; b_next b \<noteq> 0; \<not> breach h (b_orig b) l; owned_chain h (b_next b) l\<rbrakk>
         \<Longrightarrow> owned_chain h p l"

lemma owned_chain_reach: "owned_chain h p l \<Longrightarrow> p \<noteq> 0 \<Longrightarrow> breach h p l"
  by (induction rule: owned_chain.induct) (auto intro: breach.intros)

lemma owned_chain_live: "owned_chain h p l \<Longrightarrow> \<exists>b. bufs h l = Some b \<and> b_next b = 0"
  by (induction rule: owned_chain.induct) auto

lemma find_last_correct:
  "\<lbrakk>owned_chain h p l; brep h n p xs; p \<noteq> 0; n \<le> k; \<not> breach h q l\<rbrakk> \<Longrightarrow> find_last k h p q = Done (Some l)"
proof (induction arbitrary: n xs k rule: owned_chain.induct)
  case (last p b)
  then obtain k' where "k = Suc k'" by (cases k) (auto elim: brepE)
  with last show ?case by (simp add: get_buf_def)
next
  case (more p b l)
  then obtain n' zs where n': "brep h n' (b_next b) zs" "Suc n' \<le> n"
    using more.hyps(1) by (auto elim!: brepE [of h n p xs])
  then obtain k' where k: "k = Suc k'" "n' \<le> k'"
    using more.prems(3) by (cases k) auto
  have "b_next b \<noteq> q"
    using more.hyps more.prems(4) owned_chain_reach by blast
  with more.IH [OF n'(1) more.hyps(3) k(2) more.prems(4)] more.hyps k(1) show ?case
    by (simp add: get_buf_def)
qed

lemma brep_extend_last:
  assumes "owned_chain h p l" "brep h n p xs"
    and "bufs h l = Some bl" "bufs h' l = Some bl'" "bview bl' = (b_data bl, b_len bl, b_orig bl, c)"
    and "brep h' k c ys"
    and "\<And>q. bufs h q \<noteq> None \<Longrightarrow> q \<noteq> l \<Longrightarrow> same_view h h' q"
    and "mem_kept h h'" "heap_ok h" "p \<noteq> 0"
  shows "\<exists>n'. brep h' n' p (xs @ ys)"
  using assms
proof (induction arbitrary: n xs rule: owned_chain.induct)
  case (last p b)
  have bl: "bl = b" using last by simp
  from \<open>brep h n p xs\<close> show ?case
  proof (cases rule: brep.cases)
    case (own b' ds n0 zs)
    then have "brep h' (Suc k) p (ds @ ys)"
      using last bl by (intro brep.own [of p h' bl']) (auto simp: bview_def intro: load_bytes_kept)
    moreover have "zs = []" using own last.hyps by simp
    ultimately show ?thesis using own by auto
  next
    case (ref b' m ds n0 zs)
    have "brep h' m (b_orig b) ds"
    proof (rule brep_frame)
      show "brep h m (b_orig b) ds" using ref last.hyps by simp
      then show "same_view h h' q" if "breach h (b_orig b) q" for q
        using that last.prems(6,8) last.hyps(3) brep_reach_live by blast
    qed (fact last.prems)
    then have "brep h' (Suc (max m k)) p (ds @ ys)"
      using last ref bl by (intro brep.ref [of p h' bl']) (auto simp: bview_def)
    moreover have "zs = []" using ref last.hyps by simp
    ultimately show ?thesis using ref by auto
  qed (use last in simp)
next
  case (more p b l)
  have view: "same_view h h' p" using more.hyps more.prems(6) by blast
  then obtain b' where b': "bufs h' p = Some b'" "bview b' = bview b"
    using more.hyps(1) by (auto simp: same_view_def)
  from \<open>brep h n p xs\<close> show ?case
  proof (cases rule: brep.cases)
    case (own b2 ds n0 zs)
    have "\<exists>n'. brep h' n' (b_next b) (zs @ ys)"
      by (rule more.IH) (use more own in auto)
    then obtain n' where "brep h' n' (b_next b) (zs @ ys)" ..
    then have "brep h' (Suc n') p (ds @ (zs @ ys))"
      using more b' own by (intro brep.own [of p h' b']) (auto simp: bview_def intro: load_bytes_kept)
    then show ?thesis using own by auto
  next
    case (ref b2 m ds n0 zs)
    have "\<exists>n'. brep h' n' (b_next b) (zs @ ys)"
      by (rule more.IH) (use more ref in auto)
    then obtain n' where n': "brep h' n' (b_next b) (zs @ ys)" ..
    have "brep h' m (b_orig b) ds"
    proof (rule brep_frame)
      show "brep h m (b_orig b) ds" using ref more.hyps by simp
      then show "same_view h h' q" if "breach h (b_orig b) q" for q
        using that more.prems(6,8) more.hyps(4) brep_reach_live by blast
    qed (fact more.prems)
    with n' have "brep h' (Suc (max m n')) p (ds @ (zs @ ys))"
      using more b' ref by (intro brep.ref [of p h' b']) (auto simp: bview_def)
    then show ?thesis using ref by auto
  qed (use more in simp)
qed

lemma breach_back:
  assumes "brep h n p xs" "breach h' p r" "\<not> breach h p l"
    and "\<And>q. bufs h q \<noteq> None \<Longrightarrow> q \<noteq> l \<Longrightarrow> same_view h h' q" "heap_ok h'"
  shows "breach h p r"
  using assms
proof (induction arbitrary: r rule: brep.induct)
  case null
  then show ?case using breach_null by blast
next
  case (own p b ys n zs)
  have "p \<noteq> l" using own.hyps(1) own.prems(2) by (auto intro: breach.here)
  then obtain b' where b': "bufs h' p = Some b'" "bview b' = bview b"
    using own.hyps(2) own.prems(3) [of p] by (auto simp: same_view_def)
  from own.prems(1) show ?case
  proof (cases rule: breach.cases)
    case here
    then show ?thesis by (auto intro: breach.here)
  next
    case (via_orig b2)
    with b' own.hyps(3) show ?thesis
      using breach_null [OF own.prems(4)] by (auto simp: bview_def)
  next
    case (via_next b2)
    then have "breach h (b_next b) r"
      using b' own.prems own.hyps(2) by (intro own.IH) (auto simp: bview_def intro: breach.via_next)
    then show ?thesis using own.hyps(2) by (rule breach.via_next [rotated])
  qed
next
  case (ref p b m ys n zs)
  have "p \<noteq> l" using ref.hyps(1) ref.prems(2) by (auto intro: breach.here)
  then obtain b' where b': "bufs h' p = Some b'" "bview b' = bview b"
    using ref.hyps(2) ref.prems(3) [of p] by (auto simp: same_view_def)
  from ref.prems(1) show ?case
  proof (cases rule: breach.cases)
    case here
    then show ?thesis by (auto intro: breach.here)
  next
    case (via_orig b2)
    then have "breach h (b_orig b) r"
      using b' ref.prems ref.hyps(2) by (intro ref.IH(1)) (auto simp: bview_def intro: breach.via_orig)
    then show ?thesis using ref.hyps(2) by (rule breach.via_orig [rotated])
  next
    case (via_next b2)
    then have "breach h (b_next b) r"
      using b' ref.prems ref.hyps(2) by (intro ref.IH(2)) (auto simp: bview_def intro: breach.via_next)
    then show ?thesis using ref.hyps(2) by (rule breach.via_next [rotated])
  qed
qed

text \<open>The heap after a successful append: the copy, its retained original, the new link.\<close>

definition appended :: "heap \<Rightarrow> ptr \<Rightarrow> ptr \<Rightarrow> heap" where
  "appended h l b2 =
     (case (bufs h b2, bufs h l) of
        (Some b, Some bl) \<Rightarrow>
          put_buf (put_buf (put_buf (h_bump h) b2 (b\<lparr>b_refcnt := b_refcnt b + 1\<rparr>)) (Suc (brk h))
            \<lparr>b_data = b_data b, b_len = b_len b, b_disposer = None, b_orig = b2, b_next = 0, b_refcnt = 1\<rparr>)
            l (bl\<lparr>b_next := Suc (brk h)\<rparr>)
      | _ \<Rightarrow> h)"

lemma appended_frame:
  assumes "bufs h b2 = Some b" "bufs h l = Some bl"
  shows "mem (appended h l b2) = mem h" "txns (appended h l b2) = txns h"
    "brk (appended h l b2) = Suc (brk h)" "disposed (appended h l b2) = disposed h"
    "plenty h \<Longrightarrow> plenty (appended h l b2)"
    "\<And>a n. load_bytes (appended h l b2) a n = load_bytes h a n"
  using assms by (simp_all add: appended_def)

lemma appended_view:
  assumes "heap_ok h" "bufs h b2 = Some b" "bufs h l = Some bl" "l \<noteq> b2"
  shows "bufs h q \<noteq> None \<Longrightarrow> q \<noteq> l \<Longrightarrow> same_view h (appended h l b2) q"
    "heap_ok (appended h l b2)"
    "bufs (appended h l b2) l = Some (bl\<lparr>b_next := Suc (brk h)\<rparr>)"
    "bufs (appended h l b2) (Suc (brk h)) = Some
       \<lparr>b_data = b_data b, b_len = b_len b, b_disposer = None, b_orig = b2, b_next = 0, b_refcnt = 1\<rparr>"
    "bufs (appended h l b2) b2 = Some (b\<lparr>b_refcnt := b_refcnt b + 1\<rparr>)"
proof -
  have ne: "Suc (brk h) \<noteq> l" "Suc (brk h) \<noteq> b2" and pos: "0 < b2" "0 < l" "b2 \<le> brk h" "l \<le> brk h"
    using assms heap_ok_bound by fastforce+
  have "q \<noteq> Suc (brk h)" if "bufs h q \<noteq> None" for q
    using that heap_ok_fresh [OF assms(1)] by blast
  then show "bufs h q \<noteq> None \<Longrightarrow> q \<noteq> l \<Longrightarrow> same_view h (appended h l b2) q"
    using assms(2,3) by (auto simp: appended_def same_view_def bview_def)
  show "heap_ok (appended h l b2)"
    using assms(1-3) pos by (simp add: appended_def) (intro heap_ok_put heap_ok_bump, simp_all)
  show "bufs (appended h l b2) l = Some (bl\<lparr>b_next := Suc (brk h)\<rparr>)"
    "bufs (appended h l b2) (Suc (brk h)) = Some
       \<lparr>b_data = b_data b, b_len = b_len b, b_disposer = None, b_orig = b2, b_next = 0, b_refcnt = 1\<rparr>"
    "bufs (appended h l b2) b2 = Some (b\<lparr>b_refcnt := b_refcnt b + 1\<rparr>)"
    using assms(2-4) ne by (auto simp: appended_def)
qed

lemma word32_room: "m + n < 4294967296 \<Longrightarrow> \<not> (-1 - of_nat m < (of_nat n :: 32 word))"
proof -
  assume room: "m + n < 4294967296"
  have "unat (-1 - of_nat m :: 32 word) = 4294967295 - m"
    using room by (simp add: unat_sub unat_of_nat unsigned_minus_1_eq_mask mask_eq_exp_minus_1)
  with room show ?thesis by (simp add: word_less_nat_alt unat_of_nat)
qed

lemma logdb_buffer_append_appended:
  assumes "heap_ok h" "plenty h" "brep h n1 b1 xs" "brep h n2 b2 ys" "b1 \<noteq> 0" "bufs h b2 = Some b"
    and "owned_chain h b1 l" "\<not> breach h b2 l" "length xs + length ys < 4294967296"
    and "\<not> (dbg \<and> b_data b = 0)"
  shows "logdb_buffer_append dbg b1 b2 h = Done (b1, appended h l b2)"
proof -
  have b2: "b2 \<noteq> 0" using assms(1,6) heap_ok_bound by fastforce
  have "b1 \<noteq> b2" using assms(5,7,8) owned_chain_reach by blast
  have l: "l \<noteq> b2" using assms(8) b2 breach.here by blast
  obtain bl where bl: "bufs h l = Some bl" using owned_chain_live [OF assms(7)] by blast
  have "find_last (fuel_of h) h b1 b2 = Done (Some l)"
    by (rule find_last_correct) (use assms fuel_enough in auto)
  moreover have "Suc (brk h) \<noteq> l" using bl assms(1) heap_ok_bound by fastforce
  ultimately show ?thesis
    using assms b2 \<open>b1 \<noteq> b2\<close> l bl word32_room [OF assms(9)]
    by (simp add: logdb_buffer_append_def logdb_buffer_length_correct logdb_buffer_copy_plenty
        get_buf_def appended_def)
qed

lemma owned_chain_appended:
  assumes "owned_chain h p l" "brep h n p xs" "brep h n2 b2 ys" "p \<noteq> 0" "heap_ok h"
    and "bufs h b2 = Some b" "\<not> breach h b2 l" "l \<noteq> b2"
  shows "owned_chain (appended h l b2) p (Suc (brk h))"
  using assms
proof (induction arbitrary: n xs rule: owned_chain.induct)
  case (last p b1)
  let ?h = "appended h p b2"
  note v = appended_view [OF last.prems(4,5) last.hyps(1) last.prems(7)]
  have fresh: "\<not> breach ?h q (Suc (brk h))" if "brep h k q zs" "\<not> breach h q p" for k q zs
  proof
    assume "breach ?h q (Suc (brk h))"
    from breach_back [OF that(1) this that(2) v(1,2)] have "breach h q (Suc (brk h))" .
    then show False
      using brep_reach_live [OF that(1) last.prems(4)] heap_ok_fresh [OF last.prems(4)] by blast
  qed
  have "owned_chain ?h (Suc (brk h)) (Suc (brk h))"
    using fresh [OF last.prems(2,6)] by (intro owned_chain.last [OF v(4)]) simp_all
  moreover have "\<not> breach ?h (b_orig b1) (Suc (brk h))"
  proof (cases "b_orig b1 = 0")
    case True
    then show ?thesis using breach_null [OF v(2)] by simp
  next
    case False
    then obtain k zs where "brep h k (b_orig b1) zs"
      using last.prems(1,3) last.hyps(1) by (auto elim!: brepE [of h n p xs])
    then show ?thesis using fresh last.hyps(3) by blast
  qed
  moreover have "p \<noteq> Suc (brk h)" using last.hyps(1) heap_ok_fresh [OF last.prems(4)] by auto
  ultimately show ?case
    using v(3) by (intro owned_chain.more [of ?h p "b1\<lparr>b_next := Suc (brk h)\<rparr>"]) auto
next
  case (more p b1 l)
  let ?h = "appended h l b2"
  obtain bl where bl: "bufs h l = Some bl" using owned_chain_live [OF more.hyps(5)] by blast
  note v = appended_view [OF more.prems(4,5) bl more.prems(7)]
  have fresh: "\<not> breach ?h q (Suc (brk h))" if "brep h k q zs" "\<not> breach h q l" for k q zs
  proof
    assume "breach ?h q (Suc (brk h))"
    from breach_back [OF that(1) this that(2) v(1,2)] have "breach h q (Suc (brk h))" .
    then show False
      using brep_reach_live [OF that(1) more.prems(4)] heap_ok_fresh [OF more.prems(4)] by blast
  qed
  obtain b' where b': "bufs ?h p = Some b'" "bview b' = bview b1"
    using v(1) [of p] more.hyps(1,2) by (auto simp: same_view_def)
  obtain n' zs where next_rep: "brep h n' (b_next b1) zs"
    using more.prems(1,3) more.hyps(1) by (auto elim!: brepE [of h n p xs])
  have "owned_chain ?h (b_next b1) (Suc (brk h))"
    using next_rep more.prems more.hyps by (intro more.IH) auto
  moreover have "\<not> breach ?h (b_orig b1) (Suc (brk h))"
  proof (cases "b_orig b1 = 0")
    case True
    then show ?thesis using breach_null [OF v(2)] by simp
  next
    case False
    then obtain k zs where "brep h k (b_orig b1) zs"
      using more.prems(1,3) more.hyps(1) by (auto elim!: brepE [of h n p xs])
    then show ?thesis using fresh more.hyps(4) by blast
  qed
  moreover have "p \<noteq> Suc (brk h)" using more.hyps(1) heap_ok_fresh [OF more.prems(4)] by auto
  ultimately show ?case
    using b' more.hyps(3) by (intro owned_chain.more [of ?h p b']) (auto simp: bview_def)
qed

theorem logdb_buffer_append_correct:
  assumes "heap_ok h" "plenty h" "brep h n1 b1 xs" "brep h n2 b2 ys" "b1 \<noteq> 0" "bufs h b2 = Some b"
    and "owned_chain h b1 l" "\<not> breach h b2 l" "length xs + length ys < 4294967296"
    and "\<not> (dbg \<and> b_data b = 0)"
  shows "\<exists>h' n'. logdb_buffer_append dbg b1 b2 h = Done (b1, h') \<and> brep h' n' b1 (xs @ ys) \<and>
           brep h' n2 b2 ys \<and> heap_ok h' \<and> plenty h' \<and> owned_chain h' b1 (Suc (brk h)) \<and>
           logdb_buffer_length h' b1 = Done (of_nat (length (xs @ ys)))"
proof -
  let ?h = "appended h l b2"
  have b2: "b2 \<noteq> 0" using assms(1,6) heap_ok_bound by fastforce
  have l: "l \<noteq> b2" using assms(8) b2 breach.here by blast
  obtain bl where bl: "bufs h l = Some bl" "b_next bl = 0"
    using owned_chain_live [OF assms(7)] by blast
  note v = appended_view [OF assms(1,6) bl(1) l]
  note fr = appended_frame [OF assms(6) bl(1)]
  have kept: "mem_kept h ?h" by (simp add: mem_kept_def fr)
  have view: "same_view h ?h q" if "breach h b2 q" for q
    using that v(1) assms(8) brep_reach_live [OF assms(4,1)] by metis
  have r2: "brep ?h n2 b2 ys"
    by (rule brep_frame [OF assms(4) view kept])
  let ?c = "Suc (brk h)"
  have rc: "brep ?h (Suc (max n2 0)) ?c (ys @ [])"
    by (rule brep.ref [OF _ v(4)]) (use b2 r2 in auto)
  then have rc: "brep ?h (Suc n2) ?c ys" by simp
  have vl: "bview (bl\<lparr>b_next := ?c\<rparr>) = (b_data bl, b_len bl, b_orig bl, ?c)" by (simp add: bview_def)
  obtain n' where n': "brep ?h n' b1 (xs @ ys)"
    using brep_extend_last [OF assms(7,3) bl(1) v(3) vl rc v(1) kept assms(1,5)] by blast
  have "owned_chain ?h b1 ?c"
    by (rule owned_chain_appended [OF assms(7,3,4,5,1,6,8) l])
  moreover have "plenty ?h" by (rule fr(5) [OF assms(2)])
  moreover have "logdb_buffer_append dbg b1 b2 h = Done (b1, ?h)"
    by (rule logdb_buffer_append_appended [OF assms])
  ultimately show ?thesis
    using n' r2 v(2) logdb_buffer_length_correct [OF v(2) n'] by blast
qed

section \<open>Reference counts\<close>

text \<open>A live buffer that is held more than once is only counted down.\<close>

lemma logdb_buffer_free_shared:
  "bufs h p = Some b \<Longrightarrow> p \<noteq> 0 \<Longrightarrow> 1 < b_refcnt b \<Longrightarrow>
   logdb_buffer_free p h = Done (put_buf h p (b\<lparr>b_refcnt := b_refcnt b - 1\<rparr>))"
  by (simp add: logdb_buffer_free_def fuel_of_def get_buf_def Let_def)

lemma logdb_buffer_free_null [simp]: "logdb_buffer_free 0 h = Done h"
  by (simp add: logdb_buffer_free_def fuel_of_def)

lemma logdb_buffer_retain_free:
  assumes "logdb_buffer_retain p h = Done h'" "p \<noteq> 0" "bufs h p = Some b" "1 \<le> b_refcnt b"
  shows "logdb_buffer_free p h' = Done h"
proof -
  have h': "h' = put_buf h p (b\<lparr>b_refcnt := b_refcnt b + 1\<rparr>)"
    using assms(1,3) by (simp add: logdb_buffer_retain_def get_buf_def)
  have "put_buf h' p (b\<lparr>b_refcnt := b_refcnt b\<rparr>) = h"
    using assms(3) by (simp add: h' put_buf_def fun_upd_idem)
  moreover have "logdb_buffer_free p h' = Done (put_buf h' p (b\<lparr>b_refcnt := b_refcnt b\<rparr>))"
    using logdb_buffer_free_shared [of h' p "b\<lparr>b_refcnt := b_refcnt b + 1\<rparr>"] assms(2,4) h' by simp
  ultimately show ?thesis by simp
qed

definition drop_buf :: "heap \<Rightarrow> ptr \<Rightarrow> heap" where
  "drop_buf h p = h\<lparr>bufs := (bufs h)(p := None)\<rparr>"

lemma drop_buf_simps [simp]:
  "mem (drop_buf h p) = mem h" "bufs (drop_buf h p) = (bufs h)(p := None)"
  "txns (drop_buf h p) = txns h" "brk (drop_buf h p) = brk h"
  "disposed (drop_buf h p) = disposed h" "oom (drop_buf h p) = oom h"
  by (simp_all add: drop_buf_def)

text \<open>The last reference to a buffer that stands alone: its disposer runs and the struct is gone.\<close>

lemma logdb_buffer_free_single:
  assumes "bufs h p = Some b" "p \<noteq> 0" "b_refcnt b \<le> 1" "b_orig b = 0" "b_next b = 0"
    and "dispose (b_disposer b) (b_data b) (put_buf h p (b\<lparr>b_refcnt := b_refcnt b - 1\<rparr>)) = Done h'"
  shows "logdb_buffer_free p h = Done (drop_buf h' p)"
  using assms by (simp add: logdb_buffer_free_def fuel_of_def get_buf_def Let_def drop_buf_def)

text \<open>The data of a buffer that stands alone.\<close>

lemma buffer_data_plain:
  assumes "bufs h p = Some b" "p \<noteq> 0" "b_orig b = 0" "b_next b = 0"
  shows "logdb_buffer_data dbg p h = Done (b_data b, h)"
proof -
  have "2 * fuel_of h = Suc (2 * brk h + 1)" by (simp add: fuel_of_def)
  with assms show ?thesis by (simp add: logdb_buffer_data_def get_buf_def)
qed

section \<open>The repository's example of two buffers\<close>

definition small_heap :: heap where
  "small_heap = \<lparr>mem = (\<lambda>_. None)(1 := Some [102, 111, 111], 2 := Some [98, 97, 114]), bufs = (\<lambda>_. None),
                 txns = (\<lambda>_. None), brk = 2, oom = [], disposed = []\<rparr>"

definition two_buffers :: heap where
  "two_buffers = snd (logdb_buffer_new_direct True 2 3 None (snd (logdb_buffer_new_direct True 1 3 None small_heap)))"

lemma two_buffers_eq:
  "two_buffers = \<lparr>mem = mem small_heap,
     bufs = (\<lambda>_. None)(3 := Some \<lparr>b_data = 1, b_len = 3, b_disposer = None, b_orig = 0, b_next = 0, b_refcnt = 1\<rparr>,
                      4 := Some \<lparr>b_data = 2, b_len = 3, b_disposer = None, b_orig = 0, b_next = 0, b_refcnt = 1\<rparr>),
     txns = (\<lambda>_. None), brk = 4, oom = [], disposed = []\<rparr>"
  by (simp add: two_buffers_def small_heap_def logdb_buffer_new_direct_def h_malloc_def put_buf_def)

lemma heap_ok_two: "heap_ok two_buffers"
  by (auto simp: two_buffers_eq heap_ok_def small_heap_def split: if_splits)

lemma plain_brep:
  assumes "bufs h p = Some b" "p \<noteq> 0" "b_orig b = 0" "b_next b = 0"
    and "load_bytes h (b_data b) (unat (b_len b)) = Done xs"
  shows "brep h 1 p xs"
proof -
  have "brep h (Suc 0) p (xs @ [])"
    by (rule brep.own [of p h b]) (simp_all add: assms)
  then show ?thesis by simp
qed

lemma brep_two: "brep two_buffers 1 3 [102, 111, 111]" "brep two_buffers 1 4 [98, 97, 114]"
proof -
  show "brep two_buffers 1 3 [102, 111, 111]"
    by (rule plain_brep [of _ _ "the (bufs two_buffers 3)"])
       (simp_all add: two_buffers_eq small_heap_def load_bytes_def)
  show "brep two_buffers 1 4 [98, 97, 114]"
    by (rule plain_brep [of _ _ "the (bufs two_buffers 4)"])
       (simp_all add: two_buffers_eq small_heap_def load_bytes_def)
qed

lemma reach_plain:
  "bufs h p = Some b \<Longrightarrow> b_orig b = 0 \<Longrightarrow> b_next b = 0 \<Longrightarrow> heap_ok h \<Longrightarrow> breach h p q \<Longrightarrow> q = p"
  by (auto elim!: breach.cases [of h p q] dest: breach_null)

lemma owned_plain:
  "bufs h p = Some b \<Longrightarrow> b_orig b = 0 \<Longrightarrow> b_next b = 0 \<Longrightarrow> heap_ok h \<Longrightarrow> owned_chain h p p"
  by (auto intro!: owned_chain.last dest: breach_null)

lemma owned_two: "owned_chain two_buffers 3 3" "\<not> breach two_buffers 4 3"
  using owned_plain [OF _ _ _ heap_ok_two, of 3] reach_plain [OF _ _ _ heap_ok_two, of 4 _ 3]
  by (auto simp: two_buffers_eq)

text \<open>Each buffer appended to the other: the second append accepts the cycle.\<close>

definition cyclic_heap :: heap where
  "cyclic_heap =
     (case logdb_buffer_append True 3 4 two_buffers of
        Done (_, h) \<Rightarrow> (case logdb_buffer_append True 4 3 h of Done (_, h) \<Rightarrow> h | Fault _ \<Rightarrow> small_heap)
      | Fault _ \<Rightarrow> small_heap)"

lemma cyclic_cells:
  "map_option bview (bufs cyclic_heap 3) = Some (1, 3, 0, 5)"
  "map_option bview (bufs cyclic_heap 4) = Some (2, 3, 0, 6)"
  "map_option bview (bufs cyclic_heap 5) = Some (2, 3, 4, 0)"
  "map_option bview (bufs cyclic_heap 6) = Some (1, 3, 3, 0)"
  by code_simp+

lemma length_loop_view:
  "map_option bview (bufs h p) = Some (d, l, og, nx) \<Longrightarrow> p \<noteq> 0 \<Longrightarrow>
   buffer_length_loop (Suc n) h p len =
     obind (if og \<noteq> 0 then buffer_length_loop n h og 0 else Done l)
       (\<lambda>l. buffer_length_loop n h nx (len + l))"
  by (auto simp: get_buf_def bview_def)

lemma cyclic_length: "buffer_length_loop n cyclic_heap 3 len = Fault Diverges"
proof (induction n arbitrary: len rule: less_induct)
  case (less n)
  note step = length_loop_view [OF cyclic_cells(1)] length_loop_view [OF cyclic_cells(2)]
    length_loop_view [OF cyclic_cells(3)] length_loop_view [OF cyclic_cells(4)]
  consider "n = 0" | "n = Suc 0" | "n = Suc (Suc 0)" | "n = Suc (Suc (Suc 0))" | m where "n = Suc (Suc (Suc (Suc m)))"
    by (metis not0_implies_Suc)
  then show ?case
  proof cases
    case 5
    then show ?thesis using less by (simp add: step del: buffer_length_loop.simps(2))
  qed (simp_all add: step del: buffer_length_loop.simps(2))
qed

section \<open>Properties\<close>

text \<open>C30: For every buffer whose links end in live memory, however they are nested, the length
  recursion returns, and its result is the number of bytes the buffer denotes modulo \<open>2 ^ 32\<close>.
  The fuel of the model is enough for every such buffer.\<close>

theorem buffer_length_is_content_length:
  assumes "heap_ok h" "brep h n p xs"
  shows "logdb_buffer_length h p = Done (of_nat (length xs))"
  using assms by (rule logdb_buffer_length_correct)

theorem buffer_length_is_content_length_witness:
  "heap_ok two_buffers \<and> brep two_buffers 1 3 [102, 111, 111] \<and> logdb_buffer_length two_buffers 3 = Done 3"
  using buffer_length_is_content_length [OF heap_ok_two brep_two(1)] heap_ok_two brep_two by simp

text \<open>C18: Appending a buffer makes the first buffer denote the concatenation and leaves the contents of the
  second one alone; the joined buffer can be appended to again. The hypotheses are that the links
  of both end, that the second does not lead back to the end of the first chain, that memory
  suffices and that the lengths fit 32 bits.\<close>

theorem buffer_append_concatenates:
  assumes "heap_ok h" "plenty h" "brep h n1 b1 xs" "brep h n2 b2 ys" "b1 \<noteq> 0" "bufs h b2 = Some b"
    and "owned_chain h b1 l" "\<not> breach h b2 l" "length xs + length ys < 4294967296" "b_data b \<noteq> 0"
  shows "\<exists>h' n'. logdb_buffer_append dbg b1 b2 h = Done (b1, h') \<and> brep h' n' b1 (xs @ ys) \<and>
           brep h' n2 b2 ys \<and> heap_ok h' \<and> owned_chain h' b1 (Suc (brk h)) \<and>
           logdb_buffer_length h' b1 = Done (of_nat (length xs + length ys))"
  using logdb_buffer_append_correct [OF assms(1-9)] assms(10) by (metis length_append)

theorem buffer_append_concatenates_witness:
  "\<exists>h' n'. logdb_buffer_append True 3 4 two_buffers = Done (3, h') \<and>
     brep h' n' 3 [102, 111, 111, 98, 97, 114] \<and> logdb_buffer_length h' 3 = Done 6"
proof -
  have "bufs two_buffers 4 =
      Some \<lparr>b_data = 2, b_len = 3, b_disposer = None, b_orig = 0, b_next = 0, b_refcnt = 1\<rparr>" "plenty two_buffers"
    by (simp_all add: two_buffers_eq plenty_def)
  from buffer_append_concatenates [OF heap_ok_two this(2) brep_two _ this(1) owned_two, of True]
  show ?thesis by auto
qed


text \<open>When the allocation inside an append fails, the call still reports success by returning the first
  buffer, although no buffer struct has changed: the data of the second buffer is dropped
  silently.\<close>

lemma append_hides_allocation_failure:
  assumes "heap_ok h" "oom h = True # rest" "brep h n1 b1 xs" "brep h n2 b2 ys" "b1 \<noteq> 0"
    and "bufs h b2 = Some b" "owned_chain h b1 l" "\<not> breach h b2 l"
    and "length xs + length ys < 4294967296" "b_data b \<noteq> 0"
  shows "\<exists>h'. logdb_buffer_append dbg b1 b2 h = Done (b1, h') \<and> bufs h' = bufs h"
proof -
  have b2: "b2 \<noteq> 0" using assms(1,6) heap_ok_bound by fastforce
  have "b1 \<noteq> b2" using assms(5,7,8) owned_chain_reach by blast
  obtain bl where bl: "bufs h l = Some bl" "b_next bl = 0"
    using owned_chain_live [OF assms(7)] by blast
  have "find_last (fuel_of h) h b1 b2 = Done (Some l)"
    by (rule find_last_correct) (use assms fuel_enough in auto)
  with assms b2 \<open>b1 \<noteq> b2\<close> bl word32_room [OF assms(9)] show ?thesis
    by (auto simp: logdb_buffer_append_def logdb_buffer_length_correct logdb_buffer_copy_def
        logdb_buffer_new_direct_def h_malloc_def get_buf_def fun_upd_idem)
qed

end
