(* ===== verification/Flatten.thy ===== *)
theory Flatten
  imports Buffer
begin

text \<open>
  \<open>logdb_buffer_data\<close> of \<^verbatim>\<open>src/logdb_buffer.c\<close>: the one function that rewrites buffers. It puts the contents of a
  chain into one block and does the same with the originals it meets; nobody who holds a buffer can tell.
\<close>

section \<open>Blocks that are not shared\<close>

text \<open>
  A buffer that is not a copy refers to a block that has been handed out, and a block that has a disposer
  belongs to one such buffer; an original is not a copy itself. All functions of the interface keep it so, as a
  client hands over a block once.
\<close>

definition buffers_ok :: "heap \<Rightarrow> bool" where
  "buffers_ok h \<longleftrightarrow>
     (\<forall>p b. bufs h p = Some b \<and> b_orig b = 0 \<longrightarrow> b_data b \<le> brk h) \<and>
     (\<forall>p q b c. bufs h p = Some b \<and> bufs h q = Some c \<and> p \<noteq> q \<and> b_orig b = 0 \<and> b_orig c = 0 \<and> b_disposer b \<noteq> None \<longrightarrow>
        b_data b \<noteq> b_data c) \<and>
     (\<forall>p b c. bufs h p = Some b \<and> b_orig b \<noteq> 0 \<and> bufs h (b_orig b) = Some c \<longrightarrow> b_orig c = 0)"

lemma buffers_okD:
  assumes "buffers_ok h"
  shows "bufs h p = Some b \<Longrightarrow> b_orig b = 0 \<Longrightarrow> b_data b \<le> brk h"
    "\<lbrakk>bufs h p = Some b; bufs h q = Some c; p \<noteq> q; b_orig b = 0; b_orig c = 0; b_disposer b \<noteq> None\<rbrakk> \<Longrightarrow> b_data b \<noteq> b_data c"
    "\<lbrakk>bufs h p = Some b; b_orig b \<noteq> 0; bufs h (b_orig b) = Some c\<rbrakk> \<Longrightarrow> b_orig c = 0"
proof -
  note A = assms [unfolded buffers_ok_def]
  show "bufs h p = Some b \<Longrightarrow> b_orig b = 0 \<Longrightarrow> b_data b \<le> brk h" using A [THEN conjunct1] by blast
  show "\<lbrakk>bufs h p = Some b; bufs h q = Some c; p \<noteq> q; b_orig b = 0; b_orig c = 0; b_disposer b \<noteq> None\<rbrakk> \<Longrightarrow> b_data b \<noteq> b_data c"
    using A [THEN conjunct2, THEN conjunct1] by blast
  show "\<lbrakk>bufs h p = Some b; b_orig b \<noteq> 0; bufs h (b_orig b) = Some c\<rbrakk> \<Longrightarrow> b_orig c = 0"
    using A [THEN conjunct2, THEN conjunct2] by blast
qed

section \<open>What flattening does to the heap\<close>

text \<open>
  \<open>tidied B R h h'\<close>: every buffer denotes what it did, with chains that are no longer than before. Only buffers in
  \<open>R\<close> may have changed, and one that has changed is no copy, has no chain, and its data is in a new block,
  above \<open>B\<close>. Blocks up to \<open>B\<close> have at most been disposed of.
\<close>

definition tidied :: "nat \<Rightarrow> (ptr \<Rightarrow> bool) \<Rightarrow> heap \<Rightarrow> heap \<Rightarrow> bool" where
  "tidied B R h h' \<longleftrightarrow>
     heap_ok h' \<and> buffers_ok h' \<and> brk h \<le> brk h' \<and> txns h' = txns h \<and> (plenty h \<longrightarrow> plenty h') \<and>
     (\<forall>q m ys. brep h m q ys \<longrightarrow> (\<exists>m' \<le> m. brep h' m' q ys)) \<and>
     (\<forall>q. \<not> R q \<longrightarrow> bufs h' q = bufs h q) \<and>
     (\<forall>q b'. bufs h' q = Some b' \<longrightarrow> (\<exists>b. bufs h q = Some b \<and>
        (b' = b \<or> b_orig b = 0 \<and> b_orig b' = 0 \<and> b_next b' = 0 \<and> B < b_data b'))) \<and>
     (\<forall>a \<le> B. mem h' a = mem h a \<or> mem h' a = None)"

lemma tidiedD:
  assumes "tidied B R h h'"
  shows "heap_ok h'" "buffers_ok h'" "brk h \<le> brk h'" "txns h' = txns h" "plenty h \<Longrightarrow> plenty h'"
    "brep h m q ys \<Longrightarrow> \<exists>m' \<le> m. brep h' m' q ys" "\<not> R q \<Longrightarrow> bufs h' q = bufs h q"
    "bufs h' q = Some b' \<Longrightarrow> \<exists>b. bufs h q = Some b \<and>
       (b' = b \<or> b_orig b = 0 \<and> b_orig b' = 0 \<and> b_next b' = 0 \<and> B < b_data b')"
    "a \<le> B \<Longrightarrow> mem h' a = mem h a \<or> mem h' a = None"
proof -
  note A = assms [unfolded tidied_def]
  show "heap_ok h'" by (rule A [THEN conjunct1])
  show "buffers_ok h'" by (rule A [THEN conjunct2, THEN conjunct1])
  show "brk h \<le> brk h'" by (rule A [THEN conjunct2, THEN conjunct2, THEN conjunct1])
  show "txns h' = txns h" by (rule A [THEN conjunct2, THEN conjunct2, THEN conjunct2, THEN conjunct1])
  show "plenty h \<Longrightarrow> plenty h'" by (rule A [THEN conjunct2, THEN conjunct2, THEN conjunct2, THEN conjunct2, THEN conjunct1, rule_format])
  show "brep h m q ys \<Longrightarrow> \<exists>m' \<le> m. brep h' m' q ys" by (rule A [THEN conjunct2, THEN conjunct2, THEN conjunct2, THEN conjunct2, THEN conjunct2, THEN conjunct1, rule_format])
  show "\<not> R q \<Longrightarrow> bufs h' q = bufs h q" by (rule A [THEN conjunct2, THEN conjunct2, THEN conjunct2, THEN conjunct2, THEN conjunct2, THEN conjunct2, THEN conjunct1, rule_format])
  show "bufs h' q = Some b' \<Longrightarrow> \<exists>b. bufs h q = Some b \<and>
       (b' = b \<or> b_orig b = 0 \<and> b_orig b' = 0 \<and> b_next b' = 0 \<and> B < b_data b')" by (rule A [THEN conjunct2, THEN conjunct2, THEN conjunct2, THEN conjunct2, THEN conjunct2, THEN conjunct2, THEN conjunct2, THEN conjunct1, rule_format])
  show "a \<le> B \<Longrightarrow> mem h' a = mem h a \<or> mem h' a = None" by (rule A [THEN conjunct2, THEN conjunct2, THEN conjunct2, THEN conjunct2, THEN conjunct2, THEN conjunct2, THEN conjunct2, THEN conjunct2, rule_format])
qed

lemma tidied_refl: "heap_ok h \<Longrightarrow> buffers_ok h \<Longrightarrow> tidied B R h h"
  by (auto simp: tidied_def)

lemma tidied_mono:
  assumes "tidied B R h h'" "B' \<le> B" "\<And>q. R q \<Longrightarrow> R' q"
  shows "tidied B' R' h h'"
proof -
  note D = tidiedD [OF assms(1)]
  have "\<forall>q. \<not> R' q \<longrightarrow> bufs h' q = bufs h q" using D(7) assms(3) by blast
  moreover have "\<exists>b. bufs h q = Some b \<and> (b' = b \<or> b_orig b = 0 \<and> b_orig b' = 0 \<and> b_next b' = 0 \<and> B' < b_data b')"
    if "bufs h' q = Some b'" for q b'
    using D(8) [OF that] assms(2) by fastforce
  moreover have "\<forall>a \<le> B'. mem h' a = mem h a \<or> mem h' a = None" using D(9) assms(2) by simp
  moreover have "\<forall>q m ys. brep h m q ys \<longrightarrow> (\<exists>m' \<le> m. brep h' m' q ys)" using D(6) by blast
  ultimately show ?thesis using D(1-5) by (simp add: tidied_def)
qed

lemma tidied_trans:
  assumes "tidied B R h g" "tidied B R g k"
  shows "tidied B R h k"
  unfolding tidied_def
proof (intro conjI allI impI)
  note G = tidiedD [OF assms(1)] and K = tidiedD [OF assms(2)]
  show "heap_ok k" "buffers_ok k" "brk h \<le> brk k" "txns k = txns h" "plenty h \<Longrightarrow> plenty k"
    using G(3-5) K(1-5) by auto
  show "\<exists>m' \<le> m. brep k m' q ys" if "brep h m q ys" for q m ys
    using G(6) [OF that] K(6) by (meson order_trans)
  show "bufs k q = bufs h q" if "\<not> R q" for q using G(7) K(7) that by simp
  show "mem k a = mem h a \<or> mem k a = None" if "a \<le> B" for a using G(9) [OF that] K(9) [OF that] by auto
  show "\<exists>b. bufs h q = Some b \<and> (b' = b \<or> b_orig b = 0 \<and> b_orig b' = 0 \<and> b_next b' = 0 \<and> B < b_data b')"
    if "bufs k q = Some b'" for q b'
    using K(8) [OF that] G(8) by blast
qed

text \<open>No new ways through the heap.\<close>

lemma breach_tidied: "breach h' p q \<Longrightarrow> tidied B R h h' \<Longrightarrow> breach h p q"
proof (induction rule: breach.induct)
  case (here p)
  from here.hyps show ?case by (rule breach.here)
next
  case (via_orig p b' q)
  from tidiedD(8) [OF via_orig.prems via_orig.hyps(1)] breach_null [OF tidiedD(1) [OF via_orig.prems], of q] via_orig
  show ?case by (auto intro: breach.via_orig)
next
  case (via_next p b' q)
  from tidiedD(8) [OF via_next.prems via_next.hyps(1)] breach_null [OF tidiedD(1) [OF via_next.prems], of q] via_next
  show ?case by (auto intro: breach.via_next)
qed

text \<open>Following links goes down.\<close>

lemma brep_reach:
  "brep h n p xs \<Longrightarrow> heap_ok h \<Longrightarrow> breach h p q \<Longrightarrow> \<exists>m ys. m \<le> n \<and> brep h m q ys"
proof (induction arbitrary: q rule: brep.induct)
  case null
  then show ?case using breach_null by blast
next
  case (own p b ys n zs)
  have here: "brep h (Suc n) p (ys @ zs)" by (rule brep.own) (use own in auto)
  from own.prems(2) show ?case
  proof (cases rule: breach.cases)
    case here
    with \<open>brep h (Suc n) p (ys @ zs)\<close> show ?thesis by blast
  next
    case (via_orig b')
    then show ?thesis using own.hyps breach_null [OF own.prems(1)] by auto
  next
    case (via_next b')
    then obtain i us where "i \<le> n" "brep h i q us" using own.IH [OF own.prems(1)] own.hyps(2) by force
    then show ?thesis by (intro exI [of _ i] exI [of _ us]) simp
  qed
next
  case (ref p b m ys n zs)
  have here: "brep h (Suc (max m n)) p (ys @ zs)" by (rule brep.ref) (use ref in auto)
  from ref.prems(2) show ?case
  proof (cases rule: breach.cases)
    case here
    with \<open>brep h (Suc (max m n)) p (ys @ zs)\<close> show ?thesis by blast
  next
    case (via_orig b')
    then obtain i us where "i \<le> m" "brep h i q us" using ref.IH(1) [OF ref.prems(1)] ref.hyps(2) by force
    then show ?thesis by (intro exI [of _ i] exI [of _ us]) simp
  next
    case (via_next b')
    then obtain i us where "i \<le> n" "brep h i q us" using ref.IH(2) [OF ref.prems(1)] ref.hyps(2) by force
    then show ?thesis by (intro exI [of _ i] exI [of _ us]) simp
  qed
qed

lemma brep_no_cycle: "brep h n p xs \<Longrightarrow> brep h m r ys \<Longrightarrow> m < n \<Longrightarrow> heap_ok h \<Longrightarrow> \<not> breach h r p"
  using brep_reach [of h m r ys p] brep_det [of h n p xs] by fastforce

section \<open>Its steps\<close>

lemma malloc_tidied:
  assumes "h_malloc h = (a, g)" "heap_ok h" "buffers_ok h"
  shows "tidied B R h g" "a = 0 \<or> a = Suc (brk h) \<and> brk g = a" "plenty h \<Longrightarrow> a \<noteq> 0" "bufs g = bufs h" "mem g = mem h"
proof -
  show e: "bufs g = bufs h" "mem g = mem h" "a = 0 \<or> a = Suc (brk h) \<and> brk g = a" "plenty h \<Longrightarrow> a \<noteq> 0"
    using assms(1) by (auto simp: h_malloc_def plenty_def split: list.splits if_splits)
  have g: "brk h \<le> brk g" "txns g = txns h" "plenty h \<longrightarrow> plenty g"
    using assms(1) by (auto simp: h_malloc_def plenty_def split: list.splits if_splits)
  have "heap_ok g" using assms(2) e(1,2) g(1,2) by (fastforce simp: heap_ok_def)
  moreover have "buffers_ok g"
    unfolding buffers_ok_def e(1)
  proof (intro conjI allI impI; elim conjE)
    show "b_data b \<le> brk g" if "bufs h p = Some b" "b_orig b = 0" for p b
      using buffers_okD(1) [OF assms(3) that] g(1) by simp
  qed (use buffers_okD(2,3) [OF assms(3)] in blast)+
  moreover have "brep g m q ys" if "brep h m q ys" for m q ys
    by (rule brep_frame [OF that]) (simp_all add: same_view_def mem_kept_def e)
  ultimately show "tidied B R h g" using e g by (auto simp: tidied_def)
qed

text \<open>The end of \<open>logdb_buffer_data\<close>: the old data is disposed of and the new block takes its place.\<close>

definition flatten :: "ptr \<Rightarrow> logdb_buffer_t \<Rightarrow> ptr \<Rightarrow> 32 word \<Rightarrow> byte list \<Rightarrow> heap \<Rightarrow> heap" where
  "flatten p b newdata newlen xs h =
     put_buf (h\<lparr>mem := (mem h)(newdata := Some xs)\<rparr>) p
       (b\<lparr>b_data := newdata, b_len := newlen, b_next := 0, b_disposer := Some C_free\<rparr>)"

lemma dispose_own:
  assumes "mem h (b_data b) \<noteq> None"
  shows "\<exists>g. dispose (b_disposer b) (b_data b) h = Done g \<and> bufs g = bufs h \<and> txns g = txns h \<and> brk g = brk h \<and> oom g = oom h \<and>
    mem g = (if b_disposer b = None then mem h else (mem h)(b_data b := None)) \<or> b_data b = 0"
  using assms by (auto simp: dispose_def split: option.split)

lemma flatten_tidied:
  assumes ok: "heap_ok h" "buffers_ok h" and p: "brep h k p xs" "bufs h p = Some b" "b_orig b = 0"
    and new: "B < newdata" "newdata \<le> brk h" "mem h newdata = None"
    and unused: "\<And>q c. bufs h q = Some c \<Longrightarrow> b_orig c = 0 \<Longrightarrow> b_data c \<noteq> newdata"
    and len: "unat newlen = length xs" and R: "R p"
  shows "\<exists>g. dispose (b_disposer b) (b_data b) h = Done g \<and> tidied B R h (flatten p b newdata newlen xs g) \<and>
             load_bytes (flatten p b newdata newlen xs g) newdata (length xs) = Done xs"
proof -
  from p obtain ds where ds: "load_bytes h (b_data b) (unat (b_len b)) = Done ds" and p0: "p \<noteq> 0"
    by (cases rule: brepE [OF p(1)]) (use heap_ok_null [OF ok(1)] in auto)
  then have m: "mem h (b_data b) \<noteq> None" by (auto simp: load_bytes_def split: option.splits)
  then have d0: "b_data b \<noteq> 0" using ok(1) by (auto simp: heap_ok_def)
  obtain g where g: "dispose (b_disposer b) (b_data b) h = Done g" "bufs g = bufs h" "txns g = txns h" "brk g = brk h" "oom g = oom h"
    "mem g = (if b_disposer b = None then mem h else (mem h)(b_data b := None))"
    using dispose_own [OF m] d0 by auto
  define h' where "h' = flatten p b newdata newlen xs g"
  let ?b = "b\<lparr>b_data := newdata, b_len := newlen, b_next := 0, b_disposer := Some C_free\<rparr>"
  have h': "bufs h' = (bufs h)(p := Some ?b)" "mem h' = (mem g)(newdata := Some xs)" "txns h' = txns h" "brk h' = brk h" "oom h' = oom h"
    by (simp_all add: h'_def flatten_def g)
  have new_data: "load_bytes h' newdata (length xs) = Done xs" by (simp add: load_bytes_def h')
  have ok': "heap_ok h'" using ok(1) p(2) new by (auto simp: heap_ok_def h' g(6))
  have apart: "buffers_ok h'"
    unfolding buffers_ok_def
  proof (intro conjI allI impI; elim conjE)
    show "b_data c \<le> brk h'" if "bufs h' q = Some c" "b_orig c = 0" for q c
      using that new(2) buffers_okD(1) [OF ok(2)] by (auto simp: h' split: if_splits)
    show "b_data c \<noteq> b_data c'"
      if "bufs h' q = Some c" "bufs h' r = Some c'" "q \<noteq> r" "b_orig c = 0" "b_orig c' = 0" "b_disposer c \<noteq> None" for q r c c'
    proof (cases "q = p \<or> r = p")
      case True
      then show ?thesis using that unused [of q c] unused [of r c'] by (cases "q = p") (auto simp: h')
    next
      case False
      then show ?thesis using that buffers_okD(2) [OF ok(2), of q c r c'] by (simp add: h')
    qed
    show "b_orig c' = 0" if "bufs h' q = Some c" "b_orig c \<noteq> 0" "bufs h' (b_orig c) = Some c'" for q c c'
      using that buffers_okD(3) [OF ok(2), of q c] p(3) by (auto simp: h' split: if_splits)
  qed
  have keep: "load_bytes h' (b_data c) n = load_bytes h (b_data c) n"
    if "bufs h q = Some c" "q \<noteq> p" "b_orig c = 0" for q c n
    using that unused [of q c] buffers_okD(2) [OF ok(2) p(2) that(1) _ p(3) that(3)]
    by (auto simp: load_bytes_def h' g(6))
  have flat: "brep h' (Suc 0) p xs"
  proof -
    have "brep h' (Suc 0) p (xs @ [])"
      using p0 p(3) new_data len by (intro brep.own [of p h' ?b]) (simp_all add: h')
    then show ?thesis by simp
  qed
  have reps: "\<exists>m' \<le> m. brep h' m' q ys" if "brep h m q ys" for m q ys
    using that
  proof (induction rule: brep.induct)
    case null
    show ?case by (intro exI [of _ 0]) simp
  next
    case (own q c ys n zs)
    have "brep h (Suc n) q (ys @ zs)" by (rule brep.own) (use own in auto)
    obtain n' where n': "n' \<le> n" "brep h' n' (b_next c) zs" using own.IH by blast
    show ?case
    proof (cases "q = p")
      case True
      then have "ys @ zs = xs" using brep_det [OF p(1)] \<open>brep h (Suc n) q (ys @ zs)\<close> by blast
      then show ?thesis using flat True by (intro exI [of _ "Suc 0"]) simp
    next
      case False
      have "brep h' (Suc n') q (ys @ zs)"
        using own.hyps False n'(2) keep [OF own.hyps(2) False own.hyps(3)] by (intro brep.own [of q h' c]) (simp_all add: h')
      then show ?thesis using n'(1) by (intro exI [of _ "Suc n'"]) simp
    qed
  next
    case (ref q c m ys n zs)
    obtain m' n' where "m' \<le> m" "brep h' m' (b_orig c) ys" "n' \<le> n" "brep h' n' (b_next c) zs" using ref.IH by blast
    moreover have "q \<noteq> p" using ref.hyps(2,3) p(2,3) by auto
    ultimately have "brep h' (Suc (max m' n')) q (ys @ zs)" "Suc (max m' n') \<le> Suc (max m n)"
      using ref.hyps by (auto intro!: brep.ref [of q h' c] simp: h')
    then show ?case by blast
  qed
  have "tidied B R h h'"
    using ok' apart reps R new(1) p(2,3) by (auto simp: tidied_def h' g(6) plenty_def)
  then show ?thesis using g(1) new_data by (auto simp: h'_def)
qed


section \<open>The recursion\<close>

text \<open>The two halves of the recursion, for the fuel \<open>n\<close>.\<close>

definition data_half :: "nat \<Rightarrow> bool" where
  "data_half n \<longleftrightarrow> (\<forall>dbg h p k xs b. heap_ok h \<and> buffers_ok h \<and> brep h k p xs \<and> bufs h p = Some b \<and> b_orig b = 0 \<and>
     length xs < 4294967296 \<and> 2 * k \<le> n \<longrightarrow>
     (\<exists>d h'. buffer_data n dbg p h = Done (d, h') \<and> tidied (brk h) (breach h p) h h' \<and>
        (d \<noteq> 0 \<longrightarrow> load_bytes h' d (length xs) = Done xs) \<and> (plenty h \<longrightarrow> d \<noteq> 0)))"

definition chain_half :: "nat \<Rightarrow> bool" where
  "chain_half n \<longleftrightarrow> (\<forall>dbg h p k xs acc. heap_ok h \<and> buffers_ok h \<and> brep h k p xs \<and> length xs < 4294967296 \<and> 2 * k \<le> Suc n \<longrightarrow>
     (\<exists>r h'. copy_chain n dbg p acc h = Done (r, h') \<and> tidied (brk h) (\<lambda>q. breach h p q \<and> q \<noteq> p) h h' \<and>
        (r = None \<or> r = Some (acc @ xs)) \<and> (plenty h \<longrightarrow> r \<noteq> None)))"

lemma data_halfD:
  assumes "data_half n" "heap_ok h" "buffers_ok h" "brep h k p xs" "bufs h p = Some b" "b_orig b = 0" "length xs < 4294967296" "2 * k \<le> n"
  shows "\<exists>d h'. buffer_data n dbg p h = Done (d, h') \<and> tidied (brk h) (breach h p) h h' \<and>
    (d \<noteq> 0 \<longrightarrow> load_bytes h' d (length xs) = Done xs) \<and> (plenty h \<longrightarrow> d \<noteq> 0)"
  by (rule assms(1) [unfolded data_half_def, rule_format, of h k p xs b]) (intro conjI assms(2-))

lemma chain_halfD:
  assumes "chain_half n" "heap_ok h" "buffers_ok h" "brep h k p xs" "length xs < 4294967296" "2 * k \<le> Suc n"
  shows "\<exists>r h'. copy_chain n dbg p acc h = Done (r, h') \<and> tidied (brk h) (\<lambda>q. breach h p q \<and> q \<noteq> p) h h' \<and>
    (r = None \<or> r = Some (acc @ xs)) \<and> (plenty h \<longrightarrow> r \<noteq> None)"
  by (rule assms(1) [unfolded chain_half_def, rule_format, of h k p xs]) (intro conjI assms(2-))

lemma length_orig:
  "heap_ok h \<Longrightarrow> brep h m p ys \<Longrightarrow> length ys < 4294967296 \<Longrightarrow> \<exists>l. logdb_buffer_length h p = Done l \<and> unat l = length ys"
  by (rule exI [of _ "of_nat (length ys)"]) (simp add: logdb_buffer_length_correct unat_of_nat)

lemma data_step:
  assumes "chain_half n"
  shows "data_half (Suc n)"
  unfolding data_half_def
proof (intro allI impI; elim conjE)
  fix dbg h p k xs b
  assume ok: "heap_ok h" "buffers_ok h" and p: "brep h k p xs" "bufs h p = Some b" "b_orig b = 0"
    and len: "length xs < 4294967296" and n: "2 * k \<le> Suc n"
  let ?P = "\<lambda>d h'. buffer_data (Suc n) dbg p h = Done (d, h') \<and> tidied (brk h) (breach h p) h h' \<and>
        (d \<noteq> 0 \<longrightarrow> load_bytes h' d (length xs) = Done xs) \<and> (plenty h \<longrightarrow> d \<noteq> 0)"
  have p0: "p \<noteq> 0" using p(2) heap_ok_null [OF ok(1)] by (metis option.distinct(1))
  from p(1) have "\<exists>ds. load_bytes h (b_data b) (unat (b_len b)) = Done ds \<and> (b_next b = 0 \<longrightarrow> ds = xs)" (is "\<exists>ds. ?Q ds")
  proof (cases rule: brep.cases)
    case (own b' ys i zs)
    then have b': "b' = b" using p(2) by simp
    then have "b_next b = 0 \<longrightarrow> ys = xs" using own(2,7) by (intro impI) simp
    with own(6) [unfolded b'] show ?thesis by (intro exI conjI)
  qed (use p p0 in auto)
  then obtain ds where "?Q ds" ..
  note ds = conjunct1 [OF this] conjunct2 [OF this]
  show "\<exists>d h'. ?P d h'"
  proof (cases "b_next b = 0")
    case True
    have "b_data b \<noteq> 0" using ds(1) ok(1) by (auto simp: load_bytes_def heap_ok_def split: option.splits)
    then show ?thesis
      using True p(2,3) p0 ds load_bytes_length [OF ds(1)] tidied_refl [OF ok]
      by (intro exI [of _ "b_data b"] exI [of _ h]) (simp add: get_buf_def)
  next
    case False
    obtain newlen where nl: "logdb_buffer_length h p = Done newlen" "unat newlen = length xs"
      using length_orig [OF ok(1) p(1) len] by blast
    obtain a h1 where m: "h_malloc h = (a, h1)" by fastforce
    note M = malloc_tidied [OF m ok]
    show ?thesis
    proof (cases "a = 0")
      case True
      moreover from this have "\<not> plenty h" using M(3) by blast
      ultimately show ?thesis
        using False p(2,3) p0 nl(1) m M(1) by (intro exI [of _ 0] exI [of _ h1]) (simp add: get_buf_def)
    next
      case alloc: False
      then have a: "a = Suc (brk h)" "brk h1 = a" using M(2) by auto
      note ok1 = tidiedD(1,2) [OF M(1)]
      have p1: "brep h1 k p xs" by (rule brep_frame [OF p(1)]) (simp_all add: same_view_def mem_kept_def M(4,5))
      have reach1: "breach h1 p q \<Longrightarrow> breach h p q" for q by (rule breach_tidied [OF _ M(1)])
      obtain r h2 where c: "copy_chain n dbg p [] h1 = Done (r, h2)" "tidied (brk h1) (\<lambda>q. breach h1 p q \<and> q \<noteq> p) h1 h2"
        "r = None \<or> r = Some xs" "plenty h1 \<longrightarrow> r \<noteq> None"
        using chain_halfD [OF assms ok1 p1 len n, of dbg "[]"] by auto
      have t2: "tidied (brk h) (breach h p) h h2"
        by (rule tidied_trans [OF M(1) tidied_mono [OF c(2)]]) (use a reach1 in auto)
      show ?thesis
      proof (cases r)
        case None
        moreover from this have "\<not> plenty h" using c(4) tidiedD(5) [OF M(1)] by blast
        ultimately show ?thesis
          using False alloc p(2,3) p0 nl(1) m c(1) t2
          by (intro exI [of _ 0] exI [of _ h2]) (simp add: get_buf_def)
      next
        case (Some bs)
        then have bs: "bs = xs" using c(3) by simp
        have p2: "bufs h2 p = Some b" using tidiedD(7) [OF c(2), of p] p(2) M(4) by simp
        obtain k2 where k2: "brep h2 k2 p xs" using tidiedD(6) [OF t2 p(1)] by blast
        have new: "brk h < a" "a \<le> brk h2" using a tidiedD(3) [OF c(2)] by simp_all
        have "mem h a = None" using ok(1) a(1) by (cases "mem h a") (auto simp: heap_ok_def)
        then have none: "mem h2 a = None" using tidiedD(9) [OF c(2), of a] a(2) M(5) by auto
        have unused: "b_data d \<noteq> a" if "bufs h2 q = Some d" "b_orig d = 0" for q d
          using tidiedD(8) [OF c(2) that(1)] that(2) buffers_okD(1) [OF ok(2), of q d] M(4) a by auto
        obtain g where g: "dispose (b_disposer b) (b_data b) h2 = Done g" "tidied (brk h) (breach h p) h2 (flatten p b a newlen xs g)"
          "load_bytes (flatten p b a newlen xs g) a (length xs) = Done xs"
          using flatten_tidied [where R = "breach h p", OF tidiedD(1,2) [OF t2] k2 p2 p(3) new none _ nl(2) breach.here [OF p0]] unused
          by blast
        have "buffer_data (Suc n) dbg p h = Done (a, flatten p b a newlen xs g)"
          using False alloc p(2,3) p0 nl m c(1) p2 Some bs g(1) by (simp add: get_buf_def flatten_def)
        then show ?thesis using tidied_trans [OF t2 g(2)] g(3) alloc by blast
      qed
    qed
  qed
qed

lemma chain_step:
  assumes "data_half n" "chain_half n"
  shows "chain_half (Suc n)"
  unfolding chain_half_def
proof (intro allI impI; elim conjE)
  fix dbg h p k xs acc
  assume ok: "heap_ok h" "buffers_ok h" and p: "brep h k p xs" and len: "length xs < 4294967296" and n: "2 * k \<le> Suc (Suc n)"
  let ?P = "\<lambda>r h'. copy_chain (Suc n) dbg p acc h = Done (r, h') \<and> tidied (brk h) (\<lambda>q. breach h p q \<and> q \<noteq> p) h h' \<and>
        (r = None \<or> r = Some (acc @ xs)) \<and> (plenty h \<longrightarrow> r \<noteq> None)"
  from p show "\<exists>r h'. ?P r h'"
  proof (cases rule: brep.cases)
    case null
    then show ?thesis using tidied_refl [OF ok] by (intro exI [of _ "Some acc"] exI [of _ h]) simp
  next
    case (own b ys i zs)
    have down: "breach h p q \<and> q \<noteq> p" if "breach h (b_next b) q" for q
      using brep_no_cycle [OF p own(7) _ ok(1)] own(1,4) that breach.via_next [OF own(4)] by auto
    have len': "length zs < 4294967296" using len own by simp
    have n': "2 * i \<le> Suc n" using n own by simp
    obtain r h' where c: "copy_chain n dbg (b_next b) (acc @ ys) h = Done (r, h')"
      "tidied (brk h) (\<lambda>q. breach h (b_next b) q \<and> q \<noteq> b_next b) h h'"
      "r = None \<or> r = Some ((acc @ ys) @ zs)" "plenty h \<longrightarrow> r \<noteq> None"
      using chain_halfD [OF assms(2) ok own(7) len' n', of dbg "acc @ ys"] by blast
    have "tidied (brk h) (\<lambda>q. breach h p q \<and> q \<noteq> p) h h'"
      by (rule tidied_mono [OF c(2) order_refl]) (use down in blast)
    then show ?thesis using own c by (intro exI [of _ r] exI [of _ h']) (simp add: get_buf_def)
  next
    case (ref b m ys i zs)
    have down: "breach h p q \<and> q \<noteq> p" if "breach h (b_next b) q \<or> breach h (b_orig b) q" for q
    proof -
      have "m < k" "i < k" using ref(1) by simp_all
      then have "q \<noteq> p" using that brep_no_cycle [OF p ref(6) _ ok(1)] brep_no_cycle [OF p ref(7) _ ok(1)] by blast
      then show ?thesis using that breach.via_next [OF ref(4)] breach.via_orig [OF ref(4)] by blast
    qed
    have lens: "length ys < 4294967296" "length zs < 4294967296" using len ref by simp_all
    have ns: "2 * m \<le> n" "2 * i \<le> Suc n" using n ref by simp_all
    obtain c where c: "bufs h (b_orig b) = Some c" using brep_head_live [OF ref(6,5)] by blast
    have c0: "b_orig c = 0" by (rule buffers_okD(3) [OF ok(2) ref(4,5) c])
    obtain l where l: "logdb_buffer_length h (b_orig b) = Done l" "unat l = length ys"
      using length_orig [OF ok(1) ref(6) lens(1)] by blast
    obtain d h1 where d: "buffer_data n dbg (b_orig b) h = Done (d, h1)" "tidied (brk h) (breach h (b_orig b)) h h1"
      "d \<noteq> 0 \<longrightarrow> load_bytes h1 d (length ys) = Done ys" "plenty h \<longrightarrow> d \<noteq> 0"
      using data_halfD [OF assms(1) ok ref(6) c c0 lens(1) ns(1), of dbg] by blast
    have t1: "tidied (brk h) (\<lambda>q. breach h p q \<and> q \<noteq> p) h h1"
      by (rule tidied_mono [OF d(2) order_refl]) (use down in blast)
    have p1: "bufs h1 p = Some b" using tidiedD(7) [OF t1, of p] ref(4) by simp
    show ?thesis
    proof (cases "d = 0")
      case True
      then show ?thesis using ref l d t1 by (intro exI [of _ None] exI [of _ h1]) (simp add: get_buf_def)
    next
      case False
      obtain i' where i': "i' \<le> i" "brep h1 i' (b_next b) zs" using tidiedD(6) [OF t1 ref(7)] by blast
      have n': "2 * i' \<le> Suc n" using ns(2) i'(1) by simp
      obtain r h2 where r: "copy_chain n dbg (b_next b) (acc @ ys) h1 = Done (r, h2)"
        "tidied (brk h1) (\<lambda>q. breach h1 (b_next b) q \<and> q \<noteq> b_next b) h1 h2"
        "r = None \<or> r = Some ((acc @ ys) @ zs)" "plenty h1 \<longrightarrow> r \<noteq> None"
        using chain_halfD [OF assms(2) tidiedD(1,2) [OF t1] i'(2) lens(2) n', of dbg "acc @ ys"] by blast
      have "tidied (brk h) (\<lambda>q. breach h p q \<and> q \<noteq> p) h1 h2"
        by (rule tidied_mono [OF r(2) tidiedD(3) [OF t1]]) (use down breach_tidied [OF _ t1] in blast)
      note t2 = tidied_trans [OF t1 this]
      have "copy_chain (Suc n) dbg p acc h = Done (r, h2)"
        using False ref(3,4,5) l d(1,3) p1 r(1) by (simp add: get_buf_def)
      then show ?thesis using t2 r(3,4) ref(2) tidiedD(5) [OF t1] by auto
    qed
  qed
qed

lemma halves: "data_half n \<and> chain_half n"
proof (induction n)
  case 0
  have "p = 0" if "brep h 0 p xs" for h p xs using that by (auto elim: brep.cases)
  then have "data_half 0" using heap_ok_null unfolding data_half_def by fastforce
  moreover have "p = 0 \<and> xs = []" if "brep h k p xs" "2 * k \<le> Suc 0" for h k p xs
  proof -
    have "k = 0" using that(2) by simp
    with that(1) show ?thesis by (auto elim: brep.cases)
  qed
  then have "chain_half 0" using tidied_refl unfolding chain_half_def by fastforce
  ultimately show ?case ..
next
  case (Suc n)
  then show ?case using data_step chain_step by blast
qed

lemma buffer_data_tidies:
  assumes "heap_ok h" "buffers_ok h" "brep h k p xs" "bufs h p = Some b" "b_orig b = 0" "length xs < 4294967296"
  shows "\<exists>d h'. logdb_buffer_data dbg p h = Done (d, h') \<and> tidied (brk h) (breach h p) h h' \<and>
    (d \<noteq> 0 \<longrightarrow> load_bytes h' d (length xs) = Done xs) \<and> (plenty h \<longrightarrow> d \<noteq> 0)"
proof -
  have "2 * k \<le> 2 * fuel_of h" using fuel_enough [OF assms(1,3)] by simp
  from data_halfD [OF halves [THEN conjunct1] assms this] show ?thesis unfolding logdb_buffer_data_def .
qed


text \<open>A block that has been returned stays the data of the buffer.\<close>

lemma buffer_data_settles:
  assumes "buffer_data n dbg p h = Done (d, h')" "bufs h p = Some b" "p \<noteq> 0" "b_orig b = 0" "d \<noteq> 0"
  shows "\<exists>b'. bufs h' p = Some b' \<and> b_data b' = d \<and> b_next b' = 0"
proof (cases n)
  case (Suc m)
  show ?thesis
  proof (cases "b_next b = 0")
    case True
    with assms Suc show ?thesis by (auto simp: get_buf_def)
  next
    case False
    obtain a h1 where m: "h_malloc h = (a, h1)" by fastforce
    then obtain r h2 where c: "copy_chain m dbg p [] h1 = Done (r, h2)" "a \<noteq> 0"
      using assms Suc False by (auto simp: get_buf_def obind_eq_Done split: if_splits)
    then obtain bs where "r = Some bs"
      using assms Suc False m by (cases r) (auto simp: get_buf_def obind_eq_Done)
    then show ?thesis
      using assms Suc False m c by (auto simp: get_buf_def obind_eq_Done split: if_splits)
  qed
qed (use assms in simp)

section \<open>Property\<close>

text \<open>C28: Asking for the data of a buffer changes nothing that a holder of buffers can see. Whatever chains the
  buffer and its originals have, and whichever allocations fail, the call returns; every buffer of the heap denotes
  the bytes that it did before, and buffers that cannot be reached from this one are not touched. Unless an
  allocation has failed, the block that is returned holds the contents of the buffer, and asking again returns
  the same block and changes nothing.\<close>

theorem buffer_data_flattens:
  assumes "heap_ok h" "buffers_ok h" "brep h k p xs" "bufs h p = Some b" "b_orig b = 0" "length xs < 4294967296"
  shows "\<exists>d h'. logdb_buffer_data dbg p h = Done (d, h') \<and> heap_ok h' \<and> buffers_ok h' \<and>
    (\<forall>q m ys. brep h m q ys \<longrightarrow> (\<exists>m' \<le> m. brep h' m' q ys)) \<and> (\<forall>q. \<not> breach h p q \<longrightarrow> bufs h' q = bufs h q) \<and>
    (plenty h \<longrightarrow> d \<noteq> 0) \<and>
    (d \<noteq> 0 \<longrightarrow> load_bytes h' d (length xs) = Done xs \<and> logdb_buffer_data dbg p h' = Done (d, h'))"
proof -
  have p: "p \<noteq> 0" using assms(4) heap_ok_null [OF assms(1)] by (metis option.distinct(1))
  obtain d h' where d: "logdb_buffer_data dbg p h = Done (d, h')" "tidied (brk h) (breach h p) h h'"
    "d \<noteq> 0 \<longrightarrow> load_bytes h' d (length xs) = Done xs" "plenty h \<longrightarrow> d \<noteq> 0"
    using buffer_data_tidies [OF assms] by blast
  have "logdb_buffer_data dbg p h' = Done (d, h')" if d0: "d \<noteq> 0"
  proof -
    obtain b' where b': "bufs h' p = Some b'" "b_data b' = d" "b_next b' = 0"
      using buffer_data_settles [OF d(1) [unfolded logdb_buffer_data_def] assms(4) p assms(5) d0] by blast
    have "b_orig b' = 0" using tidiedD(8) [OF d(2) b'(1)] assms(4,5) by auto
    from buffer_data_plain [OF b'(1) p this b'(3)] show ?thesis by (simp add: b'(2))
  qed
  moreover have "\<exists>m' \<le> m. brep h' m' q ys" if "brep h m q ys" for q m ys by (rule tidiedD(6) [OF d(2) that])
  ultimately show ?thesis
    using d(1,3,4) tidiedD(1,2,7) [OF d(2)] by (intro exI [of _ d] exI [of _ h']) simp
qed

text \<open>The buffers of the repository's test: \<open>bar\<close> appended to \<open>foo\<close>.\<close>

theorem buffer_data_flattens_witness:
  "\<exists>h d h'. logdb_buffer_append True 3 4 two_buffers = Done (3, h) \<and> logdb_buffer_data True 3 h = Done (d, h') \<and>
     load_bytes h' d 6 = Done [102, 111, 111, 98, 97, 114] \<and> (\<exists>m. brep h' m 4 [98, 97, 114])"
proof -
  let ?b = "\<lparr>b_data = 2, b_len = 3, b_disposer = None, b_orig = 0, b_next = 0, b_refcnt = 1\<rparr>"
  let ?a = "\<lparr>b_data = 1, b_len = 3, b_disposer = None, b_orig = 0, b_next = 0, b_refcnt = 1\<rparr>"
  have b: "bufs two_buffers 4 = Some ?b" "plenty two_buffers" "bufs two_buffers 3 = Some ?a"
    by (simp_all add: two_buffers_eq plenty_def)
  let ?h = "appended two_buffers 3 4"
  have len: "length [102, 111, 111 :: byte] + length [98, 97, 114 :: byte] < 4294967296" by simp
  note a = logdb_buffer_append_correct [OF heap_ok_two b(2) brep_two _ b(1) owned_two len, of True]
  have run: "logdb_buffer_append True 3 4 two_buffers = Done (3, ?h)"
    using logdb_buffer_append_appended [OF heap_ok_two b(2) brep_two _ b(1) owned_two len, of True] by simp
  obtain k where k: "heap_ok ?h" "plenty ?h" "brep ?h k 3 [102, 111, 111, 98, 97, 114]" "brep ?h 1 4 [98, 97, 114]"
    using a run by auto
  have B: "bufs ?h = (\<lambda>_. None)(3 := Some (?a\<lparr>b_next := 5\<rparr>), 4 := Some (?b\<lparr>b_refcnt := 2\<rparr>),
      5 := Some \<lparr>b_data = 2, b_len = 3, b_disposer = None, b_orig = 4, b_next = 0, b_refcnt = 1\<rparr>)" "brk ?h = 5"
    by (simp_all add: appended_def two_buffers_eq fun_eq_iff)
  have "buffers_ok ?h" by (auto simp: buffers_ok_def B split: if_splits)
  from buffer_data_flattens [OF k(1) this k(3), of "?a\<lparr>b_next := 5\<rparr>" True] B(1)
  obtain d h' where d: "logdb_buffer_data True 3 ?h = Done (d, h')"
    "\<forall>q m ys. brep ?h m q ys \<longrightarrow> (\<exists>m' \<le> m. brep h' m' q ys)" "plenty ?h \<longrightarrow> d \<noteq> 0"
    "d \<noteq> 0 \<longrightarrow> load_bytes h' d (length [102, 111, 111, 98, 97, 114 :: byte]) = Done [102, 111, 111, 98, 97, 114]"
    by (simp del: fun_upd_apply) (simp, blast)
  have "load_bytes h' d 6 = Done [102, 111, 111, 98, 97, 114]"
    using d(3,4) k(2) by (simp add: eval_nat_numeral)
  moreover have "\<exists>m. brep h' m 4 [98, 97, 114]" using d(2) k(4) by blast
  ultimately show ?thesis using run d(1) by blast
qed

end
