(* ===== verification/Format.thy ===== *)
theory Format
  imports LogDB_Prelude
begin

text \<open>
  The file formats: \<^verbatim>\<open>src/logdb_internal.h\<close>, \<^verbatim>\<open>src/logdb_data.h\<close> and the structs of
  \<^verbatim>\<open>src/logdb_connection.h\<close> and \<^verbatim>\<open>src/logdb_log.h\<close> that lie in the files, with the functions
  between indices and offsets.
\<close>

section \<open>Constants\<close>

definition LOGDB_VERSION :: "16 word" where "LOGDB_VERSION = 1"
definition LOGDB_SECTION_SIZE :: int where "LOGDB_SECTION_SIZE = 65536"
definition LOGDB_MAGIC :: "byte list" where "LOGDB_MAGIC = map of_char ''LDBF''"
definition LOGDB_LOG_MAGIC :: "byte list" where "LOGDB_LOG_MAGIC = map of_char ''LDBL''"
definition LOGDB_LOG_FILE_SUFFIX :: string where "LOGDB_LOG_FILE_SUFFIX = ''-log''"
definition LOGDB_LEASE_MAX_WALK :: nat where "LOGDB_LEASE_MAX_WALK = 4"

definition sizeof_header :: nat where "sizeof_header = 6"
definition sizeof_log_header :: nat where "sizeof_log_header = 6"
definition sizeof_log_entry :: nat where "sizeof_log_entry = 2"
definition sizeof_trailer :: nat where "sizeof_trailer = 4"
definition sizeof_data_header :: nat where "sizeof_data_header = 8"
definition LOGDB_MIN_SIZE :: nat where
  "LOGDB_MIN_SIZE = sizeof_header + sizeof_log_header + sizeof_trailer"

lemmas size_defs = LOGDB_SECTION_SIZE_def sizeof_header_def sizeof_log_header_def
  sizeof_log_entry_def sizeof_trailer_def sizeof_data_header_def LOGDB_MIN_SIZE_def
  LOGDB_LEASE_MAX_WALK_def

section \<open>Structs\<close>

text \<open>The header at the start of the database and of the log: a magic cookie and a version.\<close>

definition logdb_header :: "byte list" where
  "logdb_header = LOGDB_MAGIC @ le16 LOGDB_VERSION"

definition logdb_log_header :: "byte list" where
  "logdb_log_header = LOGDB_LOG_MAGIC @ le16 LOGDB_VERSION"

text \<open>The test of a header that has been read: both fields are compared.\<close>

definition valid_header :: "byte list \<Rightarrow> byte list \<Rightarrow> bool" where
  "valid_header magic h \<longleftrightarrow> take 4 h = magic \<and> of_le16 (drop 4 h) = LOGDB_VERSION"

text \<open>The header of a record: the lengths of key and value.\<close>

record logdb_data_header_t =
  keylen :: "32 word"
  valuelen :: "32 word"

definition encode_data_header :: "logdb_data_header_t \<Rightarrow> byte list" where
  "encode_data_header r = le32 (keylen r) @ le32 (valuelen r)"

definition decode_data_header :: "byte list \<Rightarrow> logdb_data_header_t" where
  "decode_data_header bs = \<lparr>keylen = of_le32 bs, valuelen = of_le32 (drop 4 bs)\<rparr>"

section \<open>Offsets\<close>

text \<open>
  The offset of a section in the database. The product of the 32-bit index and the \<open>int\<close> constant
  is computed in 32 bits; only the addition of the header is wider.
\<close>

definition logdb_connection_offset :: "32 word \<Rightarrow> int" where
  "logdb_connection_offset index =
     int sizeof_header + uint (index * of_int LOGDB_SECTION_SIZE)"

text \<open>The offset of an entry in the log; here \<open>sizeof\<close> makes the product 64 bits wide.\<close>

definition logdb_log_offset :: "32 word \<Rightarrow> int" where
  "logdb_log_offset index = int sizeof_log_header + uint index * int sizeof_log_entry"

text \<open>
  The comparison with \<open>sizeof\<close> converts the signed offset to an unsigned 64-bit value, and the
  result is cut to 32 bits.
\<close>

definition logdb_log_index_from_offset :: "int \<Rightarrow> 32 word" where
  "logdb_log_index_from_offset offset =
     (let u = offset mod 2 ^ 64
      in if u < int sizeof_log_header then 0
         else word_of_int ((u - int sizeof_log_header) div int sizeof_log_entry))"

section \<open>Lemmas\<close>

lemma length_magic [simp]: "length LOGDB_MAGIC = 4" "length LOGDB_LOG_MAGIC = 4"
  by (simp_all add: LOGDB_MAGIC_def LOGDB_LOG_MAGIC_def)

lemma length_headers [simp]: "length logdb_header = 6" "length logdb_log_header = 6"
  by (simp_all add: logdb_header_def logdb_log_header_def)

lemma valid_own_header [simp]:
  "valid_header LOGDB_MAGIC logdb_header" "valid_header LOGDB_LOG_MAGIC logdb_log_header"
  by (simp_all add: valid_header_def logdb_header_def logdb_log_header_def)

lemma valid_header_unique:
  assumes "length h = 6" "valid_header m h"
  shows "h = m @ le16 LOGDB_VERSION"
proof -
  have "le16 (of_le16 (drop 4 h)) = drop 4 h"
    using assms(1) by (simp add: le16_of_le16)
  then have "h = take 4 h @ le16 (of_le16 (drop 4 h))" by simp
  with assms(2) show ?thesis by (simp add: valid_header_def)
qed

lemma length_encode_data_header [simp]: "length (encode_data_header r) = 8"
  by (simp add: encode_data_header_def)

lemma decode_encode_data_header [simp]: "decode_data_header (encode_data_header r @ bs) = r"
  by (simp add: decode_data_header_def encode_data_header_def)

lemma decode_encode_data_header' [simp]: "decode_data_header (encode_data_header r) = r"
  using decode_encode_data_header [of r "[]"] by simp

lemma encode_decode_data_header:
  assumes "length bs = 8"
  shows "encode_data_header (decode_data_header bs) = bs"
proof -
  have "le32 (of_le32 (take 4 bs)) = take 4 bs" "le32 (of_le32 (drop 4 bs)) = drop 4 bs"
    using assms by (simp_all add: le32_of_le32)
  moreover have "of_le32 (take 4 bs) = of_le32 bs" by (simp add: of_le32_def)
  ultimately show ?thesis
    by (simp add: encode_data_header_def decode_data_header_def)
qed

lemma log_offset_nat: "nat (logdb_log_offset i) = 6 + 2 * unat i"
  by (simp add: logdb_log_offset_def size_defs nat_add_distrib nat_mult_distrib)

lemma log_offset_ge: "6 \<le> logdb_log_offset i"
  by (simp add: logdb_log_offset_def size_defs)

lemma connection_offset_ge: "6 \<le> logdb_connection_offset i"
  by (simp add: logdb_connection_offset_def size_defs)

lemma connection_offset_nat:
  assumes "unat i < 65536"
  shows "nat (logdb_connection_offset i) = 6 + 65536 * unat i"
proof -
  have "unat (i * 65536 :: 32 word) = unat i * 65536"
    using assms by (simp add: unat_mult_lem [THEN iffD1])
  then have "uint (i * 65536 :: 32 word) = int (unat i) * 65536"
    by (metis of_nat_mult of_nat_numeral uint_nat)
  then show ?thesis
    by (simp add: logdb_connection_offset_def size_defs nat_add_distrib nat_mult_distrib)
qed

lemma index_from_offset_nat:
  assumes "6 \<le> n" "n < 8589934598"
  shows "unat (logdb_log_index_from_offset (int n)) = (n - 6) div 2"
proof -
  have "int n mod 2 ^ 64 = int n" using assms(2) by simp
  moreover have "(int n - 6) div 2 = int ((n - 6) div 2)" using assms(1) by (simp add: zdiv_int of_nat_diff)
  moreover have "(n - 6) div 2 < 2 ^ 32" using assms(2) by simp
  ultimately show ?thesis
    using assms(1) by (simp add: logdb_log_index_from_offset_def size_defs unat_of_nat)
qed

lemma index_of_log_offset: "logdb_log_index_from_offset (logdb_log_offset i) = i"
proof -
  have "unat i < 4294967296" by (rule unat_32_less)
  then have "unat (logdb_log_index_from_offset (int (6 + 2 * unat i))) = unat i"
    by (subst index_from_offset_nat) simp_all
  moreover have "logdb_log_offset i = int (6 + 2 * unat i)"
    using log_offset_nat [of i] log_offset_ge [of i] by linarith
  ultimately show ?thesis by (simp add: unsigned_word_eqI)
qed

text \<open>Adding 65536 to an index does not change the 32-bit product.\<close>

lemma connection_offset_wraps: "logdb_connection_offset (i + 65536) = logdb_connection_offset i"
proof -
  have "(i + 65536) * 65536 = i * (65536 :: 32 word) + 65536 * 65536"
    by (rule distrib_right)
  moreover have "65536 * 65536 = (0 :: 32 word)" by (simp add: word_eq_iff_unsigned)
  ultimately have "(i + 65536) * 65536 = i * (65536 :: 32 word)" by simp
  then show ?thesis
    by (simp only: logdb_connection_offset_def LOGDB_SECTION_SIZE_def of_int_numeral)
qed

section \<open>Properties\<close>


text \<open>The sections of two different indices below 65536 do not overlap in the database file, and none
  overlaps the header of the file.\<close>

lemma sections_are_disjoint:
  assumes "unat i < 65536" "unat j < 65536" "i \<noteq> j" "0 \<le> a" "a < LOGDB_SECTION_SIZE" "0 \<le> b" "b < LOGDB_SECTION_SIZE"
  shows "logdb_connection_offset i + a \<noteq> logdb_connection_offset j + b \<and>
         int sizeof_header \<le> logdb_connection_offset i + a"
proof -
  have off: "unat k < 65536 \<Longrightarrow> logdb_connection_offset k = 6 + 65536 * int (unat k)" for k
    using connection_offset_nat [of k] connection_offset_ge [of k] by linarith
  have "unat i \<noteq> unat j" using assms(3) by (auto dest: unsigned_word_eqI)
  then have "unat i < unat j \<or> unat j < unat i" by linarith
  then have "6 + 65536 * int (unat i) + a \<noteq> 6 + 65536 * int (unat j) + b"
    using assms(4-7) unfolding LOGDB_SECTION_SIZE_def by linarith
  with off [OF assms(1)] off [OF assms(2)] assms(4) show ?thesis by (simp add: size_defs)
qed

text \<open>The product of index and section size is cut to 32 bits: the section of index \<open>i + 65536\<close> lies on
  the section of index \<open>i\<close>. A database that grows past 4 GiB overwrites its first sections.\<close>

lemma sections_wrap_at_4GiB:
  "logdb_connection_offset (i + 65536) = logdb_connection_offset i \<and>
   logdb_log_offset 65536 \<noteq> logdb_log_offset 0"
  by (simp add: connection_offset_wraps logdb_log_offset_def size_defs)

end
