(* ===== verification/Kernel.thy ===== *)
theory Kernel
  imports LogDB_Prelude
begin

text \<open>
  The POSIX services the program calls, as functions on a state of the operating system as one
  process sees it: a directory, inodes with their bytes, open file descriptors, \<open>fcntl\<close> record
  locks and \<open>flock\<close> locks. Failures and short transfers come from a schedule: each fallible
  system call takes the next event, and an exhausted schedule means that nothing goes wrong. A
  theorem for every schedule is a theorem about every pattern of failures.
\<close>

section \<open>State\<close>

datatype io_event = Full | Short nat | Fail

datatype lock_mode = L_None | L_Shared | L_Exclusive

text \<open>The modes are ordered by what they exclude.\<close>

instantiation lock_mode :: linorder
begin

definition less_eq_lock_mode :: "lock_mode \<Rightarrow> lock_mode \<Rightarrow> bool" where
  "less_eq_lock_mode a b = (a = L_None \<or> b = L_Exclusive \<or> a = b)"

definition less_lock_mode :: "lock_mode \<Rightarrow> lock_mode \<Rightarrow> bool" where
  "less_lock_mode a b = (a \<le> b \<and> \<not> b \<le> (a :: lock_mode))"

instance
proof
  fix a b c :: lock_mode
  show "(a < b) = (a \<le> b \<and> \<not> b \<le> a)" by (rule less_lock_mode_def)
  show "a \<le> a" by (simp add: less_eq_lock_mode_def)
  show "a \<le> b \<Longrightarrow> b \<le> c \<Longrightarrow> a \<le> c" by (auto simp: less_eq_lock_mode_def)
  show "a \<le> b \<Longrightarrow> b \<le> a \<Longrightarrow> a = b" by (auto simp: less_eq_lock_mode_def)
  show "a \<le> b \<or> b \<le> a" by (cases a; cases b) (simp_all add: less_eq_lock_mode_def)
qed

end

record fdesc =
  f_ino :: nat
  f_pos :: nat
  f_append :: bool

text \<open>A region locked by another process; length 0 reaches to the end of the file.\<close>

record region =
  r_ino :: nat
  r_start :: nat
  r_len :: nat
  r_mode :: lock_mode

record os =
  dir :: "string \<Rightarrow> nat option"
  inode :: "nat \<Rightarrow> byte list"
  next_ino :: nat
  fds :: "int \<Rightarrow> fdesc option"
  next_fd :: int
  sched :: "io_event list"
  stack_junk :: int              \<comment> \<open>what an uninitialised local variable holds\<close>
  my_locks :: "nat \<Rightarrow> nat \<Rightarrow> lock_mode"   \<comment> \<open>record locks of this process, by inode and byte\<close>
  other_locks :: "region list"
  my_flock :: "int \<Rightarrow> lock_mode"
  other_flock :: "nat \<Rightarrow> lock_mode"
  pwrite_appends :: bool         \<comment> \<open>\<open>pwrite\<close> ignores the offset under \<open>O_APPEND\<close>\<close>
  test_env :: bool               \<comment> \<open>\<open>LOGDB_TEST_LOG_CREATE_RETURN_EARLY\<close> is set\<close>

definition pop :: "os \<Rightarrow> io_event \<times> os" where
  "pop s = (case sched s of [] \<Rightarrow> (Full, s) | e # es \<Rightarrow> (e, s\<lparr>sched := es\<rparr>))"

definition file_of :: "os \<Rightarrow> int \<Rightarrow> byte list" where
  "file_of s fd = (case fds s fd of None \<Rightarrow> [] | Some f \<Rightarrow> inode s (f_ino f))"

section \<open>Transfers\<close>

text \<open>
  A short read of a regular file delivers at least one byte unless it is at the end of the
  file; a write may also store none.
\<close>

definition rd_chunk :: "io_event \<Rightarrow> nat \<Rightarrow> nat" where
  "rd_chunk ev sz = (case ev of Short n \<Rightarrow> min sz (max 1 n) | _ \<Rightarrow> sz)"

definition wr_chunk :: "io_event \<Rightarrow> nat \<Rightarrow> nat" where
  "wr_chunk ev sz = (case ev of Short n \<Rightarrow> min sz n | _ \<Rightarrow> sz)"

definition set_file :: "os \<Rightarrow> nat \<Rightarrow> byte list \<Rightarrow> os" where
  "set_file s i bs = s\<lparr>inode := (inode s)(i := bs)\<rparr>"

definition set_pos :: "os \<Rightarrow> int \<Rightarrow> nat \<Rightarrow> os" where
  "set_pos s fd p =
     (case fds s fd of None \<Rightarrow> s | Some f \<Rightarrow> s\<lparr>fds := (fds s)(fd := Some (f\<lparr>f_pos := p\<rparr>))\<rparr>)"

definition sys_pread :: "int \<Rightarrow> nat \<Rightarrow> int \<Rightarrow> os \<Rightarrow> int \<times> byte list \<times> os" where
  "sys_pread fd sz offs s =
     (let (ev, s) = pop s in
      case fds s fd of
        None \<Rightarrow> (-1, [], s)
      | Some f \<Rightarrow>
          if ev = Fail \<or> offs < 0 then (-1, [], s)
          else let bs = seg (inode s (f_ino f)) (nat offs) (rd_chunk ev sz)
               in (int (length bs), bs, s))"

definition sys_pwrite :: "int \<Rightarrow> byte list \<Rightarrow> int \<Rightarrow> os \<Rightarrow> int \<times> os" where
  "sys_pwrite fd bs offs s =
     (let (ev, s) = pop s in
      case fds s fd of
        None \<Rightarrow> (-1, s)
      | Some f \<Rightarrow>
          if ev = Fail \<or> offs < 0 then (-1, s)
          else let n = wr_chunk ev (length bs); file = inode s (f_ino f);
                   pos = (if f_append f \<and> pwrite_appends s then length file else nat offs)
               in (int n, set_file s (f_ino f) (write_at file pos (take n bs))))"

definition sys_read :: "int \<Rightarrow> nat \<Rightarrow> os \<Rightarrow> int \<times> byte list \<times> os" where
  "sys_read fd sz s =
     (let (ev, s) = pop s in
      case fds s fd of
        None \<Rightarrow> (-1, [], s)
      | Some f \<Rightarrow>
          if ev = Fail then (-1, [], s)
          else let bs = seg (inode s (f_ino f)) (f_pos f) (rd_chunk ev sz)
               in (int (length bs), bs, set_pos s fd (f_pos f + length bs)))"

definition sys_write :: "int \<Rightarrow> byte list \<Rightarrow> os \<Rightarrow> int \<times> os" where
  "sys_write fd bs s =
     (let (ev, s) = pop s in
      case fds s fd of
        None \<Rightarrow> (-1, s)
      | Some f \<Rightarrow>
          if ev = Fail then (-1, s)
          else let n = wr_chunk ev (length bs); file = inode s (f_ino f);
                   pos = (if f_append f then length file else f_pos f)
               in (int n, set_pos (set_file s (f_ino f) (write_at file pos (take n bs))) fd (pos + n)))"

datatype whence = SEEK_SET | SEEK_CUR | SEEK_END

definition sys_lseek :: "int \<Rightarrow> int \<Rightarrow> whence \<Rightarrow> os \<Rightarrow> int \<times> os" where
  "sys_lseek fd offs wh s =
     (case fds s fd of
        None \<Rightarrow> (-1, s)
      | Some f \<Rightarrow>
          let base = (case wh of SEEK_SET \<Rightarrow> 0 | SEEK_CUR \<Rightarrow> int (f_pos f)
                                | SEEK_END \<Rightarrow> int (length (inode s (f_ino f))));
              p = base + offs
          in if p < 0 then (-1, s) else (p, set_pos s fd (nat p)))"

definition sys_ftruncate :: "int \<Rightarrow> int \<Rightarrow> os \<Rightarrow> int \<times> os" where
  "sys_ftruncate fd len s =
     (let (ev, s) = pop s in
      case fds s fd of
        None \<Rightarrow> (-1, s)
      | Some f \<Rightarrow>
          if ev = Fail \<or> len < 0 then (-1, s)
          else let file = inode s (f_ino f)
               in (0, set_file s (f_ino f) (take (nat len) file @ replicate (nat len - length file) 0)))"

definition sys_fsync :: "int \<Rightarrow> os \<Rightarrow> int \<times> os" where
  "sys_fsync fd s =
     (let (ev, s) = pop s in if ev = Fail \<or> fds s fd = None then (-1, s) else (0, s))"

section \<open>Names and descriptors\<close>

text \<open>The flags of \<open>open\<close> besides \<open>O_RDWR\<close>.\<close>

record oflags =
  o_creat :: bool
  o_excl :: bool
  o_append :: bool

definition sys_open :: "string \<Rightarrow> oflags \<Rightarrow> os \<Rightarrow> int \<times> os" where
  "sys_open path fl s =
     (let (ev, s) = pop s in
      if ev = Fail then (-1, s)
      else case dir s path of
        Some i \<Rightarrow>
          if o_creat fl \<and> o_excl fl then (-1, s)
          else (next_fd s, s\<lparr>fds := (fds s)(next_fd s := Some \<lparr>f_ino = i, f_pos = 0, f_append = o_append fl\<rparr>),
                             next_fd := next_fd s + 1\<rparr>)
      | None \<Rightarrow>
          if o_creat fl
          then (next_fd s, s\<lparr>fds := (fds s)(next_fd s := Some \<lparr>f_ino = next_ino s, f_pos = 0, f_append = o_append fl\<rparr>),
                             next_fd := next_fd s + 1,
                             dir := (dir s)(path := Some (next_ino s)),
                             inode := (inode s)(next_ino s := []),
                             next_ino := next_ino s + 1\<rparr>)
          else (-1, s))"

text \<open>Closing a descriptor gives up every record lock of the process on that file.\<close>

definition sys_close :: "int \<Rightarrow> os \<Rightarrow> os" where
  "sys_close fd s =
     (case fds s fd of
        None \<Rightarrow> s
      | Some f \<Rightarrow> s\<lparr>fds := (fds s)(fd := None), my_flock := (my_flock s)(fd := L_None),
                     my_locks := (my_locks s)(f_ino f := (\<lambda>_. L_None))\<rparr>)"

definition sys_unlink :: "string \<Rightarrow> os \<Rightarrow> int \<times> os" where
  "sys_unlink path s =
     (let (ev, s) = pop s in
      if ev = Fail \<or> dir s path = None then (-1, s)
      else (0, s\<lparr>dir := (dir s)(path := None)\<rparr>))"

text \<open>\<open>realpath\<close> of a path that is already canonical; it may fail.\<close>

definition sys_realpath :: "string \<Rightarrow> os \<Rightarrow> string option \<times> os" where
  "sys_realpath path s =
     (let (ev, s) = pop s in
      if ev = Fail \<or> dir s path = None then (None, s) else (Some path, s))"

text \<open>\<open>malloc\<close> and \<open>calloc\<close> of blocks whose address plays no role.\<close>

definition sys_malloc :: "os \<Rightarrow> bool \<times> os" where
  "sys_malloc s = (let (ev, s) = pop s in (ev \<noteq> Fail, s))"

text \<open>Calls of the thread library that may report an error.\<close>

definition sys_pthread :: "os \<Rightarrow> bool \<times> os" where
  "sys_pthread s = (let (ev, s) = pop s in (ev \<noteq> Fail, s))"

section \<open>Locks\<close>

definition overlaps :: "region \<Rightarrow> nat \<Rightarrow> nat \<Rightarrow> nat \<Rightarrow> bool" where
  "overlaps r i start len =
     (r_ino r = i \<and> (len = 0 \<or> r_start r < start + len) \<and> (r_len r = 0 \<or> start < r_start r + r_len r))"

definition conflicts :: "region \<Rightarrow> lock_mode \<Rightarrow> bool" where
  "conflicts r m = ((r_mode r = L_Exclusive \<and> m \<noteq> L_None) \<or> (r_mode r = L_Shared \<and> m = L_Exclusive))"

text \<open>Every lock conflicts with an exclusive one.\<close>

lemma conflicts_exclusive: "conflicts r L_Exclusive \<longleftrightarrow> L_Shared \<le> r_mode r"
  by (cases "r_mode r") (simp_all add: conflicts_def less_eq_lock_mode_def)

definition fcntl_conflict :: "os \<Rightarrow> nat \<Rightarrow> lock_mode \<Rightarrow> nat \<Rightarrow> nat \<Rightarrow> bool" where
  "fcntl_conflict s i m start len =
     list_ex (\<lambda>r. overlaps r i start len \<and> conflicts r m) (other_locks s)"

definition set_locks :: "os \<Rightarrow> nat \<Rightarrow> lock_mode \<Rightarrow> nat \<Rightarrow> nat \<Rightarrow> os" where
  "set_locks s i m start len =
     s\<lparr>my_locks := (my_locks s)(i := (\<lambda>b. if start \<le> b \<and> (len = 0 \<or> b < start + len) then m
                                          else my_locks s i b))\<rparr>"

definition sys_fcntl_setlk :: "int \<Rightarrow> lock_mode \<Rightarrow> int \<Rightarrow> nat \<Rightarrow> os \<Rightarrow> int \<times> os" where
  "sys_fcntl_setlk fd m start len s =
     (let (ev, s) = pop s in
      case fds s fd of
        None \<Rightarrow> (-1, s)
      | Some f \<Rightarrow>
          if ev = Fail \<or> start < 0 \<or> fcntl_conflict s (f_ino f) m (nat start) len then (-1, s)
          else (0, set_locks s (f_ino f) m (nat start) len))"

definition sys_fcntl_setlkw :: "int \<Rightarrow> lock_mode \<Rightarrow> int \<Rightarrow> nat \<Rightarrow> os \<Rightarrow> (int \<times> os) outcome" where
  "sys_fcntl_setlkw fd m start len s =
     (let (ev, s) = pop s in
      case fds s fd of
        None \<Rightarrow> Done (-1, s)
      | Some f \<Rightarrow>
          if ev = Fail \<or> start < 0 then Done (-1, s)
          else if fcntl_conflict s (f_ino f) m (nat start) len then Fault Blocked
          else Done (0, set_locks s (f_ino f) m (nat start) len))"

text \<open>\<open>flock\<close> with \<open>LOCK_EX | LOCK_NB\<close>, with \<open>LOCK_SH\<close> and with \<open>LOCK_UN\<close>.\<close>

definition sys_flock_ex_nb :: "int \<Rightarrow> os \<Rightarrow> int \<times> os" where
  "sys_flock_ex_nb fd s =
     (let (ev, s) = pop s in
      case fds s fd of
        None \<Rightarrow> (-1, s)
      | Some f \<Rightarrow>
          if ev = Fail \<or> other_flock s (f_ino f) \<noteq> L_None then (-1, s)
          else (0, s\<lparr>my_flock := (my_flock s)(fd := L_Exclusive)\<rparr>))"

definition sys_flock_sh :: "int \<Rightarrow> os \<Rightarrow> (int \<times> os) outcome" where
  "sys_flock_sh fd s =
     (let (ev, s) = pop s in
      case fds s fd of
        None \<Rightarrow> Done (-1, s)
      | Some f \<Rightarrow>
          if ev = Fail then Done (-1, s)
          else if other_flock s (f_ino f) = L_Exclusive then Fault Blocked
          else Done (0, s\<lparr>my_flock := (my_flock s)(fd := L_Shared)\<rparr>))"

definition sys_flock_un :: "int \<Rightarrow> os \<Rightarrow> os" where
  "sys_flock_un fd s = s\<lparr>my_flock := (my_flock s)(fd := L_None)\<rparr>"

lemmas sys_defs [kernel_defs] =
  sys_pread_def sys_pwrite_def sys_read_def sys_write_def sys_lseek_def sys_ftruncate_def
  sys_fsync_def sys_open_def sys_close_def sys_unlink_def sys_realpath_def sys_malloc_def sys_pthread_def
  sys_fcntl_setlk_def sys_fcntl_setlkw_def sys_flock_ex_nb_def sys_flock_sh_def sys_flock_un_def

section \<open>Schedules without failures\<close>

definition quiet :: "os \<Rightarrow> bool" where
  "quiet s = list_all (\<lambda>e. e \<noteq> Fail \<and> e \<noteq> Short 0) (sched s)"

definition popped :: "os \<Rightarrow> os" where
  "popped s = s\<lparr>sched := tl (sched s)\<rparr>"

definition event :: "os \<Rightarrow> io_event" where
  "event s = (case sched s of [] \<Rightarrow> Full | e # _ \<Rightarrow> e)"

lemma pop_eq: "pop s = (event s, popped s)"
  by (cases "sched s") (simp_all add: pop_def event_def popped_def)

lemma popped_simps [simp]:
  "dir (popped s) = dir s" "inode (popped s) = inode s" "next_ino (popped s) = next_ino s"
  "fds (popped s) = fds s" "next_fd (popped s) = next_fd s" "stack_junk (popped s) = stack_junk s"
  "my_locks (popped s) = my_locks s" "other_locks (popped s) = other_locks s"
  "my_flock (popped s) = my_flock s" "other_flock (popped s) = other_flock s"
  "pwrite_appends (popped s) = pwrite_appends s" "test_env (popped s) = test_env s"
  "sched (popped s) = tl (sched s)"
  by (simp_all add: popped_def)

lemma quiet_popped [simp]: "quiet s \<Longrightarrow> quiet (popped s)"
  by (cases "sched s") (simp_all add: quiet_def)

lemma quiet_event: "quiet s \<Longrightarrow> event s \<noteq> Fail \<and> event s \<noteq> Short 0"
  by (cases "sched s") (simp_all add: quiet_def event_def)

lemma rd_chunk_le: "rd_chunk ev sz \<le> sz"
  by (cases ev) (simp_all add: rd_chunk_def)

lemma rd_chunk_pos: "0 < sz \<Longrightarrow> 0 < rd_chunk ev sz"
  by (cases ev) (simp_all add: rd_chunk_def)

lemma wr_chunk_le: "wr_chunk ev sz \<le> sz"
  by (cases ev) (simp_all add: wr_chunk_def)

lemma wr_chunk_pos: "0 < sz \<Longrightarrow> ev \<noteq> Short 0 \<Longrightarrow> 0 < wr_chunk ev sz"
  by (cases ev) (auto simp: wr_chunk_def)

lemma set_pos_simps [simp]:
  "dir (set_pos s fd p) = dir s" "inode (set_pos s fd p) = inode s"
  "next_ino (set_pos s fd p) = next_ino s" "next_fd (set_pos s fd p) = next_fd s"
  "sched (set_pos s fd p) = sched s" "stack_junk (set_pos s fd p) = stack_junk s"
  "my_locks (set_pos s fd p) = my_locks s" "other_locks (set_pos s fd p) = other_locks s"
  "my_flock (set_pos s fd p) = my_flock s" "other_flock (set_pos s fd p) = other_flock s"
  "pwrite_appends (set_pos s fd p) = pwrite_appends s" "test_env (set_pos s fd p) = test_env s"
  by (simp_all add: set_pos_def split: option.split)

lemma set_file_simps [simp]:
  "dir (set_file s i b) = dir s" "inode (set_file s i b) = (inode s)(i := b)"
  "next_ino (set_file s i b) = next_ino s" "next_fd (set_file s i b) = next_fd s"
  "fds (set_file s i b) = fds s"
  "sched (set_file s i b) = sched s" "stack_junk (set_file s i b) = stack_junk s"
  "my_locks (set_file s i b) = my_locks s" "other_locks (set_file s i b) = other_locks s"
  "my_flock (set_file s i b) = my_flock s" "other_flock (set_file s i b) = other_flock s"
  "pwrite_appends (set_file s i b) = pwrite_appends s" "test_env (set_file s i b) = test_env s"
  by (simp_all add: set_file_def)

lemma set_locks_simps [simp]:
  "dir (set_locks s i m a n) = dir s" "inode (set_locks s i m a n) = inode s"
  "next_ino (set_locks s i m a n) = next_ino s" "next_fd (set_locks s i m a n) = next_fd s"
  "fds (set_locks s i m a n) = fds s"
  "sched (set_locks s i m a n) = sched s" "stack_junk (set_locks s i m a n) = stack_junk s"
  "other_locks (set_locks s i m a n) = other_locks s"
  "my_flock (set_locks s i m a n) = my_flock s" "other_flock (set_locks s i m a n) = other_flock s"
  "pwrite_appends (set_locks s i m a n) = pwrite_appends s" "test_env (set_locks s i m a n) = test_env s"
  by (simp_all add: set_locks_def)

lemma quiet_frame [simp]:
  "quiet (set_pos s fd p) = quiet s" "quiet (set_file s i b) = quiet s"
  "quiet (set_locks s i m a n) = quiet s"
  by (simp_all add: quiet_def)

lemma fds_set_pos:
  "fds (set_pos s fd p) = (case fds s fd of None \<Rightarrow> fds s | Some f \<Rightarrow> (fds s)(fd := Some (f\<lparr>f_pos := p\<rparr>)))"
  by (simp add: set_pos_def split: option.split)

end
