(* ===== verification/IO.thy ===== *)
theory IO
  imports Kernel
begin

text \<open>
  \<^verbatim>\<open>src/logdb_io.c\<close>: the four loops that turn the short transfers of \<open>read\<close>, \<open>write\<close>, \<open>pread\<close> and
  \<open>pwrite\<close> into whole ones. A loop function carries the C variables: \<open>bytes\<close> (the result of the
  last system call, whatever the stack held before the first one), \<open>sz\<close>, \<open>offs\<close>, and the bytes
  stored through \<open>ix\<close> so far. Each iteration of a loop transfers at least one byte, which is what
  its termination rests on.
\<close>

section \<open>The loops\<close>

function io_read_loop :: "int \<Rightarrow> nat \<Rightarrow> int \<Rightarrow> byte list \<Rightarrow> os \<Rightarrow> int \<times> nat \<times> byte list \<times> os" where
  "io_read_loop fd sz bytes ix s =
     (if sz > 0 then
        (case sys_read fd sz s of (b, got, s') \<Rightarrow>
           if b > 0 then io_read_loop fd (sz - nat b) b (ix @ got) s' else (b, sz, ix, s'))
      else (bytes, sz, ix, s))"
  by pat_completeness auto
termination
  by (relation "measure (\<lambda>(fd, sz, _). sz)") auto

function io_write_loop :: "int \<Rightarrow> byte list \<Rightarrow> os \<Rightarrow> nat \<times> os" where
  "io_write_loop fd buf s =
     (if length buf > 0 then
        (case sys_write fd buf s of (b, s') \<Rightarrow>
           if b > 0 then io_write_loop fd (drop (nat b) buf) s' else (length buf, s'))
      else (length buf, s))"
  by pat_completeness auto
termination
  by (relation "measure (\<lambda>(fd, buf, _). length buf)") auto

function io_pread_loop :: "int \<Rightarrow> nat \<Rightarrow> int \<Rightarrow> int \<Rightarrow> byte list \<Rightarrow> os \<Rightarrow> int \<times> nat \<times> byte list \<times> os" where
  "io_pread_loop fd sz offs bytes ix s =
     (if sz > 0 then
        (case sys_pread fd sz offs s of (b, got, s') \<Rightarrow>
           if b > 0 then io_pread_loop fd (sz - nat b) (offs + b) b (ix @ got) s' else (b, sz, ix, s'))
      else (bytes, sz, ix, s))"
  by pat_completeness auto
termination
  by (relation "measure (\<lambda>(fd, sz, _). sz)") auto

function io_pwrite_loop :: "int \<Rightarrow> byte list \<Rightarrow> int \<Rightarrow> os \<Rightarrow> nat \<times> os" where
  "io_pwrite_loop fd buf offs s =
     (if length buf > 0 then
        (case sys_pwrite fd buf offs s of (b, s') \<Rightarrow>
           if b > 0 then io_pwrite_loop fd (drop (nat b) buf) (offs + b) s' else (length buf, s'))
      else (length buf, s))"
  by pat_completeness auto
termination
  by (relation "measure (\<lambda>(fd, buf, _). length buf)") auto

declare io_read_loop.simps [simp del] io_write_loop.simps [simp del]
  io_pread_loop.simps [simp del] io_pwrite_loop.simps [simp del]

text \<open>
  The readers return 0 when everything was read, -1 when the last call returned 0, and the
  number of missing bytes otherwise; the writers return the number of bytes not written.
\<close>

definition logdb_io_read :: "int \<Rightarrow> nat \<Rightarrow> os \<Rightarrow> int \<times> byte list \<times> os" where
  "logdb_io_read fd sz s =
     (case io_read_loop fd sz (stack_junk s) [] s of (bytes, sz', ix, s') \<Rightarrow>
        (if bytes = 0 then -1 else int sz', ix, s'))"

definition logdb_io_write :: "int \<Rightarrow> byte list \<Rightarrow> os \<Rightarrow> nat \<times> os" where
  "logdb_io_write fd buf s = io_write_loop fd buf s"

definition logdb_io_pread :: "int \<Rightarrow> nat \<Rightarrow> int \<Rightarrow> os \<Rightarrow> int \<times> byte list \<times> os" where
  "logdb_io_pread fd sz offs s =
     (case io_pread_loop fd sz offs (stack_junk s) [] s of (bytes, sz', ix, s') \<Rightarrow>
        (if bytes = 0 then -1 else int sz', ix, s'))"

definition logdb_io_pwrite :: "int \<Rightarrow> byte list \<Rightarrow> int \<Rightarrow> os \<Rightarrow> nat \<times> os" where
  "logdb_io_pwrite fd buf offs s = io_pwrite_loop fd buf offs s"

section \<open>One iteration\<close>

text \<open>\<open>resched s es\<close> is the state \<open>s\<close> with the schedule \<open>es\<close> left.\<close>

definition resched :: "os \<Rightarrow> io_event list \<Rightarrow> os" where
  "resched s es = s\<lparr>sched := es\<rparr>"

lemma resched_simps [simp]:
  "dir (resched s es) = dir s" "inode (resched s es) = inode s" "next_ino (resched s es) = next_ino s"
  "fds (resched s es) = fds s" "next_fd (resched s es) = next_fd s" "stack_junk (resched s es) = stack_junk s"
  "my_locks (resched s es) = my_locks s" "other_locks (resched s es) = other_locks s"
  "my_flock (resched s es) = my_flock s" "other_flock (resched s es) = other_flock s"
  "pwrite_appends (resched s es) = pwrite_appends s" "test_env (resched s es) = test_env s"
  "sched (resched s es) = es" "resched (resched s es) es' = resched s es'" "resched s (sched s) = s"
  by (simp_all add: resched_def)

lemma popped_resched: "popped s = resched s (tl (sched s))"
  by (simp add: popped_def resched_def)

lemma set_file_resched [simp]:
  "resched (set_file s i f) es = set_file (resched s es) i f"
  "set_file (set_file s i f) i g = set_file s i g"
  "set_file s i (inode s i) = s" "set_file (resched s es) i (inode s i) = resched s es"
  by (simp_all add: set_file_def resched_def)

lemma file_of_open: "fds s fd = Some f \<Longrightarrow> file_of s fd = inode s (f_ino f)"
  by (simp add: file_of_def)

lemma file_of_frame [simp]:
  "file_of (resched s es) fd = file_of s fd"
  "file_of (set_locks s i m a n) fd = file_of s fd"
  "file_of (popped s) fd = file_of s fd"
  by (simp_all add: file_of_def split: option.split)

lemma sys_pread_cases:
  assumes "sys_pread fd sz offs s = (b, got, s')" "fds s fd = Some f" "0 \<le> offs" "0 < sz"
  shows "s' = popped s"
    and "b = -1 \<and> event s = Fail \<and> got = [] \<or>
         event s \<noteq> Fail \<and> b = int (length got) \<and> length got \<le> sz \<and>
         got = seg (file_of s fd) (nat offs) (length got) \<and>
         (got = [] \<longrightarrow> length (file_of s fd) \<le> nat offs)"
proof -
  note d = assms(1) [unfolded sys_pread_def pop_eq Let_def split_beta]
  show "s' = popped s"
    using d assms(2,3) by (auto split: if_splits)
  show "b = -1 \<and> event s = Fail \<and> got = [] \<or>
         event s \<noteq> Fail \<and> b = int (length got) \<and> length got \<le> sz \<and>
         got = seg (file_of s fd) (nat offs) (length got) \<and>
         (got = [] \<longrightarrow> length (file_of s fd) \<le> nat offs)"
  proof (cases "event s = Fail")
    case False
    let ?c = "rd_chunk (event s) sz" and ?f = "file_of s fd"
    have g: "got = seg ?f (nat offs) ?c" and b: "b = int (length got)"
      using d assms(2,3) False by (auto simp: file_of_open)
    have "got = seg ?f (nat offs) (length got)"
      unfolding g by (simp add: seg_def min_def)
    moreover have "length got \<le> sz"
      unfolding g using rd_chunk_le [of "event s" sz] by simp
    moreover have "got = [] \<longrightarrow> length ?f \<le> nat offs"
      unfolding g using rd_chunk_pos [OF assms(4), of "event s"] by (auto simp: seg_def)
    ultimately show ?thesis using b False by blast
  qed (use d assms(2,3) in auto)
qed

lemma sys_pwrite_cases:
  assumes "sys_pwrite fd bs offs s = (b, s')" "fds s fd = Some f" "0 \<le> offs" "bs \<noteq> []"
  defines "pos \<equiv> if f_append f \<and> pwrite_appends s then length (file_of s fd) else nat offs"
  shows "b = -1 \<and> event s = Fail \<and> s' = popped s \<or>
         event s \<noteq> Fail \<and> 0 \<le> b \<and> nat b \<le> length bs \<and> (event s \<noteq> Short 0 \<longrightarrow> 0 < b) \<and>
         s' = set_file (popped s) (f_ino f) (write_at (file_of s fd) pos (take (nat b) bs))"
proof (cases "event s = Fail")
  case False
  then show ?thesis
    using assms(1-4) wr_chunk_le [of "event s" "length bs"] wr_chunk_pos [of "length bs" "event s"]
    by (auto simp: sys_pwrite_def pop_eq Let_def file_of_open pos_def)
qed (use assms in \<open>auto simp: sys_pwrite_def pop_eq Let_def\<close>)

section \<open>pread\<close>

lemma seg_snoc:
  assumes "length (seg f a m) = m" "length (seg f (a + m) n) = n"
  shows "seg f a m @ seg f (a + m) n = seg f a (m + n)" "length (seg f a (m + n)) = m + n"
  using assms by (auto simp: seg_append_join)

lemma take_append_drop_take: "take (a + n) xs = take a xs @ take n (drop a xs)"
  by (simp add: take_add)

text \<open>What a first transfer and the rest of the loop make together, for the two loops that read and the two that write.\<close>

lemma read_join:
  assumes "c = int (length got)" "length got \<le> sz" "got = seg F p (length got)" "0 < c"
    and "n + sz' = sz - nat c" "ix' = (ix @ got) @ seg F (p + length got) n" "length (seg F (p + length got) n) = n"
    and "sz - nat c = 0 \<longrightarrow> b = c" "0 < sz - nat c \<and> sz' = 0 \<longrightarrow> 0 < b"
    and "0 < sz - nat c \<and> b = 0 \<longrightarrow> length F \<le> p + length got + n"
  shows "length got + n + sz' = sz \<and> ix' = ix @ seg F p (length got + n) \<and>
    length (seg F p (length got + n)) = length got + n \<and>
    (0 < sz \<and> sz' = 0 \<longrightarrow> 0 < b) \<and> (0 < sz \<and> b = 0 \<longrightarrow> length F \<le> p + (length got + n))"
proof -
  have lg: "length (seg F p (length got)) = length got" using arg_cong [OF assms(3), of length] by simp
  have "ix' = ix @ seg F p (length got + n)" unfolding assms(6) using assms(3) by (simp add: seg_append_join)
  moreover have "length (seg F p (length got + n)) = length got + n" using seg_snoc(2) [OF lg] assms(7) by simp
  moreover have "length got + n + sz' = sz" using assms(1,2,5) by simp
  moreover have "0 < sz \<and> sz' = 0 \<longrightarrow> 0 < b" using assms(4,8,9) by (cases "sz - nat c = 0") simp_all
  moreover have "0 < sz \<and> b = 0 \<longrightarrow> length F \<le> p + (length got + n)"
    using assms(4,8,10) by (cases "sz - nat c = 0") (simp_all add: add.assoc)
  ultimately show ?thesis by blast
qed

lemma write_join:
  assumes "k \<le> length buf"
  shows "write_at (write_at F p (take k buf)) (p + k) (take n (drop k buf)) = write_at F p (take (k + n) buf)"
proof -
  have "write_at (write_at F p (take k buf)) (p + length (take k buf)) (take n (drop k buf)) = write_at F p (take (k + n) buf)"
    by (simp only: write_at_append take_append_drop_take)
  then show ?thesis using assms by simp
qed

lemma io_pread_loop_spec:
  assumes "io_pread_loop fd sz offs bytes ix s = (b, sz', ix', s')" "fds s fd = Some f" "0 \<le> offs"
  shows "\<exists>n. n + sz' = sz \<and> ix' = ix @ seg (file_of s fd) (nat offs) n \<and>
             length (seg (file_of s fd) (nat offs) n) = n \<and>
             s' = resched s (sched s') \<and> (quiet s \<longrightarrow> quiet s') \<and>
             (sz = 0 \<longrightarrow> b = bytes) \<and> (0 < sz \<and> sz' = 0 \<longrightarrow> 0 < b) \<and> (0 < sz' \<longrightarrow> b \<le> 0) \<and>
             (0 < sz \<and> b = 0 \<longrightarrow> length (file_of s fd) \<le> nat offs + n) \<and> (quiet s \<and> 0 < sz' \<longrightarrow> b = 0)"
  using assms
proof (induction fd sz offs bytes ix s rule: io_pread_loop.induct)
  case (1 fd sz offs bytes ix s)
  show ?case
  proof (cases "sz > 0")
    case False
    with "1.prems" show ?thesis by (auto simp: io_pread_loop.simps [of fd sz])
  next
    case True
    obtain c got t where call: "sys_pread fd sz offs s = (c, got, t)"
      by (cases "sys_pread fd sz offs s")
    note st = sys_pread_cases [OF call "1.prems"(2,3) True]
    have t: "t = resched s (tl (sched s))" using st(1) by (simp add: popped_resched)
    have q: "quiet s \<Longrightarrow> quiet t" using st(1) by simp
    show ?thesis
    proof (cases "c > 0")
      case stop: False
      have "b = c" "sz' = sz" "ix' = ix" "s' = t"
        using "1.prems"(1) True call stop by (simp_all add: io_pread_loop.simps [of fd sz])
      moreover have "c = 0 \<longrightarrow> length (file_of s fd) \<le> nat offs" "quiet s \<longrightarrow> c = 0"
        using st(2) stop quiet_event [of s] by auto
      ultimately show ?thesis using True stop t q by (intro exI [of _ 0]) (auto simp: seg_def)
    next
      case go: True
      have got: "c = int (length got)" "length got \<le> sz" "got = seg (file_of s fd) (nat offs) (length got)"
        using st(2) go by auto
      have rec: "io_pread_loop fd (sz - nat c) (offs + c) c (ix @ got) t = (b, sz', ix', s')"
        using "1.prems"(1) True call go by (simp add: io_pread_loop.simps [of fd sz])
      have "fds t fd = Some f" "0 \<le> offs + c" "file_of t fd = file_of s fd"
        using "1.prems"(2,3) go t by (simp_all)
      from "1.IH" [OF True call [symmetric] refl go rec this(1,2)] this(3)
      obtain n where n: "n + sz' = sz - nat c" "ix' = (ix @ got) @ seg (file_of s fd) (nat (offs + c)) n"
        "length (seg (file_of s fd) (nat (offs + c)) n) = n" "s' = resched t (sched s')"
        "quiet t \<longrightarrow> quiet s'" "sz - nat c = 0 \<longrightarrow> b = c" "0 < sz - nat c \<and> sz' = 0 \<longrightarrow> 0 < b"
        "0 < sz' \<longrightarrow> b \<le> 0" "0 < sz - nat c \<and> b = 0 \<longrightarrow> length (file_of s fd) \<le> nat (offs + c) + n"
        "quiet t \<and> 0 < sz' \<longrightarrow> b = 0"
        by auto
      have off: "nat (offs + c) = nat offs + length got"
        using "1.prems"(3) got(1) by simp
      note m = read_join [OF got go n(1) n(2) [unfolded off] n(3) [unfolded off] n(6,7) n(9) [unfolded off]]
      have "s' = resched s (sched s')" using n(4) t by (metis resched_simps(14))
      moreover have "quiet s \<longrightarrow> quiet s'" "quiet s \<and> 0 < sz' \<longrightarrow> b = 0" using n(5,10) q by blast+
      ultimately show ?thesis
        using m n(8) True by (intro exI [of _ "length got + n"]) simp
    qed
  qed
qed

lemma logdb_io_pread_spec:
  assumes "logdb_io_pread fd sz offs s = (r, bs, s')" "fds s fd = Some f" "0 \<le> offs" "0 < sz"
  shows "s' = resched s (sched s')" "quiet s \<Longrightarrow> quiet s'"
    "bs = seg (file_of s fd) (nat offs) (length bs)"
    "r = 0 \<and> length bs = sz \<or> r = -1 \<and> length bs < sz \<and> length (file_of s fd) \<le> nat offs + length bs \<or>
     0 < r \<and> r + int (length bs) = int sz"
    "quiet s \<Longrightarrow> r \<le> 0"
proof -
  obtain b sz' s'' where l: "io_pread_loop fd sz offs (stack_junk s) [] s = (b, sz', bs, s'')"
    and r: "r = (if b = 0 then -1 else int sz')" and s': "s' = s''"
    using assms(1) by (auto simp: logdb_io_pread_def split: prod.splits)
  from io_pread_loop_spec [OF l assms(2,3)] obtain n where
    n: "n + sz' = sz" "bs = seg (file_of s fd) (nat offs) n" "length bs = n"
      "s'' = resched s (sched s'')" "quiet s \<longrightarrow> quiet s''"
      "sz' = 0 \<longrightarrow> 0 < b" "0 < sz' \<longrightarrow> b \<le> 0"
      "b = 0 \<longrightarrow> length (file_of s fd) \<le> nat offs + n" "quiet s \<and> 0 < sz' \<longrightarrow> b = 0"
    using assms(4) by auto
  show "s' = resched s (sched s')" "quiet s \<Longrightarrow> quiet s'" using n s' by auto
  show "bs = seg (file_of s fd) (nat offs) (length bs)" using n by simp
  show "r = 0 \<and> length bs = sz \<or> r = -1 \<and> length bs < sz \<and> length (file_of s fd) \<le> nat offs + length bs \<or>
     0 < r \<and> r + int (length bs) = int sz"
    using n r by (cases "sz' = 0") auto
  show "quiet s \<Longrightarrow> r \<le> 0" using n r by auto
qed

lemma logdb_io_pread_quiet:
  assumes "quiet s" "fds s fd = Some f" "0 \<le> offs" "0 < sz" "nat offs + sz \<le> length (file_of s fd)"
  shows "\<exists>s'. logdb_io_pread fd sz offs s = (0, seg (file_of s fd) (nat offs) sz, s') \<and>
              s' = resched s (sched s') \<and> quiet s'"
proof -
  obtain r bs s' where e: "logdb_io_pread fd sz offs s = (r, bs, s')"
    by (cases "logdb_io_pread fd sz offs s")
  note sp = logdb_io_pread_spec [OF e assms(2-4)]
  from sp(4) sp(5) [OF assms(1)] assms(5) have "r = 0" "length bs = sz" by auto
  with sp(1-3) assms(1) e show ?thesis by metis
qed

section \<open>pwrite\<close>

text \<open>Where a \<open>pwrite\<close> at \<open>offs\<close> really stores its bytes.\<close>

definition pwrite_pos :: "os \<Rightarrow> int \<Rightarrow> int \<Rightarrow> nat" where
  "pwrite_pos s fd offs =
     (case fds s fd of
        None \<Rightarrow> nat offs
      | Some f \<Rightarrow> if f_append f \<and> pwrite_appends s then length (file_of s fd) else nat offs)"

lemma io_pwrite_loop_spec:
  assumes "io_pwrite_loop fd buf offs s = (left, s')" "fds s fd = Some f" "0 \<le> offs"
  shows "\<exists>n. n + left = length buf \<and> (quiet s \<longrightarrow> quiet s' \<and> left = 0) \<and>
             s' = set_file (resched s (sched s')) (f_ino f)
                    (write_at (file_of s fd) (pwrite_pos s fd offs) (take n buf))"
  using assms
proof (induction fd buf offs s rule: io_pwrite_loop.induct)
  case (1 fd buf offs s)
  show ?case
  proof (cases "buf = []")
    case True
    with "1.prems" show ?thesis by (auto simp: io_pwrite_loop.simps [of fd "[]"] file_of_open)
  next
    case False
    then have nonempty: "length buf > 0" by simp
    obtain c t where call: "sys_pwrite fd buf offs s = (c, t)"
      by (cases "sys_pwrite fd buf offs s")
    let ?p = "pwrite_pos s fd offs" and ?file = "file_of s fd"
    have st: "c = -1 \<and> event s = Fail \<and> t = popped s \<or>
         event s \<noteq> Fail \<and> 0 \<le> c \<and> nat c \<le> length buf \<and> (event s \<noteq> Short 0 \<longrightarrow> 0 < c) \<and>
         t = set_file (popped s) (f_ino f) (write_at ?file ?p (take (nat c) buf))"
      using sys_pwrite_cases [OF call "1.prems"(2,3) False] "1.prems"(2) by (simp add: pwrite_pos_def)
    show ?thesis
    proof (cases "c > 0")
      case stop: False
      have l: "left = length buf" "s' = t"
        using "1.prems"(1) nonempty call stop by (simp_all add: io_pwrite_loop.simps [of fd buf])
      have "\<not> quiet s" using st stop quiet_event [of s] by auto
      moreover have "t = popped s"
        using st stop by (auto simp: file_of_open [OF "1.prems"(2)] popped_resched)
      ultimately show ?thesis using l "1.prems"(2)
        by (intro exI [of _ 0]) (simp add: file_of_open popped_resched)
    next
      case go: True
      have t: "t = set_file (popped s) (f_ino f) (write_at ?file ?p (take (nat c) buf))"
        and le: "nat c \<le> length buf"
        using st go by auto
      have rec: "io_pwrite_loop fd (drop (nat c) buf) (offs + c) t = (left, s')"
        using "1.prems"(1) nonempty call go by (simp add: io_pwrite_loop.simps [of fd buf])
      have open_t: "fds t fd = Some f" "0 \<le> offs + c"
        using "1.prems"(2,3) go t by simp_all
      have file_t: "file_of t fd = write_at ?file ?p (take (nat c) buf)"
        using open_t t by (simp add: file_of_open)
      have pos_t: "pwrite_pos t fd (offs + c) = ?p + nat c"
        using open_t "1.prems"(2,3) t go le file_t
        by (auto simp: pwrite_pos_def nat_add_distrib length_write_at)
      from "1.IH" [OF nonempty call [symmetric] go rec open_t]
      obtain n where n: "n + left = length buf - nat c" "quiet t \<longrightarrow> quiet s' \<and> left = 0"
        "s' = set_file (resched t (sched s')) (f_ino f)
                (write_at (file_of t fd) (pwrite_pos t fd (offs + c)) (take n (drop (nat c) buf)))"
        by auto
      have "s' = set_file (resched s (sched s')) (f_ino f) (write_at ?file ?p (take (nat c + n) buf))"
        unfolding write_join [OF le, symmetric] using n(3) by (simp only: file_t pos_t) (simp add: t popped_resched)
      moreover have "quiet s \<longrightarrow> quiet s' \<and> left = 0" using n(2) t by simp
      ultimately show ?thesis using n(1) le by (intro exI [of _ "nat c + n"]) simp
    qed
  qed
qed

lemma logdb_io_pwrite_spec:
  assumes "logdb_io_pwrite fd buf offs s = (left, s')" "fds s fd = Some f" "0 \<le> offs"
  shows "left \<le> length buf"
    "s' = set_file (resched s (sched s')) (f_ino f)
            (write_at (file_of s fd) (pwrite_pos s fd offs) (take (length buf - left) buf))"
    "quiet s \<Longrightarrow> quiet s' \<and> left = 0"
proof -
  from io_pwrite_loop_spec [OF assms(1) [unfolded logdb_io_pwrite_def] assms(2,3)]
  obtain n where n: "n + left = length buf" "quiet s \<longrightarrow> quiet s' \<and> left = 0"
    "s' = set_file (resched s (sched s')) (f_ino f)
            (write_at (file_of s fd) (pwrite_pos s fd offs) (take n buf))"
    by auto
  from n(1) have "n = length buf - left" "left \<le> length buf" by auto
  with n show "left \<le> length buf"
    "s' = set_file (resched s (sched s')) (f_ino f)
            (write_at (file_of s fd) (pwrite_pos s fd offs) (take (length buf - left) buf))"
    "quiet s \<Longrightarrow> quiet s' \<and> left = 0"
    by auto
qed

section \<open>read and write at the file position\<close>

lemma set_pos_same: "fds s fd = Some f \<Longrightarrow> f_pos f = p \<Longrightarrow> set_pos s fd p = s"
  by (auto simp: set_pos_def fun_upd_idem)

lemma set_pos_set_pos [simp]: "set_pos (set_pos s fd p) fd q = set_pos s fd q"
  by (auto simp: set_pos_def split: option.split)

lemma resched_set_pos [simp]: "resched (set_pos s fd p) es = set_pos (resched s es) fd p"
  by (auto simp: set_pos_def resched_def split: option.split)

lemma set_file_set_pos: "set_file (set_pos s fd p) i g = set_pos (set_file s i g) fd p"
  by (auto simp: set_pos_def set_file_def split: option.split)

lemma file_of_set_pos [simp]: "file_of (set_pos s fd p) fd' = file_of s fd'"
  by (auto simp: set_pos_def file_of_def split: option.split)

lemma fds_set_pos_same: "fds s fd = Some f \<Longrightarrow> fds (set_pos s fd p) fd = Some (f\<lparr>f_pos := p\<rparr>)"
  by (simp add: set_pos_def)

lemma sys_read_cases:
  assumes "sys_read fd sz s = (b, got, s')" "fds s fd = Some f" "0 < sz"
  shows "b = -1 \<and> event s = Fail \<and> got = [] \<and> s' = popped s \<or>
         event s \<noteq> Fail \<and> b = int (length got) \<and> length got \<le> sz \<and>
         got = seg (file_of s fd) (f_pos f) (length got) \<and>
         (got = [] \<longrightarrow> length (file_of s fd) \<le> f_pos f) \<and>
         s' = set_pos (popped s) fd (f_pos f + length got)"
proof (cases "event s = Fail")
  case False
  let ?c = "rd_chunk (event s) sz" and ?f = "file_of s fd"
  have g: "got = seg ?f (f_pos f) ?c" and b: "b = int (length got)"
    and s': "s' = set_pos (popped s) fd (f_pos f + length got)"
    using assms(1,2) False by (auto simp: sys_read_def pop_eq Let_def file_of_open)
  have "got = seg ?f (f_pos f) (length got)"
    unfolding g by (simp add: seg_def min_def)
  moreover have "length got \<le> sz"
    unfolding g using rd_chunk_le [of "event s" sz] by simp
  moreover have "got = [] \<longrightarrow> length ?f \<le> f_pos f"
    unfolding g using rd_chunk_pos [OF assms(3), of "event s"] by (auto simp: seg_def)
  ultimately show ?thesis using b s' False by blast
qed (use assms in \<open>auto simp: sys_read_def pop_eq Let_def\<close>)

lemma io_read_loop_spec:
  assumes "io_read_loop fd sz bytes ix s = (b, sz', ix', s')" "fds s fd = Some f"
  shows "\<exists>n. n + sz' = sz \<and> ix' = ix @ seg (file_of s fd) (f_pos f) n \<and>
             length (seg (file_of s fd) (f_pos f) n) = n \<and>
             s' = set_pos (resched s (sched s')) fd (f_pos f + n) \<and> (quiet s \<longrightarrow> quiet s') \<and>
             (sz = 0 \<longrightarrow> b = bytes) \<and> (0 < sz \<and> sz' = 0 \<longrightarrow> 0 < b) \<and> (0 < sz' \<longrightarrow> b \<le> 0) \<and>
             (0 < sz \<and> b = 0 \<longrightarrow> length (file_of s fd) \<le> f_pos f + n) \<and> (quiet s \<and> 0 < sz' \<longrightarrow> b = 0)"
  using assms
proof (induction fd sz bytes ix s arbitrary: f rule: io_read_loop.induct)
  case (1 fd sz bytes ix s)
  show ?case
  proof (cases "sz > 0")
    case False
    with "1.prems" show ?thesis by (auto simp: io_read_loop.simps [of fd sz] set_pos_same)
  next
    case True
    obtain c got t where call: "sys_read fd sz s = (c, got, t)"
      by (cases "sys_read fd sz s")
    note st = sys_read_cases [OF call "1.prems"(2) True]
    have t: "t = set_pos (resched s (tl (sched s))) fd (f_pos f + length got)"
      using st "1.prems"(2) by (auto simp: popped_resched set_pos_same)
    have q: "quiet s \<Longrightarrow> quiet t" using st by auto
    show ?thesis
    proof (cases "c > 0")
      case stop: False
      have "b = c" "sz' = sz" "ix' = ix" "s' = t"
        using "1.prems"(1) True call stop by (simp_all add: io_read_loop.simps [of fd sz])
      moreover have "c = 0 \<longrightarrow> length (file_of s fd) \<le> f_pos f" "quiet s \<longrightarrow> c = 0" "got = []"
        using st stop quiet_event [of s] by auto
      ultimately show ?thesis using True stop t q by (intro exI [of _ 0]) (auto simp: seg_def)
    next
      case go: True
      have got: "c = int (length got)" "length got \<le> sz" "got = seg (file_of s fd) (f_pos f) (length got)"
        using st go by auto
      have rec: "io_read_loop fd (sz - nat c) c (ix @ got) t = (b, sz', ix', s')"
        using "1.prems"(1) True call go by (simp add: io_read_loop.simps [of fd sz])
      let ?f = "f\<lparr>f_pos := f_pos f + length got\<rparr>"
      have open_t: "fds t fd = Some ?f" "file_of t fd = file_of s fd"
        using "1.prems"(2) t by (simp_all add: fds_set_pos_same)
      from "1.IH" [OF True call [symmetric] refl go rec open_t(1)] open_t(2)
      obtain n where n: "n + sz' = sz - nat c"
        "ix' = (ix @ got) @ seg (file_of s fd) (f_pos f + length got) n"
        "length (seg (file_of s fd) (f_pos f + length got) n) = n"
        "s' = set_pos (resched t (sched s')) fd (f_pos f + length got + n)"
        "quiet t \<longrightarrow> quiet s'" "sz - nat c = 0 \<longrightarrow> b = c" "0 < sz - nat c \<and> sz' = 0 \<longrightarrow> 0 < b"
        "0 < sz' \<longrightarrow> b \<le> 0"
        "0 < sz - nat c \<and> b = 0 \<longrightarrow> length (file_of s fd) \<le> f_pos f + length got + n"
        "quiet t \<and> 0 < sz' \<longrightarrow> b = 0"
        by auto
      note m = read_join [OF got go n(1-3,6,7,9)]
      have "s' = set_pos (resched s (sched s')) fd (f_pos f + (length got + n))"
        using n(4) by (simp add: t add.assoc)
      moreover have "quiet s \<longrightarrow> quiet s'" "quiet s \<and> 0 < sz' \<longrightarrow> b = 0" using n(5,10) q by blast+
      ultimately show ?thesis
        using m n(8) True by (intro exI [of _ "length got + n"]) simp
    qed
  qed
qed

lemma logdb_io_read_spec:
  assumes "logdb_io_read fd sz s = (r, bs, s')" "fds s fd = Some f" "0 < sz"
  shows "s' = set_pos (resched s (sched s')) fd (f_pos f + length bs)" "quiet s \<Longrightarrow> quiet s'"
    "bs = seg (file_of s fd) (f_pos f) (length bs)"
    "r = 0 \<and> length bs = sz \<or> r = -1 \<and> length bs < sz \<and> length (file_of s fd) \<le> f_pos f + length bs \<or>
     0 < r \<and> r + int (length bs) = int sz"
    "quiet s \<Longrightarrow> r \<le> 0"
proof -
  obtain b sz' where l: "io_read_loop fd sz (stack_junk s) [] s = (b, sz', bs, s')"
    and r: "r = (if b = 0 then -1 else int sz')"
    using assms(1) by (auto simp: logdb_io_read_def split: prod.splits)
  from io_read_loop_spec [OF l assms(2)] obtain n where
    n: "n + sz' = sz" "bs = seg (file_of s fd) (f_pos f) n" "length bs = n"
      "s' = set_pos (resched s (sched s')) fd (f_pos f + n)" "quiet s \<longrightarrow> quiet s'"
      "sz' = 0 \<longrightarrow> 0 < b" "0 < sz' \<longrightarrow> b \<le> 0"
      "b = 0 \<longrightarrow> length (file_of s fd) \<le> f_pos f + n" "quiet s \<and> 0 < sz' \<longrightarrow> b = 0"
    using assms(3) by auto
  show "s' = set_pos (resched s (sched s')) fd (f_pos f + length bs)" "quiet s \<Longrightarrow> quiet s'"
    using n by auto
  show "bs = seg (file_of s fd) (f_pos f) (length bs)" using n by simp
  show "r = 0 \<and> length bs = sz \<or> r = -1 \<and> length bs < sz \<and> length (file_of s fd) \<le> f_pos f + length bs \<or>
     0 < r \<and> r + int (length bs) = int sz"
    using n r by (cases "sz' = 0") auto
  show "quiet s \<Longrightarrow> r \<le> 0" using n r by auto
qed

lemma logdb_io_read_quiet:
  assumes "quiet s" "fds s fd = Some f" "0 < sz" "f_pos f + sz \<le> length (file_of s fd)"
  shows "\<exists>s'. logdb_io_read fd sz s = (0, seg (file_of s fd) (f_pos f) sz, s') \<and> quiet s' \<and>
              s' = set_pos (resched s (sched s')) fd (f_pos f + sz)"
proof -
  obtain r bs s' where e: "logdb_io_read fd sz s = (r, bs, s')"
    by (cases "logdb_io_read fd sz s")
  note sp = logdb_io_read_spec [OF e assms(2,3)]
  from sp(4) sp(5) [OF assms(1)] assms(4) have "r = 0" "length bs = sz" by auto
  with sp(1-3) assms(1) e show ?thesis by metis
qed

definition write_pos :: "os \<Rightarrow> int \<Rightarrow> nat" where
  "write_pos s fd =
     (case fds s fd of
        None \<Rightarrow> 0 | Some f \<Rightarrow> if f_append f then length (file_of s fd) else f_pos f)"

lemma sys_write_cases:
  assumes "sys_write fd bs s = (b, s')" "fds s fd = Some f" "bs \<noteq> []"
  shows "b = -1 \<and> event s = Fail \<and> s' = popped s \<or>
         event s \<noteq> Fail \<and> 0 \<le> b \<and> nat b \<le> length bs \<and> (event s \<noteq> Short 0 \<longrightarrow> 0 < b) \<and>
         s' = set_pos (set_file (popped s) (f_ino f) (write_at (file_of s fd) (write_pos s fd) (take (nat b) bs)))
                fd (write_pos s fd + nat b)"
proof (cases "event s = Fail")
  case False
  then show ?thesis
    using assms wr_chunk_le [of "event s" "length bs"] wr_chunk_pos [of "length bs" "event s"]
    by (auto simp: sys_write_def pop_eq Let_def file_of_open write_pos_def)
qed (use assms in \<open>auto simp: sys_write_def pop_eq Let_def\<close>)

lemma io_write_loop_spec:
  assumes "io_write_loop fd buf s = (left, s')" "fds s fd = Some f"
  shows "\<exists>n p. n + left = length buf \<and> (quiet s \<longrightarrow> quiet s' \<and> left = 0) \<and>
             (p = write_pos s fd + n \<or> n = 0 \<and> p = f_pos f) \<and>
             s' = set_pos (set_file (resched s (sched s')) (f_ino f)
                    (write_at (file_of s fd) (write_pos s fd) (take n buf))) fd p"
  using assms
proof (induction fd buf s arbitrary: f rule: io_write_loop.induct)
  case (1 fd buf s)
  show ?case
  proof (cases "buf = []")
    case True
    with "1.prems" show ?thesis
      by (auto simp: io_write_loop.simps [of fd "[]"] file_of_open intro!: exI [of _ "f_pos f"] set_pos_same [symmetric])
  next
    case False
    then have nonempty: "length buf > 0" by simp
    obtain c t where call: "sys_write fd buf s = (c, t)"
      by (cases "sys_write fd buf s")
    let ?p = "write_pos s fd" and ?file = "file_of s fd"
    note st = sys_write_cases [OF call "1.prems"(2) False]
    show ?thesis
    proof (cases "c > 0")
      case stop: False
      have l: "left = length buf" "s' = t"
        using "1.prems"(1) nonempty call stop by (simp_all add: io_write_loop.simps [of fd buf])
      have "\<not> quiet s" using st stop quiet_event [of s] by auto
      moreover have "\<exists>p. (p = ?p \<or> p = f_pos f) \<and> t = set_pos (popped s) fd p"
      proof (cases "event s = Fail")
        case True
        then have "t = set_pos (popped s) fd (f_pos f)"
          using st "1.prems"(2) by (simp add: set_pos_same)
        then show ?thesis by blast
      next
        case False
        then have "t = set_pos (popped s) fd ?p"
          using st stop by (simp add: file_of_open [OF "1.prems"(2)] popped_resched)
        then show ?thesis by blast
      qed
      ultimately show ?thesis using l "1.prems"(2)
        by (auto simp: file_of_open popped_resched)
    next
      case go: True
      have t: "t = set_pos (set_file (popped s) (f_ino f) (write_at ?file ?p (take (nat c) buf))) fd (?p + nat c)"
        and le: "nat c \<le> length buf"
        using st go by auto
      have rec: "io_write_loop fd (drop (nat c) buf) t = (left, s')"
        using "1.prems"(1) nonempty call go by (simp add: io_write_loop.simps [of fd buf])
      let ?f = "f\<lparr>f_pos := ?p + nat c\<rparr>"
      have open_t: "fds t fd = Some ?f"
        using "1.prems"(2) t by (simp add: fds_set_pos_same)
      have file_t: "file_of t fd = write_at ?file ?p (take (nat c) buf)"
        unfolding file_of_open [OF open_t] by (simp add: t)
      have pos_t: "write_pos t fd = ?p + nat c"
        using open_t "1.prems"(2) t go le file_t
        by (auto simp: write_pos_def length_write_at)
      from "1.IH" [OF nonempty call [symmetric] go rec open_t]
      obtain n p where n: "n + left = length buf - nat c" "quiet t \<longrightarrow> quiet s' \<and> left = 0"
        "p = ?p + nat c + n"
        "s' = set_pos (set_file (resched t (sched s')) (f_ino f)
                (write_at (file_of t fd) (write_pos t fd) (take n (drop (nat c) buf)))) fd p"
        by (auto simp: pos_t)
      have s': "s' = set_pos (set_file (resched s (sched s')) (f_ino f) (write_at ?file ?p (take (nat c + n) buf))) fd p"
        unfolding write_join [OF le, symmetric]
        using n(4) by (simp only: file_t pos_t) (simp add: t popped_resched set_file_set_pos)
      have "quiet s \<longrightarrow> quiet s' \<and> left = 0" using n(2) t by simp
      with s' n(1,3) le show ?thesis
        by (intro exI [of _ "nat c + n"] exI [of _ p]) simp
    qed
  qed
qed

lemma logdb_io_write_spec:
  assumes "logdb_io_write fd buf s = (left, s')" "fds s fd = Some f"
  shows "left \<le> length buf"
    "\<exists>p. (p = write_pos s fd + (length buf - left) \<or> left = length buf \<and> p = f_pos f) \<and>
         s' = set_pos (set_file (resched s (sched s')) (f_ino f)
                (write_at (file_of s fd) (write_pos s fd) (take (length buf - left) buf))) fd p"
    "quiet s \<Longrightarrow> quiet s' \<and> left = 0"
proof -
  from io_write_loop_spec [OF assms(1) [unfolded logdb_io_write_def] assms(2)]
  obtain n p where n: "n + left = length buf" "quiet s \<longrightarrow> quiet s' \<and> left = 0"
    "p = write_pos s fd + n \<or> n = 0 \<and> p = f_pos f"
    "s' = set_pos (set_file (resched s (sched s')) (f_ino f)
            (write_at (file_of s fd) (write_pos s fd) (take n buf))) fd p"
    by auto
  from n(1) have "n = length buf - left" "left \<le> length buf" by auto
  with n show "left \<le> length buf"
    "\<exists>p. (p = write_pos s fd + (length buf - left) \<or> left = length buf \<and> p = f_pos f) \<and>
         s' = set_pos (set_file (resched s (sched s')) (f_ino f)
                (write_at (file_of s fd) (write_pos s fd) (take (length buf - left) buf))) fd p"
    "quiet s \<Longrightarrow> quiet s' \<and> left = 0"
    by auto
qed

section \<open>What the calls leave alone\<close>

text \<open>
  \<open>frame s s'\<close>: names, descriptors up to their positions, and the other processes are the same.
  The events that are left come from the schedule before. \<open>same_data\<close> adds that no file has changed.
\<close>

definition fd_key :: "fdesc \<Rightarrow> nat \<times> bool" where
  "fd_key f = (f_ino f, f_append f)"

definition frame :: "os \<Rightarrow> os \<Rightarrow> bool" where
  "frame s s' \<longleftrightarrow>
     dir s' = dir s \<and> next_ino s' = next_ino s \<and> next_fd s' = next_fd s \<and>
     pwrite_appends s' = pwrite_appends s \<and> other_locks s' = other_locks s \<and>
     my_flock s' = my_flock s \<and> other_flock s' = other_flock s \<and>
     test_env s' = test_env s \<and> stack_junk s' = stack_junk s \<and> set (sched s') \<subseteq> set (sched s) \<and>
     (\<forall>fd. map_option fd_key (fds s' fd) = map_option fd_key (fds s fd))"

definition same_data :: "os \<Rightarrow> os \<Rightarrow> bool" where
  "same_data s s' \<longleftrightarrow> frame s s' \<and> inode s' = inode s"

lemma tl_subset: "set (tl xs) \<subseteq> set xs"
  by (cases xs) auto

lemma frame_refl [simp]: "frame s s"
  by (simp add: frame_def)

lemma frame_trans [trans]: "frame s t \<Longrightarrow> frame t u \<Longrightarrow> frame s u"
  by (auto simp: frame_def)

lemma same_data_refl [simp]: "same_data s s"
  by (simp add: same_data_def)

lemma same_data_trans [trans]: "same_data s t \<Longrightarrow> same_data t u \<Longrightarrow> same_data s u"
  by (auto simp: same_data_def intro: frame_trans)

lemma frame_steps [simp]:
  "frame s (popped s)" "frame s (set_file s i b)" "frame s (set_locks s i m a n)" "frame s (set_pos s fd p)"
  by (auto simp: frame_def fd_key_def fds_set_pos split: option.split dest: tl_subset [THEN subsetD])

lemma frame_resched [simp]: "set es \<subseteq> set (sched s) \<Longrightarrow> frame s (resched s es)"
  by (simp add: frame_def)

lemma frame_quiet: "frame s s' \<Longrightarrow> quiet s \<Longrightarrow> quiet s'"
  by (auto simp: frame_def quiet_def list_all_iff)

lemma same_data_steps [simp]:
  "same_data s (popped s)" "same_data s (set_locks s i m a n)" "same_data s (set_pos s fd p)"
  "set es \<subseteq> set (sched s) \<Longrightarrow> same_data s (resched s es)"
  by (simp_all add: same_data_def)

lemma frame_fd:
  "frame s s' \<Longrightarrow> fds s fd = Some f \<Longrightarrow> \<exists>f'. fds s' fd = Some f' \<and> f_ino f' = f_ino f \<and> f_append f' = f_append f"
  by (auto simp: frame_def fd_key_def dest!: spec [of _ fd] split: option.splits)

lemma same_data_file: "same_data s s' \<Longrightarrow> file_of s' fd = file_of s fd"
  by (cases "fds s fd"; cases "fds s' fd")
     (auto simp: same_data_def frame_def file_of_def fd_key_def dest!: spec [of _ fd])

lemma sys_lseek_same: "sys_lseek fd offs wh s = (r, s') \<Longrightarrow> same_data s s'"
  by (auto simp: sys_lseek_def Let_def split: option.splits if_splits)

lemma sys_pthread_same: "sys_pthread s = (r, s') \<Longrightarrow> same_data s s'"
  by (auto simp: sys_pthread_def pop_eq Let_def)

lemma sys_malloc_same: "sys_malloc s = (r, s') \<Longrightarrow> same_data s s'"
  by (auto simp: sys_malloc_def pop_eq Let_def)

lemma sys_fsync_same: "sys_fsync fd s = (r, s') \<Longrightarrow> same_data s s'"
  by (auto simp: sys_fsync_def pop_eq Let_def split: if_splits)

lemma sys_setlk_same: "sys_fcntl_setlk fd m a n s = (r, s') \<Longrightarrow> same_data s s'"
  by (auto simp: sys_fcntl_setlk_def pop_eq Let_def same_data_trans [OF same_data_steps(1) same_data_steps(2)]
      split: option.splits if_splits)

lemmas same_data_calls = sys_lseek_same sys_pthread_same sys_malloc_same sys_fsync_same sys_setlk_same

lemma calls_quiet:
  "sys_lseek fd offs wh s = (p, s') \<Longrightarrow> quiet s \<Longrightarrow> quiet s'"
  "sys_pthread s = (ok, s') \<Longrightarrow> quiet s \<Longrightarrow> ok \<and> quiet s'"
  "sys_malloc s = (ok, s') \<Longrightarrow> quiet s \<Longrightarrow> ok \<and> quiet s'"
  "sys_fsync fd s = (r, s') \<Longrightarrow> quiet s \<Longrightarrow> fds s fd \<noteq> None \<Longrightarrow> r = 0 \<and> quiet s'"
  "sys_fcntl_setlk fd m a n s = (r, s') \<Longrightarrow> quiet s \<Longrightarrow> quiet s'"
  by (auto simp: sys_lseek_def sys_pthread_def sys_malloc_def sys_fsync_def sys_fcntl_setlk_def
      pop_eq Let_def dest: quiet_event split: option.splits if_splits)

text \<open>The loops take their events from the front of the schedule.\<close>

lemma transfer_sched:
  "set (sched (snd (snd (sys_read fd sz s)))) \<subseteq> set (sched s)"
  "set (sched (snd (sys_write fd bs s))) \<subseteq> set (sched s)"
  "set (sched (snd (snd (sys_pread fd sz offs s)))) \<subseteq> set (sched s)"
  "set (sched (snd (sys_pwrite fd bs offs s))) \<subseteq> set (sched s)"
  by (auto simp: sys_read_def sys_write_def sys_pread_def sys_pwrite_def pop_eq Let_def
      split: option.splits if_splits dest!: tl_subset [THEN subsetD])

lemma io_read_loop_sched: "set (sched (snd (snd (snd (io_read_loop fd sz b ix s))))) \<subseteq> set (sched s)"
proof (induction fd sz b ix s rule: io_read_loop.induct)
  case (1 fd sz b ix s)
  then show ?case
    using transfer_sched(1) [of fd sz s] by (subst io_read_loop.simps) (auto split: prod.splits, blast)
qed

lemma io_write_loop_sched: "set (sched (snd (io_write_loop fd buf s))) \<subseteq> set (sched s)"
proof (induction fd buf s rule: io_write_loop.induct)
  case (1 fd buf s)
  then show ?case
    using transfer_sched(2) [of fd buf s] by (subst io_write_loop.simps) (auto split: prod.splits, blast)
qed

lemma io_pread_loop_sched: "set (sched (snd (snd (snd (io_pread_loop fd sz offs b ix s))))) \<subseteq> set (sched s)"
proof (induction fd sz offs b ix s rule: io_pread_loop.induct)
  case (1 fd sz offs b ix s)
  then show ?case
    using transfer_sched(3) [of fd sz offs s] by (subst io_pread_loop.simps) (auto split: prod.splits, blast)
qed

lemma io_pwrite_loop_sched: "set (sched (snd (io_pwrite_loop fd buf offs s))) \<subseteq> set (sched s)"
proof (induction fd buf offs s rule: io_pwrite_loop.induct)
  case (1 fd buf offs s)
  then show ?case
    using transfer_sched(4) [of fd buf offs s] by (subst io_pwrite_loop.simps) (auto split: prod.splits, blast)
qed

lemma logdb_io_sched:
  "logdb_io_read fd sz s = (r, bs, s') \<Longrightarrow> set (sched s') \<subseteq> set (sched s)"
  "logdb_io_write fd buf s = (left, s') \<Longrightarrow> set (sched s') \<subseteq> set (sched s)"
  "logdb_io_pread fd sz offs s = (r, bs, s') \<Longrightarrow> set (sched s') \<subseteq> set (sched s)"
  "logdb_io_pwrite fd buf offs s = (left, s') \<Longrightarrow> set (sched s') \<subseteq> set (sched s)"
  using io_read_loop_sched [of fd sz "stack_junk s" "[]" s] io_write_loop_sched [of fd buf s]
    io_pread_loop_sched [of fd sz offs "stack_junk s" "[]" s] io_pwrite_loop_sched [of fd buf offs s]
  by (auto simp: logdb_io_read_def logdb_io_write_def logdb_io_pread_def logdb_io_pwrite_def split: prod.splits)

section \<open>The positional store interface\<close>

text \<open>
  What the log and the leases rely on: bytes stored at a position are read back, and reads of
  other positions are not affected.
\<close>

locale positional_store =
  fixes rd :: "'s \<Rightarrow> nat \<Rightarrow> nat \<Rightarrow> byte list option"
    and wr :: "'s \<Rightarrow> nat \<Rightarrow> byte list \<Rightarrow> 's option"
    and ok :: "'s \<Rightarrow> bool"
  assumes wr_ok: "\<lbrakk>ok s; wr s a bs = Some s'\<rbrakk> \<Longrightarrow> ok s'"
    and rd_back: "\<lbrakk>ok s; bs \<noteq> []; wr s a bs = Some s'\<rbrakk> \<Longrightarrow> rd s' a (length bs) = Some bs"
    and rd_other: "\<lbrakk>ok s; wr s a bs = Some s'; 0 < n; rd s b n = Some xs; b + n \<le> a \<or> a + length bs \<le> b\<rbrakk>
                   \<Longrightarrow> rd s' b n = Some xs"
begin

lemma two_writes:
  assumes "ok s" "xs \<noteq> []" "ys \<noteq> []" "wr s a xs = Some t" "wr t b ys = Some u"
    and "a + length xs \<le> b \<or> b + length ys \<le> a"
  shows "rd u a (length xs) = Some xs \<and> rd u b (length ys) = Some ys"
proof -
  have t: "ok t" "rd t a (length xs) = Some xs"
    using assms(1,2,4) by (auto intro: wr_ok rd_back)
  then have "rd u a (length xs) = Some xs"
    using assms by (auto intro: rd_other [where s = t])
  with t(1) assms(3,5) show ?thesis by (auto intro: rd_back)
qed

lemma overwrite:
  assumes "ok s" "ys \<noteq> []" "wr s a xs = Some t" "wr t a ys = Some u"
  shows "rd u a (length ys) = Some ys"
  using assms by (blast intro: wr_ok rd_back)

end

definition io_get :: "int \<Rightarrow> os \<Rightarrow> nat \<Rightarrow> nat \<Rightarrow> byte list option" where
  "io_get fd s a n = (case logdb_io_pread fd n (int a) s of (r, bs, _) \<Rightarrow> if r = 0 then Some bs else None)"

definition io_put :: "int \<Rightarrow> os \<Rightarrow> nat \<Rightarrow> byte list \<Rightarrow> os option" where
  "io_put fd s a bs = (case logdb_io_pwrite fd bs (int a) s of (left, s') \<Rightarrow> if left = 0 then Some s' else None)"

text \<open>The descriptor is open, no failure is scheduled, and \<open>pwrite\<close> honours its offset.\<close>

definition io_ok :: "int \<Rightarrow> os \<Rightarrow> bool" where
  "io_ok fd s = (quiet s \<and> (case fds s fd of None \<Rightarrow> False | Some f \<Rightarrow> \<not> (f_append f \<and> pwrite_appends s)))"

lemma pwrite_pos_exact:
  "fds s fd = Some f \<Longrightarrow> \<not> (f_append f \<and> pwrite_appends s) \<Longrightarrow> pwrite_pos s fd offs = nat offs"
  by (auto simp: pwrite_pos_def)

lemma io_putD:
  assumes "io_ok fd s" "io_put fd s a bs = Some s'"
  shows "\<exists>f. fds s fd = Some f \<and> s' = set_file (resched s (sched s')) (f_ino f) (write_at (file_of s fd) a bs) \<and>
             io_ok fd s' \<and> file_of s' fd = write_at (file_of s fd) a bs"
proof -
  from assms(1) obtain f where f: "fds s fd = Some f" "\<not> (f_append f \<and> pwrite_appends s)" "quiet s"
    by (auto simp: io_ok_def split: option.splits)
  from assms(2) have p: "logdb_io_pwrite fd bs (int a) s = (0, s')"
    by (auto simp: io_put_def split: prod.splits if_splits)
  have s': "s' = set_file (resched s (sched s')) (f_ino f) (write_at (file_of s fd) a bs)" "quiet s'"
    using logdb_io_pwrite_spec(2,3) [OF p f(1)] f(3) pwrite_pos_exact [OF f(1,2)] by auto
  have o: "fds s' fd = Some f" "pwrite_appends s' = pwrite_appends s" "inode s' (f_ino f) = write_at (file_of s fd) a bs"
    by (subst s'(1), simp add: f(1))+
  have "io_ok fd s'" using o(1,2) f(2) s'(2) by (simp add: io_ok_def)
  moreover have "file_of s' fd = write_at (file_of s fd) a bs" using o by (simp add: file_of_open)
  ultimately show ?thesis using f(1) s'(1) by blast
qed

lemma io_get_ok:
  assumes "io_ok fd s" "0 < n"
  shows "io_get fd s a n = (if a + n \<le> length (file_of s fd) then Some (seg (file_of s fd) a n) else None)"
proof -
  from assms(1) obtain f where f: "fds s fd = Some f" "quiet s"
    by (auto simp: io_ok_def split: option.splits)
  obtain r bs s' where e: "logdb_io_pread fd n (int a) s = (r, bs, s')"
    by (cases "logdb_io_pread fd n (int a) s")
  from logdb_io_pread_spec(3) [OF e f(1) _ assms(2)] have bs: "bs = seg (file_of s fd) a (length bs)"
    by simp
  then have "length bs \<le> length (file_of s fd) - a"
    by (metis length_seg min.cobounded2)
  then have "length bs = n \<Longrightarrow> a + n \<le> length (file_of s fd)"
    using assms(2) by simp
  with bs logdb_io_pread_spec(4,5) [OF e f(1) _ assms(2)] f(2) assms(2) e show ?thesis
    by (auto simp: io_get_def)
qed

interpretation pfile: positional_store "io_get fd" "io_put fd" "io_ok fd" for fd
proof unfold_locales
  fix s a bs s'
  assume "io_ok fd s" "io_put fd s a bs = Some s'"
  then show "io_ok fd s'" by (blast dest: io_putD)
next
  fix s a bs s'
  assume h: "io_ok fd s" "bs \<noteq> []" "io_put fd s a bs = Some s'"
  with io_putD [OF h(1,3)] show "io_get fd s' a (length bs) = Some bs"
    by (auto simp: io_get_ok length_write_at)
next
  fix s a bs s' n b xs
  assume h: "io_ok fd s" "io_put fd s a bs = Some s'" "0 < n" "io_get fd s b n = Some xs"
    "b + n \<le> a \<or> a + length bs \<le> b"
  let ?f = "file_of s fd"
  from h have xs: "b + n \<le> length ?f" "xs = seg ?f b n"
    by (auto simp: io_get_ok split: if_splits)
  have "seg (write_at ?f a bs) b n = seg ?f b n"
    using h(5) xs(1) seg_write_at_before [of b n a ?f bs] seg_write_at_after [of a bs b ?f n] by auto
  moreover have "b + n \<le> length (write_at ?f a bs)"
    using xs(1) length_write_at_ge [of ?f a bs] by simp
  ultimately show "io_get fd s' b n = Some xs"
    using io_putD [OF h(1,2)] h(3) xs(2) by (auto simp: io_get_ok)
qed

section \<open>An example state\<close>

text \<open>One file, open as descriptor 3, with a schedule of events.\<close>

definition one_file :: "byte list \<Rightarrow> bool \<Rightarrow> io_event list \<Rightarrow> os" where
  "one_file bs app es =
     \<lparr>dir = [''f'' \<mapsto> 0], inode = (\<lambda>_. [])(0 := bs), next_ino = 1,
      fds = [3 \<mapsto> \<lparr>f_ino = 0, f_pos = 0, f_append = app\<rparr>], next_fd = 4, sched = es, stack_junk = 7,
      my_locks = (\<lambda>_ _. L_None), other_locks = [], my_flock = (\<lambda>_. L_None), other_flock = (\<lambda>_. L_None),
      pwrite_appends = False, test_env = False\<rparr>"

lemma one_file_simps [simp]:
  "fds (one_file bs app es) 3 = Some \<lparr>f_ino = 0, f_pos = 0, f_append = app\<rparr>"
  "file_of (one_file bs app es) 3 = bs" "sched (one_file bs app es) = es"
  "pwrite_appends (one_file bs app es) = False" "stack_junk (one_file bs app es) = 7"
  by (simp_all add: one_file_def file_of_def)

section \<open>Properties\<close>

text \<open>C25: Under every schedule of short transfers and failures, \<open>logdb_io_pwrite\<close> returns, stores a prefix
  of the buffer at the offset and nothing else anywhere, and returns the number of bytes missing
  from that prefix, which is 0 when no call fails or stalls.\<close>

theorem pwrite_stores_prefix:
  assumes "logdb_io_pwrite fd buf offs s = (left, s')" "fds s fd = Some f" "0 \<le> offs"
    and "\<not> (f_append f \<and> pwrite_appends s)"
  shows "left \<le> length buf \<and>
         file_of s' fd = write_at (file_of s fd) (nat offs) (take (length buf - left) buf) \<and>
         (\<forall>j. j \<noteq> f_ino f \<longrightarrow> inode s' j = inode s j) \<and> fds s' = fds s \<and> (quiet s \<longrightarrow> left = 0)"
proof -
  note sp = logdb_io_pwrite_spec [OF assms(1-3)]
  have s': "s' = set_file (resched s (sched s')) (f_ino f)
              (write_at (file_of s fd) (nat offs) (take (length buf - left) buf))"
    using sp(2) pwrite_pos_exact [OF assms(2,4)] by simp
  have "fds s' = fds s" by (subst s') simp
  moreover have "inode s' = (inode s)(f_ino f := write_at (file_of s fd) (nat offs) (take (length buf - left) buf))"
    by (subst s') simp
  ultimately show ?thesis using sp(1,3) assms(2) by (auto simp: file_of_open)
qed

theorem pwrite_stores_prefix_witness:
  "file_of (snd (logdb_io_pwrite 3 [1, 2, 3, 4] 2 (one_file [9, 9, 9] False [Short 2, Short 1, Fail]))) 3 = [9, 9, 1, 2, 3]"
proof -
  let ?s = "one_file [9, 9, 9] False [Short 2, Short 1, Fail]"
  have left: "fst (logdb_io_pwrite 3 [1, 2, 3, 4] 2 ?s) = 1" by code_simp
  obtain s' where e: "logdb_io_pwrite 3 [1, 2, 3, 4] 2 ?s = (1, s')"
    using left by (cases "logdb_io_pwrite 3 [1, 2, 3, 4] 2 ?s") simp
  with pwrite_stores_prefix [OF e] show ?thesis by (simp add: write_at_def)
qed



text \<open>A read of no bytes returns -1, the value that stands for the end of the file, exactly when the
  uninitialised local variable \<open>bytes\<close> happens to be 0: whether the value of a record with an empty
  value can be read depends on what the stack held before.\<close>

lemma empty_read_depends_on_stack:
  "logdb_io_pread fd 0 offs s = (if stack_junk s = 0 then -1 else 0, [], s) \<and>
   logdb_io_read fd 0 s = (if stack_junk s = 0 then -1 else 0, [], s)"
  by (simp_all add: logdb_io_pread_def logdb_io_read_def io_pread_loop.simps [of fd 0] io_read_loop.simps [of fd 0])

text \<open>C24: On a descriptor whose writes go where they should, with no failure scheduled, two writes to
  ranges that do not overlap both are read back, whatever short transfers cut them.\<close>

theorem stored_ranges_read_back:
  assumes "io_ok fd s" "xs \<noteq> []" "ys \<noteq> []" "logdb_io_pwrite fd xs (int a) s = (0, t)"
    and "logdb_io_pwrite fd ys (int b) t = (0, u)" "a + length xs \<le> b \<or> b + length ys \<le> a"
  shows "fst (logdb_io_pread fd (length xs) (int a) u) = 0 \<and> fst (snd (logdb_io_pread fd (length xs) (int a) u)) = xs \<and>
         fst (logdb_io_pread fd (length ys) (int b) u) = 0 \<and> fst (snd (logdb_io_pread fd (length ys) (int b) u)) = ys"
proof -
  have "io_put fd s a xs = Some t" "io_put fd t b ys = Some u"
    using assms(4,5) by (simp_all add: io_put_def)
  from pfile.two_writes [OF assms(1-3) this assms(6)] show ?thesis
    by (auto simp: io_get_def split: prod.splits if_splits)
qed

theorem stored_ranges_read_back_witness:
  "\<exists>t u. logdb_io_pwrite 3 [1, 2] 4 (one_file [] True [Short 1]) = (0, t) \<and> logdb_io_pwrite 3 [3] 0 t = (0, u) \<and>
         fst (snd (logdb_io_pread 3 2 4 u)) = [1, 2] \<and> fst (snd (logdb_io_pread 3 1 0 u)) = [3]"
proof -
  let ?s = "one_file [] True [Short 1]"
  have ok: "io_ok 3 ?s" by (simp add: io_ok_def quiet_def)
  have r: "fst (logdb_io_pwrite 3 [1, 2] 4 ?s) = 0" by code_simp
  then obtain t where t: "logdb_io_pwrite 3 [1, 2] (int 4) ?s = (0, t)"
    by (cases "logdb_io_pwrite 3 [1, 2] 4 ?s") simp
  have "fst (logdb_io_pwrite 3 [3] 0 (snd (logdb_io_pwrite 3 [1, 2] 4 ?s))) = 0" by code_simp
  with t obtain u where u: "logdb_io_pwrite 3 [3] (int 0) t = (0, u)"
    by (cases "logdb_io_pwrite 3 [3] 0 t") simp
  from stored_ranges_read_back [OF ok _ _ t u] t u show ?thesis by (auto simp: numeral_2_eq_2)
qed

end
