(* ===== verification/Log.thy ===== *)
theory Log
  imports Format IO
begin

text \<open>
  \<^verbatim>\<open>src/logdb_log.c\<close> without its locks: reading, opening and creating the log file, its entries,
  closing it, and merging it back into the database file.
\<close>

section \<open>State\<close>

datatype logdb_log_lock_type = LOCK_NONE | LOCK_READ | LOCK_WRITE

text \<open>A block of the lock list; the list itself stands for the chain of \<open>next\<close> pointers.\<close>

record logdb_log_lock_t =
  startindex :: "32 word"
  locks :: "int list"

record logdb_log_t =
  l_fd :: int
  l_path :: "string option"
  l_lock :: "logdb_log_lock_t list"

datatype logdb_log_read_mode = LOGDB_VALIDATE_ONLY | LOGDB_READ_NO_TRAILER | LOGDB_READ_HAS_TRAILER

text \<open>
  What \<open>logdb_log_read\<close> returns: a null pointer, the pointer \<open>(void *) 1\<close>, or a block with the
  header and the entries that follow it.
\<close>

datatype log_block = LB_Null | LB_Valid | LB_Block "byte list"

section \<open>Reading, opening and creating\<close>

definition logdb_log_new :: "int \<Rightarrow> string \<Rightarrow> os \<Rightarrow> logdb_log_t option \<times> os" where
  "logdb_log_new fd path s =
     (case sys_malloc s of (ok, s) \<Rightarrow>
        if \<not> ok then (None, s)
        else case sys_realpath path s of (rp, s) \<Rightarrow>
          (Some \<lparr>l_fd = fd, l_path = rp, l_lock = []\<rparr>, s))"

text \<open>Sizes are 64-bit: a start behind the end makes the size of the entries wrap around.\<close>

definition logdb_log_read :: "int \<Rightarrow> logdb_log_read_mode \<Rightarrow> os \<Rightarrow> (log_block \<times> os) outcome" where
  "logdb_log_read fd mode s =
     (case logdb_io_read fd sizeof_log_header s of (readresult, header, s) \<Rightarrow>
      if readresult > 0 then Done (LB_Null, s)
      else if readresult = -1 \<or> \<not> valid_header LOGDB_LOG_MAGIC header then Done (LB_Null, s)
      else if mode = LOGDB_VALIDATE_ONLY then Done (LB_Valid, s)
      else case sys_lseek fd 0 SEEK_CUR s of (start, s) \<Rightarrow>
      if start = -1 then Done (LB_Null, s)
      else case sys_lseek fd 0 SEEK_END s of (fin, s) \<Rightarrow>
      if fin = -1 then Done (LB_Null, s)
      else let fin = (if mode = LOGDB_READ_HAS_TRAILER then fin - int sizeof_trailer else fin);
               entrysize = (fin - start) mod 2 ^ 64 in
      case sys_malloc s of (ok, s) \<Rightarrow>
      if \<not> ok then Done (LB_Null, s)
      else if (int sizeof_log_header + entrysize) mod 2 ^ 64 < int sizeof_log_header then Fault OutOfBounds
      else if entrysize = 0 then Done (LB_Block header, s)
      else case sys_lseek fd start SEEK_SET s of (r, s) \<Rightarrow>
      if r = -1 then Done (LB_Null, s)
      else case logdb_io_read fd (nat entrysize) s of (r, entries, s) \<Rightarrow>
      if r \<noteq> 0 then Done (LB_Null, s) else Done (LB_Block (header @ entries), s))"

definition logdb_log_open :: "string \<Rightarrow> os \<Rightarrow> (logdb_log_t option \<times> os) outcome" where
  "logdb_log_open path s =
     (case sys_open path \<lparr>o_creat = False, o_excl = False, o_append = True\<rparr> s of (fd, s) \<Rightarrow>
      if fd = -1 then Done (None, s)
      else obind (logdb_log_read fd LOGDB_VALIDATE_ONLY s) (\<lambda>(b, s).
        if b = LB_Null then Done (None, sys_close fd s)
        else Done (logdb_log_new fd path s)))"

text \<open>
  The search for a log at the end of the database: None when the function gives up, otherwise the
  block that was read, if any, and the size to be written.
\<close>

definition log_create_find :: "int \<Rightarrow> int \<Rightarrow> os \<Rightarrow> ((byte list option \<times> int) option \<times> os) outcome" where
  "log_create_find dbfd dbsz s =
     (if dbsz \<ge> int LOGDB_MIN_SIZE then
        case sys_lseek dbfd (- int sizeof_trailer) SEEK_END s of (r, s) \<Rightarrow>
        if r = -1 then Done (None, s)
        else case logdb_io_read dbfd sizeof_trailer s of (r, bytes, s) \<Rightarrow>
        if r > 0 then Done (None, s)
        else let trailer = bytes @ le_bytes (sizeof_trailer - length bytes) (nat (stack_junk s));
                 log_offset = uint (of_le32 trailer) in
        case sys_lseek dbfd (- log_offset) SEEK_END s of (r, s) \<Rightarrow>
        if r = -1 then Done (None, s)
        else obind (logdb_log_read dbfd LOGDB_READ_HAS_TRAILER s) (\<lambda>(b, s).
          let header = (case b of LB_Block h \<Rightarrow> Some h | _ \<Rightarrow> None);
              logsz = (log_offset - int sizeof_trailer) mod 2 ^ 64
          in Done (Some (header, logsz), s))
      else Done (Some (None, int sizeof_log_header), s))"

definition logwritefail :: "int \<Rightarrow> string \<Rightarrow> os \<Rightarrow> (logdb_log_t option \<times> os) outcome" where
  "logwritefail logfd path s = Done (None, snd (sys_unlink path (sys_close logfd s)))"

text \<open>
  Creating the log file from the block: the entries first, the header last. Writing \<open>logsz\<close> bytes
  from a smaller block reads past its end.
\<close>

definition log_create_write :: "bool \<Rightarrow> string \<Rightarrow> byte list \<Rightarrow> int \<Rightarrow> os \<Rightarrow> (logdb_log_t option \<times> os) outcome" where
  "log_create_write dbg path header logsz s =
     (case sys_open path \<lparr>o_creat = True, o_excl = True, o_append = True\<rparr> s of (logfd, s) \<Rightarrow>
      if logfd = -1 then Done (None, s)
      else if logsz > int sizeof_log_header \<and> logsz > int (length header) then Fault OutOfBounds
      else case (if logsz > int sizeof_log_header
                 then logdb_io_pwrite logfd (drop sizeof_log_header (take (nat logsz) header)) (int sizeof_log_header) s
                 else (0, s)) of (left, s) \<Rightarrow>
      if left \<noteq> 0 then logwritefail logfd path s
      else if dbg \<and> test_env s then Done (None, sys_close logfd s)
      else case logdb_io_pwrite logfd (take sizeof_log_header header) 0 s of (left, s) \<Rightarrow>
      if left \<noteq> 0 then logwritefail logfd path s
      else Done (logdb_log_new logfd path s))"

definition logdb_log_create :: "bool \<Rightarrow> string \<Rightarrow> int \<Rightarrow> os \<Rightarrow> (logdb_log_t option \<times> os) outcome" where
  "logdb_log_create dbg path dbfd s =
     (case sys_lseek dbfd 0 SEEK_END s of (dbsz, s) \<Rightarrow>
      if dbsz = -1 then Done (None, s)
      else obind (log_create_find dbfd dbsz s) (\<lambda>(found, s).
        case found of
          None \<Rightarrow> Done (None, s)
        | Some (Some header, logsz) \<Rightarrow> log_create_write dbg path header logsz s
        | Some (None, logsz) \<Rightarrow>
            (case sys_malloc s of (ok, s) \<Rightarrow>
             if \<not> ok then Done (None, s) else log_create_write dbg path logdb_log_header logsz s)))"

section \<open>Entries\<close>

text \<open>The result is the offset of the entry or -1; the entry is the 16-bit \<open>len\<close>.\<close>

definition logdb_log_read_entry :: "logdb_log_t \<Rightarrow> 32 word \<Rightarrow> os \<Rightarrow> int \<times> 16 word \<times> os" where
  "logdb_log_read_entry log index s =
     (let offset = logdb_log_offset index in
      case logdb_io_pread (l_fd log) sizeof_log_entry offset s of (result, bytes, s) \<Rightarrow>
        (if result > 0 then -1 else if result = -1 then -1 else offset, of_le16 bytes, s))"

definition logdb_log_write_entry :: "logdb_log_t \<Rightarrow> 16 word \<Rightarrow> 32 word \<Rightarrow> os \<Rightarrow> int \<times> os" where
  "logdb_log_write_entry log entry index s =
     (let offset = logdb_log_offset index in
      case logdb_io_pwrite (l_fd log) (le16 entry) offset s of (left, s) \<Rightarrow>
        (if left > 0 then -1 else 0, s))"

section \<open>Closing\<close>

definition logdb_log_close :: "logdb_log_t \<Rightarrow> os \<Rightarrow> int \<times> os" where
  "logdb_log_close log s = (0, sys_close (l_fd log) s)"

fun decode_entries :: "byte list \<Rightarrow> 16 word list" where
  "decode_entries (a # b # bs) = of_le16 [a, b] # decode_entries bs"
| "decode_entries _ = []"

text \<open>
  The loop over the entries from the last one: \<open>minsz\<close> shrinks by the free bytes of each section,
  \<open>logsz\<close> by each empty entry, until an entry is not empty.
\<close>

fun trim_sections :: "16 word list \<Rightarrow> int \<Rightarrow> int \<Rightarrow> int \<times> int" where
  "trim_sections [] minsz logsz = (minsz, logsz)"
| "trim_sections (len # rest) minsz logsz =
     (let minsz = minsz - (LOGDB_SECTION_SIZE - uint len)
      in if len = 0 then trim_sections rest minsz (logsz - int sizeof_log_entry) else (minsz, logsz))"

definition failunlock :: "logdb_log_t \<Rightarrow> os \<Rightarrow> (int \<times> os) outcome" where
  "failunlock log s = Done (-1, snd (sys_fcntl_setlk (l_fd log) L_None 0 0 s))"

definition log_merge_write :: "logdb_log_t \<Rightarrow> int \<Rightarrow> byte list \<Rightarrow> int \<Rightarrow> int \<Rightarrow> os \<Rightarrow> (int \<times> os) outcome" where
  "log_merge_write log dbfd header minsz logsz s =
     (case sys_ftruncate dbfd minsz s of (r, s) \<Rightarrow>
      if r \<noteq> 0 then failunlock log s
      else case sys_lseek dbfd 0 SEEK_END s of (r, s) \<Rightarrow>
      if r = -1 then failunlock log s
      else let log_offset = word_of_int (logsz + int sizeof_trailer) :: 32 word in
      if int (length header) < logsz then Fault OutOfBounds
      else case logdb_io_write dbfd (take (nat logsz) header) s of (left, s) \<Rightarrow>
      if left \<noteq> 0 then failunlock log s
      else case logdb_io_write dbfd (le32 log_offset) s of (left, s) \<Rightarrow>
      if left \<noteq> 0 then failunlock log s
      else Done (logdb_log_close log (snd (sys_unlink (the (l_path log)) s))))"

definition logdb_log_close_merge :: "logdb_log_t \<Rightarrow> int \<Rightarrow> os \<Rightarrow> (int \<times> os) outcome" where
  "logdb_log_close_merge log dbfd s =
     (if l_path log = None then Done (-1, s)
      else obind (sys_fcntl_setlkw (l_fd log) L_Exclusive 0 0 s) (\<lambda>(r, s).
      if r = -1 then Done (-1, s)
      else case sys_lseek (l_fd log) 0 SEEK_SET s of (r, s) \<Rightarrow>
      if r = -1 then failunlock log s
      else obind (logdb_log_read (l_fd log) LOGDB_READ_NO_TRAILER s) (\<lambda>(b, s).
      case b of
        LB_Block header \<Rightarrow>
          (case sys_lseek (l_fd log) 0 SEEK_END s of (logsz, s) \<Rightarrow>
           if logsz = -1 then failunlock log s
           else let sections = logdb_log_index_from_offset logsz;
                    minsz = logdb_connection_offset sections;
                    entries = decode_entries (drop sizeof_log_header header);
                    (minsz, logsz) = trim_sections (rev (take (unat sections) entries)) minsz logsz
                in log_merge_write log dbfd header minsz logsz s)
      | _ \<Rightarrow> failunlock log s)))"

section \<open>The entries of a log file\<close>

definition log_count :: "byte list \<Rightarrow> nat" where
  "log_count f = (length f - sizeof_log_header) div sizeof_log_entry"

definition entry_at :: "byte list \<Rightarrow> nat \<Rightarrow> 16 word" where
  "entry_at f i = of_le16 (seg f (6 + 2 * i) 2)"

lemma log_count_less: "i < log_count f \<longleftrightarrow> 6 + 2 * i + 2 \<le> length f"
  by (auto simp: log_count_def size_defs)

lemma read_entry_spec:
  assumes "logdb_log_read_entry log i s = (off, len, s')" "fds s (l_fd log) = Some f"
  shows "s' = resched s (sched s')" "quiet s \<Longrightarrow> quiet s'"
    "off \<noteq> -1 \<Longrightarrow> off = logdb_log_offset i \<and> unat i < log_count (file_of s (l_fd log)) \<and>
                 len = entry_at (file_of s (l_fd log)) (unat i)"
    "quiet s \<Longrightarrow> off = -1 \<longleftrightarrow> log_count (file_of s (l_fd log)) \<le> unat i"
proof -
  let ?F = "file_of s (l_fd log)"
  obtain r bs where e: "logdb_io_pread (l_fd log) 2 (logdb_log_offset i) s = (r, bs, s')"
    and off: "off = (if r > 0 then -1 else if r = -1 then -1 else logdb_log_offset i)"
    and len: "len = of_le16 bs"
    using assms(1) by (auto simp: logdb_log_read_entry_def size_defs Let_def split: prod.splits)
  have pos: "0 \<le> logdb_log_offset i" using log_offset_ge [of i] by simp
  note sp = logdb_io_pread_spec [OF e assms(2) pos]
  show "s' = resched s (sched s')" "quiet s \<Longrightarrow> quiet s'" using sp(1,2) by auto
  have bs: "bs = seg ?F (6 + 2 * unat i) (length bs)" using sp(3) by (simp add: log_offset_nat)
  then have fits: "length bs \<le> length ?F - (6 + 2 * unat i)"
    by (metis length_seg min.cobounded2)
  show "off \<noteq> -1 \<Longrightarrow> off = logdb_log_offset i \<and> unat i < log_count ?F \<and> len = entry_at ?F (unat i)"
    using sp(4) off bs fits len by (auto simp: log_count_less entry_at_def split: if_splits)
  show "off = -1 \<longleftrightarrow> log_count ?F \<le> unat i" if "quiet s"
  proof -
    have "r \<le> 0" using sp(5) that by simp
    then have "r = 0 \<and> length bs = 2 \<or> r = -1 \<and> length bs < 2 \<and> length ?F \<le> 6 + 2 * unat i + length bs"
      using sp(4) by (auto simp: log_offset_nat)
    moreover have "(log_count ?F \<le> unat i) = (\<not> 6 + 2 * unat i + 2 \<le> length ?F)"
      using log_count_less [of "unat i" ?F] by auto
    ultimately show ?thesis using off fits log_offset_ge [of i] by auto
  qed
qed

lemma read_entry_quiet:
  assumes "quiet s" "fds s (l_fd log) = Some f" "unat i < log_count (file_of s (l_fd log))"
  shows "\<exists>s'. logdb_log_read_entry log i s =
              (logdb_log_offset i, entry_at (file_of s (l_fd log)) (unat i), s') \<and>
             s' = resched s (sched s') \<and> quiet s'"
proof -
  obtain off len s' where e: "logdb_log_read_entry log i s = (off, len, s')"
    by (cases "logdb_log_read_entry log i s")
  with read_entry_spec [OF e assms(2)] assms(1,3) show ?thesis
    by (cases "off = -1") auto
qed

text \<open>A write of two bytes is cut in half only by an event that transfers one byte.\<close>

lemma pwrite_two_whole:
  assumes "logdb_io_pwrite fd buf offs s = (left, s')" "fds s fd = Some f" "0 \<le> offs" "length buf = 2"
    and "Short 1 \<notin> set (sched s)"
  shows "left = 0 \<or> left = 2"
proof -
  obtain c t where call: "sys_pwrite fd buf offs s = (c, t)" by (cases "sys_pwrite fd buf offs s")
  have "event s \<noteq> Short 1" using assms(5) by (cases "sched s") (auto simp: event_def)
  then have "c \<noteq> 1"
    using call assms(2,3,4)
    by (auto simp: sys_pwrite_def pop_eq Let_def wr_chunk_def split: if_splits io_event.splits)
  moreover have "c = -1 \<or> 0 \<le> c \<and> nat c \<le> 2"
    using sys_pwrite_cases [OF call assms(2,3)] assms(4) by fastforce
  ultimately consider "c \<le> 0" | "c = 2" by linarith
  then show ?thesis
  proof cases
    case 1
    with assms(1,4) call show ?thesis
      by (simp add: logdb_io_pwrite_def io_pwrite_loop.simps [of fd buf])
  next
    case 2
    with assms(1,4) call show ?thesis
      by (simp add: logdb_io_pwrite_def io_pwrite_loop.simps [of fd buf] io_pwrite_loop.simps [of fd "[]"])
  qed
qed

lemma write_entry_spec:
  assumes "logdb_log_write_entry log v i s = (r, s')" "fds s (l_fd log) = Some f"
    and "\<not> (f_append f \<and> pwrite_appends s)"
  shows "\<exists>m\<le>2. s' = set_file (resched s (sched s')) (f_ino f)
                     (write_at (file_of s (l_fd log)) (6 + 2 * unat i) (take m (le16 v))) \<and>
                (r = 0 \<longleftrightarrow> m = 2) \<and> (r = 0 \<or> r = -1) \<and>
                (Short 1 \<notin> set (sched s) \<longrightarrow> m = 0 \<or> m = 2)"
    "quiet s \<Longrightarrow> r = 0 \<and> quiet s'"
proof -
  obtain left where e: "logdb_io_pwrite (l_fd log) (le16 v) (logdb_log_offset i) s = (left, s')"
    and r: "r = (if left > 0 then -1 else 0)"
    using assms(1) by (auto simp: logdb_log_write_entry_def Let_def split: prod.splits)
  have pos: "0 \<le> logdb_log_offset i" using log_offset_ge [of i] by simp
  note sp = logdb_io_pwrite_spec [OF e assms(2) pos]
  have "Short 1 \<notin> set (sched s) \<longrightarrow> left = 0 \<or> left = 2"
    using pwrite_two_whole [OF e assms(2) pos] by simp
  with sp r show "\<exists>m\<le>2. s' = set_file (resched s (sched s')) (f_ino f)
                     (write_at (file_of s (l_fd log)) (6 + 2 * unat i) (take m (le16 v))) \<and>
                (r = 0 \<longleftrightarrow> m = 2) \<and> (r = 0 \<or> r = -1) \<and>
                (Short 1 \<notin> set (sched s) \<longrightarrow> m = 0 \<or> m = 2)"
    by (intro exI [of _ "2 - left"])
       (auto simp: pwrite_pos_exact [OF assms(2,3)] log_offset_nat)
  show "quiet s \<Longrightarrow> r = 0 \<and> quiet s'" using sp(3) r by auto
qed

lemma entry_at_write:
  assumes "i < log_count f"
  shows "entry_at (write_at f (6 + 2 * i) (le16 v)) j = (if j = i then v else entry_at f j)"
proof (cases "j = i")
  case True
  have "seg (write_at f (6 + 2 * i) (le16 v)) (6 + 2 * i) 2 = le16 v"
    using seg_write_at_same [of f "6 + 2 * i" "le16 v"] by simp
  with True show ?thesis by (simp add: entry_at_def)
next
  case False
  then have "seg (write_at f (6 + 2 * i) (le16 v)) (6 + 2 * j) 2 = seg f (6 + 2 * j) 2"
    using assms by (cases "j < i") (auto simp: log_count_less seg_write_at_before seg_write_at_after)
  with False show ?thesis by (simp add: entry_at_def)
qed

lemma log_count_write:
  assumes "i < log_count f"
  shows "log_count (write_at f (6 + 2 * i) (le16 v)) = log_count f"
  using assms by (auto simp: log_count_def log_count_less length_write_at size_defs)

lemma entry_at_append: "i < log_count f \<Longrightarrow> entry_at (f @ g) i = entry_at f i"
  by (simp add: entry_at_def log_count_less seg_append_left)

section \<open>Log entries as an array\<close>

text \<open>
  The contract of the entries that the leases, the commit and the iterator use: an entry that was
  written is read back, the others keep their value. The client lemma is about two updates.
\<close>

locale entry_log =
  fixes get :: "'s \<Rightarrow> 'i \<Rightarrow> 'v option"
    and put :: "'s \<Rightarrow> 'i \<Rightarrow> 'v \<Rightarrow> 's option"
    and ok :: "'s \<Rightarrow> bool"
  assumes put_ok: "\<lbrakk>ok s; put s i v = Some s'\<rbrakk> \<Longrightarrow> ok s'"
    and get_put: "\<lbrakk>ok s; get s i = Some u; put s i v = Some s'\<rbrakk> \<Longrightarrow> get s' j = (if j = i then Some v else get s j)"
begin

lemma puts_commute:
  assumes "ok s" "i \<noteq> j" "get s i = Some a" "get s j = Some b"
    and "put s i u = Some s1" "put s1 j v = Some s2" "put s j v = Some t1" "put t1 i u = Some t2"
  shows "get s2 k = get t2 k"
proof -
  note s1 = get_put [OF assms(1,3,5)] and t1 = get_put [OF assms(1,4,7)]
  have ok: "ok s1" "ok t1" using assms(1,5,7) by (blast intro: put_ok)+
  have "get s1 j = Some b" "get t1 i = Some a" using s1 [of j] t1 [of i] assms(2-4) by simp_all
  from get_put [OF ok(1) this(1) assms(6), of k] get_put [OF ok(2) this(2) assms(8), of k] s1 [of k] t1 [of k]
  show ?thesis using assms(2) by (auto split: if_splits)
qed

lemma put_twice:
  assumes "ok s" "get s i = Some a" "put s i u = Some s1" "put s1 i v = Some s2"
  shows "get s2 j = (if j = i then Some v else get s j)"
proof -
  note s1 = get_put [OF assms(1-3)]
  have "ok s1" "get s1 i = Some u" using assms(1,3) s1 [of i] by (auto intro: put_ok)
  from get_put [OF this assms(4), of j] s1 [of j] show ?thesis by simp
qed

end

definition entry_get :: "logdb_log_t \<Rightarrow> os \<Rightarrow> 32 word \<Rightarrow> 16 word option" where
  "entry_get log s i = (case logdb_log_read_entry log i s of (off, len, _) \<Rightarrow> if off = -1 then None else Some len)"

definition entry_put :: "logdb_log_t \<Rightarrow> os \<Rightarrow> 32 word \<Rightarrow> 16 word \<Rightarrow> os option" where
  "entry_put log s i v = (case logdb_log_write_entry log v i s of (r, s') \<Rightarrow> if r = 0 then Some s' else None)"

lemma entry_get_ok:
  assumes "io_ok (l_fd log) s"
  shows "entry_get log s i =
    (if unat i < log_count (file_of s (l_fd log)) then Some (entry_at (file_of s (l_fd log)) (unat i)) else None)"
proof -
  from assms obtain f where f: "fds s (l_fd log) = Some f" "quiet s"
    by (auto simp: io_ok_def split: option.splits)
  obtain off len s' where e: "logdb_log_read_entry log i s = (off, len, s')"
    by (cases "logdb_log_read_entry log i s")
  with read_entry_spec [OF e f(1)] f(2) show ?thesis by (auto simp: entry_get_def)
qed

lemma entry_put_is_io_put:
  "entry_put log s i v = io_put (l_fd log) s (6 + 2 * unat i) (le16 v)"
proof -
  have "logdb_log_offset i = int (6 + 2 * unat i)"
    using log_offset_nat [of i] log_offset_ge [of i] by linarith
  then show ?thesis
    by (auto simp: entry_put_def io_put_def logdb_log_write_entry_def Let_def split: prod.splits)
qed

interpretation logfile: entry_log "entry_get log" "entry_put log" "\<lambda>s. io_ok (l_fd log) s" for log
proof unfold_locales
  fix s i v s'
  assume "io_ok (l_fd log) s" "entry_put log s i v = Some s'"
  then show "io_ok (l_fd log) s'"
    by (auto simp: entry_put_is_io_put intro: pfile.wr_ok)
next
  fix s i u v s' j
  assume h: "io_ok (l_fd log) s" "entry_get log s i = Some u" "entry_put log s i v = Some s'"
  let ?F = "file_of s (l_fd log)"
  from h(1,2) have i: "unat i < log_count ?F" by (auto simp: entry_get_ok split: if_splits)
  from io_putD [OF h(1)] h(3) have s': "io_ok (l_fd log) s'"
    "file_of s' (l_fd log) = write_at ?F (6 + 2 * unat i) (le16 v)"
    by (auto simp: entry_put_is_io_put)
  show "entry_get log s' j = (if j = i then Some v else entry_get log s j)"
    using i by (auto simp: entry_get_ok h(1) s' log_count_write entry_at_write dest: unsigned_word_eqI)
qed

section \<open>Properties\<close>

text \<open>C27: With no failure scheduled, an entry that is written is the one that is read afterwards, every other
  entry is read as before, and a second write of the same entry wins. The log neither grows nor
  shrinks.\<close>

theorem entry_writes_are_independent:
  assumes "io_ok (l_fd log) s" "unat i < log_count (file_of s (l_fd log))"
    and "logdb_log_write_entry log u i s = (0, s1)" "logdb_log_write_entry log v i s1 = (0, s2)"
  shows "entry_get log s2 j = (if j = i then Some v else entry_get log s j)"
proof -
  have "entry_put log s i u = Some s1" "entry_put log s1 i v = Some s2"
    using assms(3,4) by (simp_all add: entry_put_def)
  then show ?thesis
    using logfile.put_twice [of log s i _ u s1 v s2 j] assms(1,2) by (simp add: entry_get_ok)
qed

theorem entry_writes_are_independent_witness:
  "\<exists>s1 s2. logdb_log_write_entry \<lparr>l_fd = 3, l_path = None, l_lock = []\<rparr> 8 1
             (one_file (logdb_log_header @ [1, 0, 2, 0]) True []) = (0, s1) \<and>
           logdb_log_write_entry \<lparr>l_fd = 3, l_path = None, l_lock = []\<rparr> 9 1 s1 = (0, s2) \<and>
           entry_get \<lparr>l_fd = 3, l_path = None, l_lock = []\<rparr> s2 1 = Some 9 \<and>
           entry_get \<lparr>l_fd = 3, l_path = None, l_lock = []\<rparr> s2 0 = Some 1"
proof -
  let ?log = "\<lparr>l_fd = 3, l_path = None, l_lock = []\<rparr> :: logdb_log_t"
  let ?s = "one_file (logdb_log_header @ [1, 0, 2, 0]) True []"
  have ok: "io_ok (l_fd ?log) ?s" by (simp add: io_ok_def quiet_def)
  have i: "unat (1 :: 32 word) < log_count (file_of ?s (l_fd ?log))" by (simp add: log_count_def size_defs)
  obtain s1 where s1: "logdb_log_write_entry ?log 8 1 ?s = (0, s1)"
    using write_entry_spec(2) [of ?log 8 1 ?s] by (cases "logdb_log_write_entry ?log 8 1 ?s") (simp add: quiet_def)
  have ok1: "io_ok (l_fd ?log) s1"
    using logfile.put_ok [of ?log ?s 1 8 s1] ok s1 by (simp add: entry_put_def)
  then obtain f where "fds s1 3 = Some f" "\<not> (f_append f \<and> pwrite_appends s1)" "quiet s1"
    by (auto simp: io_ok_def split: option.splits)
  then obtain s2 where s2: "logdb_log_write_entry ?log 9 1 s1 = (0, s2)"
    using write_entry_spec(2) [of ?log 9 1 s1] by (cases "logdb_log_write_entry ?log 9 1 s1") simp
  have "entry_get ?log ?s 0 = Some 1" by code_simp
  with s1 s2 entry_writes_are_independent [OF ok i s1 s2, of 0] entry_writes_are_independent [OF ok i s1 s2, of 1]
  show ?thesis by simp
qed

text \<open>C38: On a system where \<open>pwrite\<close> appends under \<open>O_APPEND\<close>, as the log file is opened, updating an
  entry changes no entry at all: it adds a new one at the end, with no error.\<close>

theorem linux_pwrite_appends_entry:
  assumes "logdb_log_write_entry log v i s = (r, s')" "fds s (l_fd log) = Some f" "f_append f"
    and "pwrite_appends s" "quiet s" "length (file_of s (l_fd log)) = 6 + 2 * n" "k < n"
  shows "r = 0 \<and> file_of s' (l_fd log) = file_of s (l_fd log) @ le16 v \<and>
         log_count (file_of s' (l_fd log)) = Suc n \<and>
         entry_at (file_of s' (l_fd log)) k = entry_at (file_of s (l_fd log)) k"
proof -
  obtain left where e: "logdb_io_pwrite (l_fd log) (le16 v) (logdb_log_offset i) s = (left, s')"
    and r: "r = (if left > 0 then -1 else 0)"
    using assms(1) by (auto simp: logdb_log_write_entry_def Let_def split: prod.splits)
  have pos: "0 \<le> logdb_log_offset i" using log_offset_ge [of i] by simp
  note sp = logdb_io_pwrite_spec [OF e assms(2) pos]
  have left: "left = 0" using sp(3) assms(5) by simp
  have s': "s' = set_file (resched s (sched s')) (f_ino f) (file_of s (l_fd log) @ le16 v)"
    using sp(2) left assms(2-4) by (simp add: pwrite_pos_def write_at_end)
  have "fds s' (l_fd log) = Some f" by (subst s') (simp add: assms(2))
  moreover have "inode s' (f_ino f) = file_of s (l_fd log) @ le16 v" by (subst s') simp
  ultimately have "file_of s' (l_fd log) = file_of s (l_fd log) @ le16 v" by (simp add: file_of_open)
  with r left assms(6,7) show ?thesis by (simp add: log_count_def size_defs entry_at_append)
qed

theorem linux_pwrite_appends_entry_witness:
  "file_of (snd (logdb_log_write_entry \<lparr>l_fd = 3, l_path = None, l_lock = []\<rparr> 9 0
     (one_file (logdb_log_header @ [1, 0]) True [] \<lparr>pwrite_appends := True\<rparr>))) 3 = logdb_log_header @ [1, 0, 9, 0]"
proof -
  let ?log = "\<lparr>l_fd = 3, l_path = None, l_lock = []\<rparr> :: logdb_log_t"
  let ?s = "one_file (logdb_log_header @ [1, 0]) True [] \<lparr>pwrite_appends := True\<rparr>"
  obtain r s' where e: "logdb_log_write_entry ?log 9 0 ?s = (r, s')"
    by (cases "logdb_log_write_entry ?log 9 0 ?s")
  have "file_of ?s 3 = logdb_log_header @ [1, 0]" "fds ?s 3 = Some \<lparr>f_ino = 0, f_pos = 0, f_append = True\<rparr>"
    "quiet ?s" by (simp_all add: one_file_def file_of_def quiet_def)
  moreover have "le16 9 = [9, 0]" by code_simp
  ultimately show ?thesis using linux_pwrite_appends_entry [OF e, of _ 1 0] e by simp
qed

end
