(* ===== verification/Lock.thy ===== *)
theory Lock
  imports Log
begin

text \<open>
  The locks of \<^verbatim>\<open>src/logdb_log.c\<close>: a reader/writer lock per log entry inside the process, kept in
  a linked list of blocks of 128, and an \<open>fcntl\<close> lock on the entry between processes. The model
  runs one call at a time, so each compare-and-exchange succeeds at its first attempt.
\<close>

section \<open>The list of blocks\<close>

definition new_block :: "32 word \<Rightarrow> logdb_log_lock_t" where
  "new_block index = \<lparr>startindex = index, locks = replicate 128 0\<rparr>"

text \<open>
  The search for the block of an index. A block is inserted at the end of the list or in front of
  the first block that starts later; None when the allocation fails. The result is the position of
  the block and the list.
\<close>

fun find_block :: "32 word \<Rightarrow> logdb_log_lock_t list \<Rightarrow> os \<Rightarrow> (nat \<times> logdb_log_lock_t list) option \<times> os" where
  "find_block index [] s =
     (case sys_malloc s of (ok, s) \<Rightarrow> (if ok then Some (0, [new_block index]) else None, s))"
| "find_block index (b # bs) s =
     (if startindex b > index then
        (case sys_malloc s of (ok, s) \<Rightarrow> (if ok then Some (0, new_block index # b # bs) else None, s))
      else if index - startindex b > 127 then
        (case find_block index bs s of (r, s) \<Rightarrow> (map_option (\<lambda>(k, bs'). (Suc k, b # bs')) r, s))
      else (Some (0, b # bs), s))"

definition lock_slot :: "logdb_log_lock_t \<Rightarrow> 32 word \<Rightarrow> nat" where
  "lock_slot b index = unat (index - startindex b)"

definition set_lock :: "logdb_log_lock_t list \<Rightarrow> nat \<Rightarrow> nat \<Rightarrow> int \<Rightarrow> logdb_log_lock_t list" where
  "set_lock bs k i v = bs[k := (bs ! k)\<lparr>locks := (locks (bs ! k))[i := v]\<rparr>]"

text \<open>The search of the unlocking function, which expects to find a block.\<close>

fun unlock_block :: "32 word \<Rightarrow> logdb_log_lock_t list \<Rightarrow> nat outcome" where
  "unlock_block index [] = Fault (BadPtr 0)"
| "unlock_block index (b # bs) =
     (if startindex b + 127 < index then obind (unlock_block index bs) (\<lambda>k. Done (Suc k)) else Done 0)"

definition logdb_log_inproc_unlock :: "logdb_log_t \<Rightarrow> 32 word \<Rightarrow> logdb_log_lock_type \<Rightarrow> logdb_log_t outcome" where
  "logdb_log_inproc_unlock log index type =
     obind (unlock_block index (l_lock log)) (\<lambda>k.
       let b = l_lock log ! k; i = lock_slot b index; v = locks b ! i in
       if type = LOCK_NONE then Fault Abort
       else if i \<ge> length (locks b) then Fault OutOfBounds
       else Done (log\<lparr>l_lock := set_lock (l_lock log) k i (if type = LOCK_READ then v - 1 else v + 1)\<rparr>))"

text \<open>
  0 is success, -1 an allocation failure, -2 a lock that is held in this process, -3 a failure of
  the \<open>fcntl\<close> lock.
\<close>

definition logdb_log_lock :: "logdb_log_t \<Rightarrow> 32 word \<Rightarrow> logdb_log_lock_type \<Rightarrow> os \<Rightarrow> (int \<times> logdb_log_t \<times> os) outcome" where
  "logdb_log_lock log index type s =
     (case find_block index (l_lock log) s of (found, s) \<Rightarrow>
      case found of
        None \<Rightarrow> Done (-1, log, s)
      | Some (k, bs) \<Rightarrow>
          let i = lock_slot (bs ! k) index; value = locks (bs ! k) ! i;
              take_lock = (\<lambda>v mode.
                let log = log\<lparr>l_lock := set_lock bs k i v\<rparr> in
                case sys_fcntl_setlk (l_fd log) mode (logdb_log_offset index) sizeof_log_entry s of (r, s) \<Rightarrow>
                if r = -1 then obind (logdb_log_inproc_unlock log index type) (\<lambda>log. Done (-3, log, s))
                else Done (0, log, s))
          in if type = LOCK_READ \<and> value \<ge> 0 then take_lock (value + 1) L_Shared
             else if type = LOCK_WRITE \<and> value = 0 then take_lock (-1) L_Exclusive
             else Done (-2, log\<lparr>l_lock := bs\<rparr>, s))"

definition logdb_log_unlock :: "logdb_log_t \<Rightarrow> 32 word \<Rightarrow> logdb_log_lock_type \<Rightarrow> os \<Rightarrow> (logdb_log_t \<times> os) outcome" where
  "logdb_log_unlock log index type s =
     (case sys_fcntl_setlk (l_fd log) L_None (logdb_log_offset index) sizeof_log_entry s of (_, s) \<Rightarrow>
      obind (logdb_log_inproc_unlock log index type) (\<lambda>log. Done (log, s)))"

section \<open>Lists of disjoint blocks\<close>

definition covers :: "logdb_log_lock_t \<Rightarrow> 32 word \<Rightarrow> bool" where
  "covers b i \<longleftrightarrow> startindex b \<le> i \<and> i - startindex b \<le> 127"

fun blocks_ok :: "logdb_log_lock_t list \<Rightarrow> bool" where
  "blocks_ok [] = True"
| "blocks_ok (b # bs) =
     (length (locks b) = 128 \<and> unat (startindex b) + 127 < 4294967296 \<and>
      list_all (\<lambda>c. unat (startindex b) + 127 < unat (startindex c)) bs \<and> blocks_ok bs)"

definition lock_value :: "logdb_log_lock_t list \<Rightarrow> 32 word \<Rightarrow> int" where
  "lock_value bs i = (case find (\<lambda>b. covers b i) bs of None \<Rightarrow> 0 | Some b \<Rightarrow> locks b ! lock_slot b i)"

text \<open>
  An index may be locked if a block covers it already, or if the block that the search will insert
  overlaps no other one. The program does not check this.
\<close>

definition safe_index :: "logdb_log_lock_t list \<Rightarrow> 32 word \<Rightarrow> bool" where
  "safe_index bs i \<longleftrightarrow>
     list_ex (\<lambda>b. covers b i) bs \<or>
     unat i + 127 < 4294967296 \<and>
     list_all (\<lambda>b. unat (startindex b) \<le> unat i \<or> unat i + 127 < unat (startindex b)) bs"

lemma covers_nat: "covers b i \<longleftrightarrow> unat (startindex b) \<le> unat i \<and> unat i \<le> unat (startindex b) + 127"
  by (auto simp: covers_def word_le_nat_alt unat_sub_if_size)

lemma lock_slot_nat: "covers b i \<Longrightarrow> lock_slot b i = unat i - unat (startindex b)"
  by (simp add: covers_nat lock_slot_def unat_sub_if_size)

lemma covers_inj: "covers b i \<Longrightarrow> covers b j \<Longrightarrow> lock_slot b i = lock_slot b j \<longleftrightarrow> i = j"
  by (auto simp: lock_slot_nat covers_nat dest!: eq_diff_iff [THEN iffD1, rotated 2] intro: unsigned_word_eqI)

lemma lock_slot_less: "covers b i \<Longrightarrow> lock_slot b i < 128"
  by (simp only: lock_slot_nat) (simp only: covers_nat, linarith)

lemma blocks_apart:
  "blocks_ok bs \<Longrightarrow> j < k \<Longrightarrow> k < length bs \<Longrightarrow> unat (startindex (bs ! j)) + 127 < unat (startindex (bs ! k))"
proof (induction bs arbitrary: j k)
  case (Cons b bs)
  then obtain k' where "k = Suc k'" by (cases k) auto
  with Cons show ?case by (cases j) (auto simp: list_all_length)
qed simp

lemma blocks_ok_nth:
  "blocks_ok bs \<Longrightarrow> k < length bs \<Longrightarrow> length (locks (bs ! k)) = 128 \<and> unat (startindex (bs ! k)) + 127 < 4294967296"
  by (induction bs arbitrary: k) (auto simp: nth_Cons split: nat.splits)

lemma covers_unique:
  assumes "blocks_ok bs" "j < length bs" "k < length bs" "covers (bs ! j) i" "covers (bs ! k) i"
  shows "j = k"
  using blocks_apart [OF assms(1), of j k] blocks_apart [OF assms(1), of k j] assms(2-5)
  by (cases j k rule: linorder_cases) (auto simp: covers_nat)

lemma find_covers:
  "blocks_ok bs \<Longrightarrow> k < length bs \<Longrightarrow> covers (bs ! k) i \<Longrightarrow> find (\<lambda>b. covers b i) bs = Some (bs ! k)"
proof (induction bs arbitrary: k)
  case (Cons b bs)
  show ?case
  proof (cases k)
    case (Suc k')
    then have "\<not> covers b i"
      using Cons.prems covers_unique [OF Cons.prems(1), of 0 k i] by auto
    with Suc Cons show ?thesis by simp
  qed (use Cons in simp)
qed simp

lemma lock_value_covered:
  "blocks_ok bs \<Longrightarrow> k < length bs \<Longrightarrow> covers (bs ! k) i \<Longrightarrow> lock_value bs i = locks (bs ! k) ! lock_slot (bs ! k) i"
  by (simp add: lock_value_def find_covers)

section \<open>The searches\<close>

lemma covers_new: "unat i + 127 < 4294967296 \<Longrightarrow> covers (new_block i) j \<Longrightarrow> locks (new_block i) ! lock_slot (new_block i) j = 0"
  using lock_slot_less [of "new_block i" j] by (simp add: new_block_def)

lemma covers_self: "covers (new_block i) i"
  by (simp add: covers_nat new_block_def)

lemma find_block_keeps:
  assumes "find_block i bs s = (r, s')"
  shows "(s' = s \<or> s' = popped s) \<and> (r = None \<longrightarrow> event s = Fail)"
  using assms
  by (induction i bs s arbitrary: r s' rule: find_block.induct)
     (auto simp: sys_malloc_def pop_eq Let_def split: if_splits prod.splits)

lemma find_block_ok:
  assumes "find_block i bs s = (Some (k, bs'), s')" "blocks_ok bs" "safe_index bs i"
  shows "blocks_ok bs' \<and> k < length bs' \<and> covers (bs' ! k) i \<and> (\<forall>j. lock_value bs' j = lock_value bs j) \<and>
         (\<forall>c \<in> set bs'. c \<in> set bs \<or> c = new_block i) \<and> set bs \<subseteq> set bs'"
  using assms
proof (induction i bs s arbitrary: k bs' s' rule: find_block.induct)
  case (1 i s)
  then have "bs' = [new_block i]" "k = 0" by (auto simp: sys_malloc_def pop_eq Let_def split: if_splits)
  with "1.prems" show ?case
    by (auto simp: safe_index_def covers_self lock_value_def covers_new) (simp_all add: new_block_def)
next
  case (2 i b bs s)
  consider "startindex b > i" | "\<not> startindex b > i" "i - startindex b > 127" | "covers b i"
    by (force simp: covers_def)
  then show ?case
  proof cases
    case 1
    then have r: "bs' = new_block i # b # bs" "k = 0"
      using "2.prems"(1) by (auto simp: sys_malloc_def pop_eq Let_def split: if_splits)
    have later: "\<not> covers c i" if "c \<in> set (b # bs)" for c
      using that 1 "2.prems"(2) by (auto simp: covers_nat word_less_nat_alt list_all_iff)
    then have far: "unat i + 127 < 4294967296" "list_all (\<lambda>c. unat i + 127 < unat (startindex c)) (b # bs)"
      using "2.prems"(2,3) 1 by (auto simp: safe_index_def list_all_iff list_ex_iff word_less_nat_alt)
    have "lock_value bs' j = lock_value (b # bs) j" for j
    proof (cases "covers (new_block i) j")
      case True
      then have "\<forall>c \<in> set (b # bs). \<not> covers c j"
        using far(2) by (auto simp: covers_nat list_all_iff new_block_def)
      then have "find (\<lambda>c. covers c j) (b # bs) = None" by (simp only: find_None_iff) blast
      with True show ?thesis using covers_new [OF far(1) True]
        by (simp only: r lock_value_def find.simps(2) [of _ "new_block i"] option.case if_True)
    qed (simp add: r lock_value_def)
    with far r "2.prems"(2) show ?thesis by (auto simp: covers_self) (simp_all add: new_block_def)
  next
    case 2
    then obtain k' bs'' where r: "find_block i bs s = (Some (k', bs''), s')" "k = Suc k'" "bs' = b # bs''"
      using "2.prems"(1) by (auto split: prod.splits)
    have nb: "\<not> covers b i" using 2 by (simp add: covers_def linorder_not_le)
    have lt: "unat (startindex b) + 127 < unat i"
      using nb 2(1) by (auto simp: covers_nat word_less_nat_alt)
    have "safe_index bs i" using "2.prems"(3) nb by (auto simp: safe_index_def)
    with "2.IH" [OF _ _ r(1)] 2 "2.prems"(2) have IH: "blocks_ok bs''" "k' < length bs''" "covers (bs'' ! k') i"
      "\<forall>j. lock_value bs'' j = lock_value bs j" "\<forall>c \<in> set bs''. c \<in> set bs \<or> c = new_block i" "set bs \<subseteq> set bs''"
      by auto
    have "list_all (\<lambda>c. unat (startindex b) + 127 < unat (startindex c)) bs''"
      using IH(5) "2.prems"(2) lt by (auto simp: list_all_iff new_block_def)
    with IH r "2.prems"(2) show ?thesis by (auto simp: lock_value_def)
  next
    case 3
    then have "bs' = b # bs" "k = 0"
      using "2.prems"(1) by (auto simp: covers_def split: if_splits)
    with 3 "2.prems"(2) show ?thesis by simp
  qed
qed

lemma unlock_block_ok:
  "blocks_ok bs \<Longrightarrow> k < length bs \<Longrightarrow> covers (bs ! k) i \<Longrightarrow> unlock_block i bs = Done k"
proof (induction bs arbitrary: k)
  case (Cons b bs)
  have sum: "unat (startindex b + 127) = unat (startindex b) + 127"
    using Cons.prems(1) by (simp add: unat_plus_if')
  show ?case
  proof (cases k)
    case 0
    with Cons.prems show ?thesis by (simp add: covers_nat word_less_nat_alt sum)
  next
    case (Suc k')
    then have "unat (startindex b) + 127 < unat i"
      using blocks_apart [OF Cons.prems(1), of 0 k] Cons.prems(2,3) by (simp add: covers_nat)
    with Suc Cons show ?thesis by (simp add: word_less_nat_alt sum)
  qed
qed simp

section \<open>Setting a lock\<close>

lemma startindex_set_lock [simp]:
  "k < length bs \<Longrightarrow> startindex (set_lock bs k n v ! j) = startindex (bs ! j)"
  "length (set_lock bs k n v) = length bs"
  by (cases "j = k"; simp add: set_lock_def)+

lemma covers_set_lock [simp]:
  "k < length bs \<Longrightarrow> covers (set_lock bs k n v ! j) i = covers (bs ! j) i"
  "k < length bs \<Longrightarrow> lock_slot (set_lock bs k n v ! j) i = lock_slot (bs ! j) i"
  by (simp_all add: covers_nat lock_slot_def)

lemma blocks_ok_set_lock: "blocks_ok bs \<Longrightarrow> k < length bs \<Longrightarrow> blocks_ok (set_lock bs k n v)"
proof (induction bs arbitrary: k)
  case (Cons b bs)
  then show ?case
    by (cases k) (auto simp: set_lock_def list_all_length nth_list_update)
qed simp

lemma lock_value_set_lock:
  assumes "blocks_ok bs" "k < length bs" "covers (bs ! k) i"
  shows "lock_value (set_lock bs k (lock_slot (bs ! k) i) v) j = (if j = i then v else lock_value bs j)"
proof (cases "\<exists>m < length bs. covers (bs ! m) j")
  case True
  then obtain m where m: "m < length bs" "covers (bs ! m) j" by blast
  let ?bs = "set_lock bs k (lock_slot (bs ! k) i) v"
  have "lock_value ?bs j = locks (?bs ! m) ! lock_slot (bs ! m) j"
    using lock_value_covered [OF blocks_ok_set_lock [OF assms(1,2)], where k = m and i = j] m assms(2) by simp
  also have "\<dots> = (if j = i then v else locks (bs ! m) ! lock_slot (bs ! m) j)"
    using covers_inj [of "bs ! m" i j] covers_unique [OF assms(1,2) m(1), of i] lock_slot_less [OF m(2)]
      blocks_ok_nth [OF assms(1) m(1)] assms m
    by (auto simp: set_lock_def nth_list_update)
  finally show ?thesis using lock_value_covered [OF assms(1) m] by simp
next
  case False
  then have "j \<noteq> i" "find (\<lambda>b. covers b j) bs = None" using assms by (auto simp: find_None_iff in_set_conv_nth)
  moreover have "find (\<lambda>b. covers b j) (set_lock bs k (lock_slot (bs ! k) i) v) = None"
    using False assms(2) by (auto simp: find_None_iff in_set_conv_nth)
  ultimately show ?thesis by (simp add: lock_value_def)
qed

section \<open>The operations\<close>

definition covered :: "logdb_log_t \<Rightarrow> 32 word \<Rightarrow> bool" where
  "covered log i \<longleftrightarrow> (\<exists>b \<in> set (l_lock log). covers b i)"

text \<open>What taking and giving back a lock of a type adds to the counter of the index.\<close>

definition lock_delta :: "logdb_log_lock_type \<Rightarrow> int" where
  "lock_delta type = (case type of LOCK_READ \<Rightarrow> 1 | LOCK_WRITE \<Rightarrow> -1 | LOCK_NONE \<Rightarrow> 0)"

definition lock_allowed :: "logdb_log_lock_type \<Rightarrow> int \<Rightarrow> bool" where
  "lock_allowed type v \<longleftrightarrow> type = LOCK_READ \<and> 0 \<le> v \<or> type = LOCK_WRITE \<and> v = 0"

lemma inproc_unlock_ok:
  assumes "blocks_ok (l_lock log)" "k < length (l_lock log)" "covers (l_lock log ! k) i" "type \<noteq> LOCK_NONE"
  shows "logdb_log_inproc_unlock log i type =
           Done (log\<lparr>l_lock := set_lock (l_lock log) k (lock_slot (l_lock log ! k) i)
                                 (lock_value (l_lock log) i - lock_delta type)\<rparr>)"
  using assms lock_slot_less [OF assms(3)] blocks_ok_nth [OF assms(1,2)]
  by (cases type) (auto simp: logdb_log_inproc_unlock_def unlock_block_ok lock_value_covered lock_delta_def Let_def)

lemma setlk_result: "sys_fcntl_setlk fd m a n s = (r, s') \<Longrightarrow> r = 0 \<or> r = -1"
  by (auto simp: sys_fcntl_setlk_def pop_eq Let_def split: option.splits if_splits)

lemma bex_set_nth: "(\<exists>b \<in> set bs. P b) \<longleftrightarrow> (\<exists>m < length bs. P (bs ! m))"
  by (metis in_set_conv_nth)

lemma set_lock_covered: "k < length bs \<Longrightarrow> (\<exists>b \<in> set (set_lock bs k n v). covers b i) = (\<exists>b \<in> set bs. covers b i)"
  by (simp only: bex_set_nth startindex_set_lock covers_set_lock)

lemma logdb_log_lock_spec:
  assumes "blocks_ok (l_lock log)" "safe_index (l_lock log) i" "type \<noteq> LOCK_NONE"
  shows "\<exists>r log' s'. logdb_log_lock log i type s = Done (r, log', s') \<and>
           l_fd log' = l_fd log \<and> l_path log' = l_path log \<and> blocks_ok (l_lock log') \<and>
           (\<forall>j. covered log j \<longrightarrow> covered log' j) \<and>
           (r = 0 \<longrightarrow> covered log' i \<and> lock_allowed type (lock_value (l_lock log) i)) \<and>
           (\<forall>j. lock_value (l_lock log') j =
                 lock_value (l_lock log) j + (if r = 0 \<and> j = i then lock_delta type else 0)) \<and>
           same_data s s'"
proof -
  obtain found s1 where f: "find_block i (l_lock log) s = (found, s1)" by fastforce
  have same: "same_data s s1" using find_block_keeps [OF f] by auto
  show ?thesis
  proof (cases found)
    case None
    with f same assms(1) show ?thesis by (simp add: logdb_log_lock_def)
  next
    case (Some kb)
    obtain k bs where kb: "kb = (k, bs)" by fastforce
    from find_block_ok [OF f [unfolded Some kb] assms(1,2)]
    have bs: "blocks_ok bs" "k < length bs" "covers (bs ! k) i" "\<forall>j. lock_value bs j = lock_value (l_lock log) j"
      "set (l_lock log) \<subseteq> set bs" by auto
    have cov: "\<forall>j. covered log j \<longrightarrow> (\<exists>b \<in> set bs. covers b j)" using bs(5) by (auto simp: covered_def)
    let ?v = "lock_value (l_lock log) i"
    have v: "locks (bs ! k) ! lock_slot (bs ! k) i = ?v" using lock_value_covered [OF bs(1-3)] bs(4) by simp
    show ?thesis
    proof (cases "lock_allowed type ?v")
      case False
      with f Some kb v bs same assms(3) cov show ?thesis
        by (auto simp: logdb_log_lock_def Let_def lock_allowed_def covered_def)
    next
      case True
      let ?n = "lock_slot (bs ! k) i"
      let ?v' = "?v + lock_delta type"
      let ?mode = "if type = LOCK_READ then L_Shared else L_Exclusive"
      let ?log = "log\<lparr>l_lock := set_lock bs k ?n ?v'\<rparr>"
      obtain r s2 where setlk: "sys_fcntl_setlk (l_fd log) ?mode (logdb_log_offset i) sizeof_log_entry s1 = (r, s2)"
        by fastforce
      have run: "logdb_log_lock log i type s =
          (if r = -1 then obind (logdb_log_inproc_unlock ?log i type) (\<lambda>log. Done (-3, log, s2)) else Done (0, ?log, s2))"
        using True f Some kb v assms(3) setlk
        by (cases type) (simp_all add: logdb_log_lock_def Let_def lock_allowed_def lock_delta_def)
      have s2: "same_data s s2" using same sys_setlk_same [OF setlk] by (rule same_data_trans)
      have ok: "blocks_ok (l_lock ?log)" "k < length (l_lock ?log)" "covers (l_lock ?log ! k) i"
        using bs blocks_ok_set_lock by simp_all
      have val: "lock_value (l_lock ?log) j = lock_value (l_lock log) j + (if j = i then lock_delta type else 0)" for j
        using lock_value_set_lock [OF bs(1-3)] bs(4) by simp
      have covi: "covered ?log j \<longleftrightarrow> (\<exists>b \<in> set bs. covers b j)" for j
        using bs(2) by (simp add: covered_def set_lock_covered)
      show ?thesis
      proof (cases "r = -1")
        case False
        have "\<exists>b \<in> set bs. covers b i" using bs(2,3) by (auto simp: bex_set_nth)
        with False run setlk s2 ok val True cov covi show ?thesis by simp
      next
        case fail: True
        let ?bs2 = "set_lock (l_lock ?log) k ?n (lock_value (l_lock ?log) i - lock_delta type)"
        have "logdb_log_inproc_unlock ?log i type = Done (?log\<lparr>l_lock := ?bs2\<rparr>)"
          using inproc_unlock_ok [OF ok assms(3)] bs(2) by simp
        moreover have "blocks_ok ?bs2" by (rule blocks_ok_set_lock [OF ok(1,2)])
        moreover have "lock_value ?bs2 j = lock_value (l_lock log) j" for j
          using lock_value_set_lock [OF ok] val bs(2) by simp
        moreover have "(\<exists>b \<in> set ?bs2. covers b j) \<longleftrightarrow> (\<exists>b \<in> set bs. covers b j)" for j
          using set_lock_covered [OF ok(2)] covi [of j] by (simp add: covered_def)
        ultimately show ?thesis using fail run setlk s2 cov by (simp add: covered_def)
      qed
    qed
  qed
qed

lemma logdb_log_unlock_spec:
  assumes "blocks_ok (l_lock log)" "covered log i" "type \<noteq> LOCK_NONE"
  shows "\<exists>log' s'. logdb_log_unlock log i type s = Done (log', s') \<and>
           l_fd log' = l_fd log \<and> l_path log' = l_path log \<and> blocks_ok (l_lock log') \<and>
           (\<forall>j. covered log' j \<longleftrightarrow> covered log j) \<and>
           (\<forall>j. lock_value (l_lock log') j = lock_value (l_lock log) j - (if j = i then lock_delta type else 0)) \<and>
           same_data s s'"
proof -
  obtain r s1 where setlk: "sys_fcntl_setlk (l_fd log) L_None (logdb_log_offset i) sizeof_log_entry s = (r, s1)"
    by fastforce
  from assms(2) obtain k where k: "k < length (l_lock log)" "covers (l_lock log ! k) i"
    by (auto simp: covered_def in_set_conv_nth)
  let ?bs = "set_lock (l_lock log) k (lock_slot (l_lock log ! k) i) (lock_value (l_lock log) i - lock_delta type)"
  have "blocks_ok ?bs" using assms(1) k by (simp add: blocks_ok_set_lock)
  moreover have "lock_value ?bs j = lock_value (l_lock log) j - (if j = i then lock_delta type else 0)" for j
    using lock_value_set_lock [OF assms(1) k] by simp
  moreover have "(\<exists>b \<in> set ?bs. covers b j) \<longleftrightarrow> covered log j" for j
    using k(1) by (simp add: covered_def set_lock_covered)
  ultimately show ?thesis
    using inproc_unlock_ok [OF assms(1) k assms(3)] setlk sys_setlk_same [OF setlk]
    by (simp add: logdb_log_unlock_def covered_def)
qed

section \<open>Mutual exclusion\<close>

text \<open>The holders of locks, one entry per lock that was taken and not given back.\<close>

type_synonym holders = "(32 word \<times> logdb_log_lock_type) list"

definition held_at :: "holders \<Rightarrow> 32 word \<Rightarrow> holders" where
  "held_at hs i = filter (\<lambda>h. fst h = i) hs"

definition held_sum :: "holders \<Rightarrow> 32 word \<Rightarrow> int" where
  "held_sum hs i = sum_list (map (\<lambda>h. lock_delta (snd h)) (held_at hs i))"

definition exclusive :: "holders \<Rightarrow> bool" where
  "exclusive hs \<longleftrightarrow> (\<forall>i. (i, LOCK_WRITE) \<in> set hs \<longrightarrow> held_at hs i = [(i, LOCK_WRITE)]) \<and>
                    (\<forall>h \<in> set hs. snd h \<noteq> LOCK_NONE)"

lemma held_at_Cons: "held_at ((j, t) # hs) i = (if j = i then (j, t) # held_at hs i else held_at hs i)"
  by (simp add: held_at_def)

lemma held_sum_Cons: "held_sum ((j, t) # hs) i = (if j = i then lock_delta t else 0) + held_sum hs i"
  by (simp add: held_sum_def held_at_Cons)

lemma held_sum_remove1:
  "(j, t) \<in> set hs \<Longrightarrow> held_sum (remove1 (j, t) hs) i = held_sum hs i - (if j = i then lock_delta t else 0)"
proof (induction hs)
  case (Cons h hs)
  obtain k u where "h = (k, u)" by fastforce
  with Cons show ?case by (auto simp: held_sum_Cons)
qed simp

lemma held_at_remove1: "held_at (remove1 h hs) i = (if fst h = i then remove1 h (held_at hs i) else held_at hs i)"
  by (induction hs) (auto simp: held_at_def)

lemma set_held_at: "h \<in> set (held_at hs i) \<longleftrightarrow> h \<in> set hs \<and> fst h = i"
  by (auto simp: held_at_def)

lemma exclusive_remove1:
  assumes "exclusive hs" "h \<in> set hs"
  shows "exclusive (remove1 h hs)"
proof -
  have "held_at (remove1 h hs) i = [(i, LOCK_WRITE)]" if w: "(i, LOCK_WRITE) \<in> set (remove1 h hs)" for i
  proof -
    have one: "held_at hs i = [(i, LOCK_WRITE)]"
      using assms(1) w notin_set_remove1 unfolding exclusive_def by metis
    have "(i, LOCK_WRITE) \<in> set (held_at (remove1 h hs) i)" using w by (simp add: set_held_at)
    then show ?thesis using one assms(2) set_held_at [of h hs i]
      by (auto simp: held_at_remove1 split: if_splits)
  qed
  then show ?thesis using assms(1) notin_set_remove1 unfolding exclusive_def by metis
qed

lemma no_writer_sum:
  assumes "exclusive hs" "(i, LOCK_WRITE) \<notin> set hs"
  shows "held_sum hs i = int (length (held_at hs i))"
proof -
  have "lock_delta (snd h) = 1" if m: "h \<in> set (held_at hs i)" for h
  proof -
    obtain t where h: "h = (i, t)" by (cases h) (use m in \<open>auto simp: set_held_at\<close>)
    then have "t \<noteq> LOCK_NONE" "t \<noteq> LOCK_WRITE" using m assms by (auto simp: exclusive_def set_held_at)
    with h show ?thesis by (cases t) (simp_all add: lock_delta_def)
  qed
  then have "map (\<lambda>h. lock_delta (snd h)) (held_at hs i) = map (\<lambda>h. 1) (held_at hs i)"
    by (simp only: map_eq_conv) blast
  then show ?thesis unfolding held_sum_def by (simp only: sum_list_triv mult_1_right of_nat_id)
qed

lemma exclusive_take:
  assumes "exclusive hs" "lock_allowed t (held_sum hs i)"
  shows "exclusive ((i, t) # hs)"
proof -
  have nw: "(i, LOCK_WRITE) \<notin> set hs"
  proof
    assume "(i, LOCK_WRITE) \<in> set hs"
    then have "held_at hs i = [(i, LOCK_WRITE)]" using assms(1) by (simp add: exclusive_def)
    then have "held_sum hs i = -1" by (simp add: held_sum_def lock_delta_def)
    with assms(2) show False by (simp add: lock_allowed_def)
  qed
  have "held_at hs i = []" if "t = LOCK_WRITE"
    using that assms no_writer_sum [OF assms(1) nw] by (simp add: lock_allowed_def)
  with nw assms show ?thesis
    by (auto simp: exclusive_def held_at_Cons lock_allowed_def)
qed

text \<open>The specifications for a given result.\<close>

lemma lock_done:
  assumes "logdb_log_lock log i t s = Done (r, log', s')" "blocks_ok (l_lock log)" "safe_index (l_lock log) i" "t \<noteq> LOCK_NONE"
  shows "blocks_ok (l_lock log')" "covered log j \<Longrightarrow> covered log' j"
    "r = 0 \<Longrightarrow> covered log' i \<and> lock_allowed t (lock_value (l_lock log) i)"
    "lock_value (l_lock log') j = lock_value (l_lock log) j + (if r = 0 \<and> j = i then lock_delta t else 0)"
    "l_fd log' = l_fd log" "l_path log' = l_path log" "same_data s s'"
  using logdb_log_lock_spec [OF assms(2-4), of s] assms(1) by auto

lemma unlock_done:
  assumes "logdb_log_unlock log i t s = Done (log', s')" "blocks_ok (l_lock log)" "covered log i" "t \<noteq> LOCK_NONE"
  shows "blocks_ok (l_lock log')" "covered log' j = covered log j"
    "lock_value (l_lock log') j = lock_value (l_lock log) j - (if j = i then lock_delta t else 0)"
    "l_fd log' = l_fd log" "l_path log' = l_path log" "same_data s s'"
  using logdb_log_unlock_spec [OF assms(2-4), of s] assms(1) by auto

text \<open>
  The contract of a reader/writer lock per index: taking and giving back change the counter of the
  index only, and a lock is only taken when the counter allows it. The client lemmas are that the
  counters agree with the holders and that a writer excludes every other holder.
\<close>

locale rw_locks =
  fixes val :: "'l \<Rightarrow> 32 word \<Rightarrow> int"
    and inv :: "'l \<Rightarrow> bool"
    and take_lock :: "'l \<Rightarrow> 32 word \<Rightarrow> logdb_log_lock_type \<Rightarrow> 'l \<Rightarrow> bool"
    and give_lock :: "'l \<Rightarrow> 32 word \<Rightarrow> logdb_log_lock_type \<Rightarrow> 'l \<Rightarrow> bool"
  assumes take_inv: "\<lbrakk>inv l; take_lock l i t l'\<rbrakk> \<Longrightarrow> inv l'"
    and take_allowed: "\<lbrakk>inv l; take_lock l i t l'\<rbrakk> \<Longrightarrow> lock_allowed t (val l i)"
    and take_val: "\<lbrakk>inv l; take_lock l i t l'\<rbrakk> \<Longrightarrow> val l' j = val l j + (if j = i then lock_delta t else 0)"
    and give_inv: "\<lbrakk>inv l; give_lock l i t l'\<rbrakk> \<Longrightarrow> inv l'"
    and give_val: "\<lbrakk>inv l; give_lock l i t l'\<rbrakk> \<Longrightarrow> val l' j = val l j - (if j = i then lock_delta t else 0)"
begin

definition agrees :: "'l \<Rightarrow> holders \<Rightarrow> bool" where
  "agrees l hs \<longleftrightarrow> inv l \<and> exclusive hs \<and> (\<forall>i. val l i = held_sum hs i)"

lemma agrees_take: "agrees l hs \<Longrightarrow> take_lock l i t l' \<Longrightarrow> agrees l' ((i, t) # hs)"
  using take_inv [of l i t l'] take_allowed [of l i t l'] take_val [of l i t l']
  by (auto simp: agrees_def held_sum_Cons intro!: exclusive_take)

lemma agrees_give: "agrees l hs \<Longrightarrow> (i, t) \<in> set hs \<Longrightarrow> give_lock l i t l' \<Longrightarrow> agrees l' (remove1 (i, t) hs)"
  using give_inv [of l i t l'] give_val [of l i t l']
  by (auto simp: agrees_def held_sum_remove1 exclusive_remove1)

lemma agrees_same: "agrees l hs \<Longrightarrow> inv l' \<Longrightarrow> (\<And>i. val l' i = val l i) \<Longrightarrow> agrees l' hs"
  by (simp add: agrees_def)

lemma writer_alone: "agrees l hs \<Longrightarrow> (i, LOCK_WRITE) \<in> set hs \<Longrightarrow> held_at hs i = [(i, LOCK_WRITE)] \<and> val l i = -1"
  by (auto simp: agrees_def exclusive_def held_sum_def lock_delta_def)

end

definition log_takes :: "logdb_log_t \<Rightarrow> 32 word \<Rightarrow> logdb_log_lock_type \<Rightarrow> logdb_log_t \<Rightarrow> bool" where
  "log_takes log i t log' \<longleftrightarrow> safe_index (l_lock log) i \<and> t \<noteq> LOCK_NONE \<and>
     (\<exists>s s'. logdb_log_lock log i t s = Done (0, log', s'))"

definition log_gives :: "logdb_log_t \<Rightarrow> 32 word \<Rightarrow> logdb_log_lock_type \<Rightarrow> logdb_log_t \<Rightarrow> bool" where
  "log_gives log i t log' \<longleftrightarrow> covered log i \<and> t \<noteq> LOCK_NONE \<and>
     (\<exists>s s'. logdb_log_unlock log i t s = Done (log', s'))"

interpretation log_locks: rw_locks "\<lambda>log. lock_value (l_lock log)" "\<lambda>log. blocks_ok (l_lock log)" log_takes log_gives
proof unfold_locales
  fix log :: logdb_log_t and i j t log'
  assume ok: "blocks_ok (l_lock log)" and "log_takes log i t log'"
  then obtain s s' where run: "logdb_log_lock log i t s = Done (0, log', s')"
    and h: "safe_index (l_lock log) i" "t \<noteq> LOCK_NONE" by (auto simp: log_takes_def)
  note d = lock_done [OF run ok h]
  show "blocks_ok (l_lock log')" "lock_allowed t (lock_value (l_lock log) i)"
    "lock_value (l_lock log') j = lock_value (l_lock log) j + (if j = i then lock_delta t else 0)"
    using d(1,3) d(4) [of j] by simp_all
next
  fix log :: logdb_log_t and i j t log'
  assume ok: "blocks_ok (l_lock log)" and "log_gives log i t log'"
  then obtain s s' where run: "logdb_log_unlock log i t s = Done (log', s')"
    and h: "covered log i" "t \<noteq> LOCK_NONE" by (auto simp: log_gives_def)
  note d = unlock_done [OF run ok h]
  show "blocks_ok (l_lock log')"
    "lock_value (l_lock log') j = lock_value (l_lock log) j - (if j = i then lock_delta t else 0)"
    using d(1) d(3) [of j] by simp_all
qed

text \<open>
  The runs of the threads of one process: a lock is taken or refused, a holder gives its lock back,
  and other processes change the state of the operating system in any way at any time.
\<close>

inductive lock_step :: "logdb_log_t \<times> os \<times> holders \<Rightarrow> logdb_log_t \<times> os \<times> holders \<Rightarrow> bool" where
  taken: "\<lbrakk>logdb_log_lock log i t s = Done (0, log', s'); safe_index (l_lock log) i; t \<noteq> LOCK_NONE\<rbrakk>
          \<Longrightarrow> lock_step (log, s, hs) (log', s', (i, t) # hs)"
| refused: "\<lbrakk>logdb_log_lock log i t s = Done (r, log', s'); r \<noteq> 0; safe_index (l_lock log) i; t \<noteq> LOCK_NONE\<rbrakk>
            \<Longrightarrow> lock_step (log, s, hs) (log', s', hs)"
| given: "\<lbrakk>(i, t) \<in> set hs; logdb_log_unlock log i t s = Done (log', s')\<rbrakk>
          \<Longrightarrow> lock_step (log, s, hs) (log', s', remove1 (i, t) hs)"
| others: "lock_step (log, s, hs) (log, s', hs)"

inductive_cases lock_stepE: "lock_step (log, s, hs) x"

definition lock_inv :: "logdb_log_t \<times> os \<times> holders \<Rightarrow> bool" where
  "lock_inv x = (case x of (log, _, hs) \<Rightarrow> log_locks.agrees log hs \<and> (\<forall>h \<in> set hs. covered log (fst h)))"

lemma lock_inv_step:
  assumes "lock_step x y" "lock_inv x"
  shows "lock_inv y"
  using assms
proof (cases rule: lock_step.cases)
  case (taken log i t s log' s' hs)
  then have a: "log_locks.agrees log hs" "\<forall>h \<in> set hs. covered log (fst h)" "blocks_ok (l_lock log)"
    using assms(2) by (auto simp: lock_inv_def log_locks.agrees_def)
  have "log_takes log i t log'" using taken by (auto simp: log_takes_def)
  then have "log_locks.agrees log' ((i, t) # hs)" by (rule log_locks.agrees_take [OF a(1)])
  moreover have "\<forall>h \<in> set ((i, t) # hs). covered log' (fst h)"
    using lock_done(2,3) [OF taken(3) a(3) taken(4,5)] a(2) by auto
  ultimately show ?thesis using taken(2) by (simp add: lock_inv_def)
next
  case (refused log i t s r log' s' hs)
  then have a: "log_locks.agrees log hs" "\<forall>h \<in> set hs. covered log (fst h)" "blocks_ok (l_lock log)"
    using assms(2) by (auto simp: lock_inv_def log_locks.agrees_def)
  have "blocks_ok (l_lock log') \<and> (\<forall>j. lock_value (l_lock log') j = lock_value (l_lock log) j) \<and>
        (\<forall>j. covered log j \<longrightarrow> covered log' j)"
    using lock_done(1,2,4) [OF refused(3) a(3) refused(5,6)] refused(4) by auto
  then have "log_locks.agrees log' hs" "\<forall>h \<in> set hs. covered log' (fst h)"
    using log_locks.agrees_same [OF a(1), of log'] a(2) by auto
  then show ?thesis using refused(2) by (simp add: lock_inv_def)
next
  case (given i t hs log s log' s')
  then have a: "log_locks.agrees log hs" "\<forall>h \<in> set hs. covered log (fst h)" "blocks_ok (l_lock log)"
    using assms(2) by (auto simp: lock_inv_def log_locks.agrees_def)
  have c: "covered log i" "t \<noteq> LOCK_NONE"
    using a(1,2) given(3) by (force simp: log_locks.agrees_def exclusive_def)+
  have "log_gives log i t log'" using given(4) c by (auto simp: log_gives_def)
  then have "log_locks.agrees log' (remove1 (i, t) hs)" by (rule log_locks.agrees_give [OF a(1) given(3)])
  moreover have "\<forall>h \<in> set (remove1 (i, t) hs). covered log' (fst h)"
    using unlock_done(2) [OF given(4) a(3) c] a(2) by (auto dest: notin_set_remove1)
  ultimately show ?thesis using given(2) by (simp add: lock_inv_def)
next
  case (others log s hs s')
  then show ?thesis using assms(2) by (simp add: lock_inv_def)
qed

lemma lock_inv_start: "l_lock log = [] \<Longrightarrow> lock_inv (log, s, [])"
  by (simp add: lock_inv_def log_locks.agrees_def exclusive_def lock_value_def held_sum_def held_at_def)

lemma lock_inv_reach: "lock_step\<^sup>*\<^sup>* x y \<Longrightarrow> lock_inv x \<Longrightarrow> lock_inv y"
  by (induction rule: rtranclp_induct) (auto intro: lock_inv_step)

section \<open>One lock at a time\<close>

text \<open>
  Without the assumption on the indices the blocks are still sorted, and a lock that was taken can be
  given back as long as no block is inserted in between. A log is idle when every counter is 0.
\<close>

fun blocks_sorted :: "logdb_log_lock_t list \<Rightarrow> bool" where
  "blocks_sorted [] = True"
| "blocks_sorted (b # bs) =
     (length (locks b) = 128 \<and> unat (startindex b) + 127 < 4294967296 \<and>
      list_all (\<lambda>c. unat (startindex b) < unat (startindex c)) bs \<and> blocks_sorted bs)"

definition idle :: "logdb_log_lock_t list \<Rightarrow> bool" where
  "idle bs \<longleftrightarrow> list_all (\<lambda>b. locks b = replicate 128 0) bs"

lemma find_block_sorted:
  assumes "find_block i bs s = (Some (k, bs'), s')" "blocks_sorted bs" "unat i + 127 < 4294967296"
  shows "blocks_sorted bs' \<and> k < length bs' \<and> covers (bs' ! k) i \<and> unlock_block i bs' = Done k \<and>
         set bs' \<subseteq> insert (new_block i) (set bs)"
  using assms
proof (induction i bs s arbitrary: k bs' s' rule: find_block.induct)
  case (1 i s)
  then have "bs' = [new_block i]" "k = 0" by (auto simp: sys_malloc_def pop_eq Let_def split: if_splits)
  with "1.prems" show ?case
    by (auto simp: covers_self) (simp_all add: new_block_def word_less_nat_alt unat_plus_if')
next
  case (2 i b bs s)
  have sum: "unat (startindex b + 127) = unat (startindex b) + 127"
    using "2.prems"(2) by (simp add: unat_plus_if')
  consider "startindex b > i" | "\<not> startindex b > i" "i - startindex b > 127" | "covers b i"
    by (force simp: covers_def)
  then show ?case
  proof cases
    case 1
    then have "bs' = new_block i # b # bs" "k = 0"
      using "2.prems"(1) by (auto simp: sys_malloc_def pop_eq Let_def split: if_splits)
    with 1 "2.prems"(2,3) show ?thesis
      by (auto simp: covers_self list_all_iff)
         (auto simp: new_block_def word_less_nat_alt unat_plus_if')
  next
    case 2
    then obtain k' bs'' where r: "find_block i bs s = (Some (k', bs''), s')" "k = Suc k'" "bs' = b # bs''"
      using "2.prems"(1) by (auto split: prod.splits)
    have "\<not> covers b i" using 2 by (simp add: covers_def linorder_not_le)
    then have lt: "unat (startindex b) + 127 < unat i"
      using 2(1) by (auto simp: covers_nat word_less_nat_alt)
    from "2.IH" [OF _ _ r(1)] 2 "2.prems"(2,3) have IH: "blocks_sorted bs''" "k' < length bs''" "covers (bs'' ! k') i"
      "unlock_block i bs'' = Done k'" "set bs'' \<subseteq> insert (new_block i) (set bs)"
      by auto
    have "list_all (\<lambda>c. unat (startindex b) < unat (startindex c)) bs''"
      using IH(5) "2.prems"(2) lt by (fastforce simp: list_all_iff new_block_def)
    with IH r lt "2.prems"(2) show ?thesis by (auto simp: word_less_nat_alt sum)
  next
    case 3
    then have "bs' = b # bs" "k = 0"
      using "2.prems"(1) by (auto simp: covers_def split: if_splits)
    with 3 "2.prems"(2) show ?thesis by (auto simp: word_less_nat_alt sum covers_nat)
  qed
qed

lemma blocks_sorted_nth: "blocks_sorted bs \<Longrightarrow> k < length bs \<Longrightarrow> length (locks (bs ! k)) = 128"
  by (induction bs arbitrary: k) (auto simp: nth_Cons split: nat.splits)

lemma blocks_sorted_set_lock: "blocks_sorted bs \<Longrightarrow> k < length bs \<Longrightarrow> blocks_sorted (set_lock bs k n v)"
proof (induction bs arbitrary: k)
  case (Cons b bs)
  then show ?case
    by (cases k) (auto simp: set_lock_def list_all_length nth_list_update)
qed simp

lemma unlock_block_set_lock: "k < length bs \<Longrightarrow> unlock_block i (set_lock bs k n v) = unlock_block i bs"
proof (induction bs arbitrary: k)
  case (Cons b bs)
  then show ?case by (cases k) (auto simp: set_lock_def)
qed simp

lemma set_lock_twice [simp]: "k < length bs \<Longrightarrow> set_lock (set_lock bs k n v) k n u = set_lock bs k n u"
  by (simp add: set_lock_def)

lemma idle_nth: "idle bs \<Longrightarrow> k < length bs \<Longrightarrow> n < 128 \<Longrightarrow> locks (bs ! k) ! n = 0"
  by (simp add: idle_def list_all_length)

lemma idle_set_lock: "idle bs \<Longrightarrow> k < length bs \<Longrightarrow> idle (set_lock bs k n 0)"
  by (auto simp: idle_def set_lock_def list_all_length nth_list_update)
     (metis append_Nil2 list_update_id nth_replicate list_update_beyond length_replicate linorder_not_le)

text \<open>The lock of one index is held, and every other counter is 0 if the log was idle before.\<close>

definition holding :: "bool \<Rightarrow> logdb_log_lock_t list \<Rightarrow> 32 word \<Rightarrow> int \<Rightarrow> bool" where
  "holding alone bs i v \<longleftrightarrow>
     (\<exists>bs0 k. bs = set_lock bs0 k (lock_slot (bs0 ! k) i) v \<and> blocks_sorted bs0 \<and> k < length bs0 \<and>
        covers (bs0 ! k) i \<and> unlock_block i bs0 = Done k \<and> (alone \<longrightarrow> idle bs0))"

lemma holding_unlock:
  assumes "holding alone (l_lock log) i (-1)"
  shows "\<exists>bs. logdb_log_inproc_unlock log i LOCK_WRITE = Done (log\<lparr>l_lock := bs\<rparr>) \<and>
              blocks_sorted bs \<and> (alone \<longrightarrow> idle bs)"
proof -
  obtain bs0 k where b: "l_lock log = set_lock bs0 k (lock_slot (bs0 ! k) i) (-1)" "blocks_sorted bs0"
    "k < length bs0" "covers (bs0 ! k) i" "unlock_block i bs0 = Done k" "alone \<longrightarrow> idle bs0"
    using assms(1) by (auto simp: holding_def)
  let ?n = "lock_slot (bs0 ! k) i"
  have n: "?n < 128" "length (locks (bs0 ! k)) = 128"
    using lock_slot_less [OF b(4)] blocks_sorted_nth [OF b(2,3)] by simp_all
  have u: "unlock_block i (l_lock log) = Done k" using b(3,5) by (simp add: b(1) unlock_block_set_lock)
  have len: "length (locks (l_lock log ! k)) = 128" using b(3) n(2) by (simp add: b(1) set_lock_def)
  have slot: "lock_slot (l_lock log ! k) i = ?n" using b(3) by (simp add: b(1))
  have val: "locks (l_lock log ! k) ! ?n = -1" using b(3) n by (simp add: b(1) set_lock_def)
  have "set_lock (l_lock log) k ?n 0 = set_lock bs0 k ?n 0" using b(3) by (simp add: b(1))
  then have "logdb_log_inproc_unlock log i LOCK_WRITE = Done (log\<lparr>l_lock := set_lock bs0 k ?n 0\<rparr>)"
    using n(1) by (simp add: logdb_log_inproc_unlock_def u slot len val Let_def)
  with b show ?thesis by (auto intro: blocks_sorted_set_lock idle_set_lock)
qed

lemma find_block_none: "find_block i bs s = (None, s') \<Longrightarrow> \<not> quiet s"
  using find_block_keeps quiet_event by blast

lemma idle_new: "idle bs \<Longrightarrow> set bs' \<subseteq> insert (new_block i) (set bs) \<Longrightarrow> idle bs'"
  by (auto simp: idle_def list_all_iff new_block_def)

lemma lock_write:
  assumes "blocks_sorted (l_lock log)" "unat i + 127 < 4294967296"
  shows "\<exists>r bs s'. logdb_log_lock log i LOCK_WRITE s = Done (r, log\<lparr>l_lock := bs\<rparr>, s') \<and>
           same_data s s' \<and> blocks_sorted bs \<and>
           (r = 0 \<longrightarrow> (\<exists>al. holding al bs i (-1) \<and> (idle (l_lock log) \<longrightarrow> al))) \<and>
           (r \<noteq> 0 \<and> idle (l_lock log) \<longrightarrow> idle bs) \<and>
           (idle (l_lock log) \<and> quiet s \<and> other_locks s = [] \<and> fds s (l_fd log) \<noteq> None \<longrightarrow> r = 0) \<and>
           (quiet s \<longrightarrow> quiet s')"
proof -
  obtain found s1 where f: "find_block i (l_lock log) s = (found, s1)" by fastforce
  have same: "same_data s s1" "quiet s \<longrightarrow> quiet s1" using find_block_keeps [OF f] by auto
  show ?thesis
  proof (cases found)
    case None
    with f same assms(1) find_block_none [of i "l_lock log" s s1] show ?thesis
      by (intro exI [of _ "-1"] exI [of _ "l_lock log"] exI [of _ s1]) (simp add: logdb_log_lock_def)
  next
    case (Some kb)
    obtain k bs where kb: "kb = (k, bs)" by fastforce
    from find_block_sorted [OF f [unfolded Some kb] assms]
    have bs: "blocks_sorted bs" "k < length bs" "covers (bs ! k) i" "unlock_block i bs = Done k"
      "set bs \<subseteq> insert (new_block i) (set (l_lock log))" by auto
    let ?n = "lock_slot (bs ! k) i"
    have z: "locks (bs ! k) ! ?n = 0" if "idle (l_lock log)"
      using idle_nth [OF idle_new [OF that bs(5)] bs(2) lock_slot_less [OF bs(3)]] .
    show ?thesis
    proof (cases "locks (bs ! k) ! ?n = 0")
      case False
      with f Some kb same bs z show ?thesis
        by (intro exI [of _ "-2"] exI [of _ bs] exI [of _ s1])
           (auto simp: logdb_log_lock_def Let_def)
    next
      case True
      let ?bs = "set_lock bs k ?n (-1)"
      let ?log = "log\<lparr>l_lock := ?bs\<rparr>"
      obtain r s2 where setlk: "sys_fcntl_setlk (l_fd log) L_Exclusive (logdb_log_offset i) sizeof_log_entry s1 = (r, s2)"
        by fastforce
      have run: "logdb_log_lock log i LOCK_WRITE s =
          (if r = -1 then obind (logdb_log_inproc_unlock ?log i LOCK_WRITE) (\<lambda>log. Done (-3, log, s2)) else Done (0, ?log, s2))"
        using True f Some kb setlk by (simp add: logdb_log_lock_def Let_def)
      have h: "holding (idle (l_lock log)) ?bs i (-1)"
        unfolding holding_def using bs idle_new [OF _ bs(5)] by blast
      have s2: "same_data s s2" "quiet s \<longrightarrow> quiet s2"
        using same_data_trans [OF same(1) sys_setlk_same [OF setlk]] same(2) calls_quiet(5) [OF setlk] by auto
      show ?thesis
      proof (cases "r = -1")
        case False
        with run h s2 blocks_sorted_set_lock [OF bs(1,2)] show ?thesis
          by (intro exI [of _ 0] exI [of _ ?bs] exI [of _ s2]) auto
      next
        case fail: True
        have "idle (l_lock log) \<and> quiet s \<and> other_locks s = [] \<and> fds s (l_fd log) \<noteq> None \<longrightarrow> r \<noteq> -1"
          using setlk same quiet_event [of s1] log_offset_ge [of i]
          by (auto simp: sys_fcntl_setlk_def pop_eq Let_def fcntl_conflict_def same_data_def frame_def
              split: option.splits if_splits dest!: spec [of _ "l_fd log"])
        with holding_unlock [of "idle (l_lock log)" ?log i] h fail run s2
        obtain bs2 where "logdb_log_inproc_unlock ?log i LOCK_WRITE = Done (?log\<lparr>l_lock := bs2\<rparr>)"
          "blocks_sorted bs2" "idle (l_lock log) \<longrightarrow> idle bs2" by auto
        with fail run s2 \<open>_ \<longrightarrow> r \<noteq> -1\<close> show ?thesis
          by (intro exI [of _ "-3"] exI [of _ bs2] exI [of _ s2]) auto
      qed
    qed
  qed
qed

lemma unlock_write:
  assumes "holding al (l_lock log) i (-1)"
  shows "\<exists>bs s'. logdb_log_unlock log i LOCK_WRITE s = Done (log\<lparr>l_lock := bs\<rparr>, s') \<and> blocks_sorted bs \<and>
           (al \<longrightarrow> idle bs) \<and> same_data s s' \<and> (quiet s \<longrightarrow> quiet s')"
proof -
  obtain r s1 where setlk: "sys_fcntl_setlk (l_fd log) L_None (logdb_log_offset i) sizeof_log_entry s = (r, s1)"
    by fastforce
  from holding_unlock [OF assms] sys_setlk_same [OF setlk] calls_quiet(5) [OF setlk] setlk show ?thesis
    by (auto simp: logdb_log_unlock_def)
qed

section \<open>Properties\<close>

text \<open>C12: In every run of the threads of a process that starts with no lock, in which every index that is
  locked is safe (its block overlaps no other), a thread that holds the write lock of a section
  is the only holder of a lock on it, whatever fails and whatever other processes do.\<close>

theorem section_locks_exclude:
  assumes "lock_step\<^sup>*\<^sup>* (log, s, []) (log', s', hs)" "l_lock log = []" "(i, LOCK_WRITE) \<in> set hs"
  shows "held_at hs i = [(i, LOCK_WRITE)] \<and> lock_value (l_lock log') i = -1"
  using lock_inv_reach [OF assms(1) lock_inv_start [OF assms(2)]] assms(3)
  by (auto simp: lock_inv_def log_locks.writer_alone)

text \<open>C19: In every such run an attempt to lock a safe index returns, and one that is refused leaves every
  counter and every file as they were; every holder can give its lock back without a fault.\<close>

theorem lock_attempts_return:
  assumes "lock_step\<^sup>*\<^sup>* (log, s, []) (log', s', hs)" "l_lock log = []" "t \<noteq> LOCK_NONE"
  shows "(safe_index (l_lock log') i \<longrightarrow>
            (\<exists>r log2 s2. logdb_log_lock log' i t s' = Done (r, log2, s2) \<and> inode s2 = inode s' \<and>
               (r \<noteq> 0 \<longrightarrow> (\<forall>j. lock_value (l_lock log2) j = lock_value (l_lock log') j)))) \<and>
         ((i, t) \<in> set hs \<longrightarrow> (\<exists>log2 s2. logdb_log_unlock log' i t s' = Done (log2, s2) \<and> inode s2 = inode s'))"
proof -
  have inv: "lock_inv (log', s', hs)"
    using lock_inv_reach [OF assms(1) lock_inv_start [OF assms(2)]] .
  then have ok: "blocks_ok (l_lock log')" and cov: "(i, t) \<in> set hs \<Longrightarrow> covered log' i"
    by (auto simp: lock_inv_def log_locks.agrees_def)
  show ?thesis
    using logdb_log_lock_spec [OF ok _ assms(3), of i s'] logdb_log_unlock_spec [OF ok cov assms(3), of s']
    by (auto simp: same_data_def)
qed

text \<open>A log with no locks on a file of ten entries.\<close>

definition ten_log :: logdb_log_t where
  "ten_log = \<lparr>l_fd = 3, l_path = None, l_lock = []\<rparr>"

definition ten_os :: os where
  "ten_os = one_file (logdb_log_header @ replicate 20 0) True []"

definition lock_writes :: "32 word list \<Rightarrow> logdb_log_t \<Rightarrow> os \<Rightarrow> (int list \<times> logdb_log_t \<times> os) outcome" where
  "lock_writes is log s =
     fold (\<lambda>i x. obind x (\<lambda>(rs, log, s). obind (logdb_log_lock log i LOCK_WRITE s)
       (\<lambda>(r, log, s). Done (rs @ [r], log, s)))) is (Done ([], log, s))"

lemma one_lock_run:
  "\<exists>log' s'. lock_step\<^sup>*\<^sup>* (ten_log, ten_os, []) (log', s', [(5, LOCK_WRITE)])"
proof -
  have "case logdb_log_lock ten_log 5 LOCK_WRITE ten_os of Done (r, _) \<Rightarrow> r = 0 | Fault _ \<Rightarrow> False"
    by code_simp
  then obtain log' s' where "logdb_log_lock ten_log 5 LOCK_WRITE ten_os = Done (0, log', s')"
    by (auto split: outcome.splits prod.splits)
  then have "lock_step (ten_log, ten_os, []) (log', s', [(5, LOCK_WRITE)])"
    by (rule lock_step.taken) (simp_all add: ten_log_def safe_index_def)
  then show ?thesis by blast
qed

theorem section_locks_exclude_witness:
  "\<exists>log' s'. lock_step\<^sup>*\<^sup>* (ten_log, ten_os, []) (log', s', [(5, LOCK_WRITE)]) \<and> lock_value (l_lock log') 5 = -1"
proof -
  obtain log' s' where run: "lock_step\<^sup>*\<^sup>* (ten_log, ten_os, []) (log', s', [(5, LOCK_WRITE)])"
    using one_lock_run by blast
  have "l_lock ten_log = []" by (simp add: ten_log_def)
  from section_locks_exclude [OF run this, of 5] run show ?thesis by auto
qed

theorem lock_attempts_return_witness:
  "\<exists>log' s' log2 s2. lock_step\<^sup>*\<^sup>* (ten_log, ten_os, []) (log', s', [(5, LOCK_WRITE)]) \<and>
     logdb_log_unlock log' 5 LOCK_WRITE s' = Done (log2, s2) \<and> inode s2 = inode s'"
proof -
  obtain log' s' where run: "lock_step\<^sup>*\<^sup>* (ten_log, ten_os, []) (log', s', [(5, LOCK_WRITE)])"
    using one_lock_run by blast
  have "l_lock ten_log = []" by (simp add: ten_log_def)
  from lock_attempts_return [OF run this, of LOCK_WRITE 5] run show ?thesis by auto
qed

text \<open>The block for a lower index is inserted without regard to the blocks behind it and hides their
  counters: after the write locks of sections 5 and 4, the write lock of section 5, still held, is
  granted a second time.\<close>

lemma lower_index_hides_block:
  "\<exists>log s. lock_writes [5, 4, 5] ten_log ten_os = Done ([0, 0, 0], log, s) \<and>
           map startindex (l_lock log) = [4, 5] \<and> map (\<lambda>b. take 2 (locks b)) (l_lock log) = [[-1, -1], [-1, 0]]"
proof -
  have "case lock_writes [5, 4, 5] ten_log ten_os of
          Done (rs, log, s) \<Rightarrow> rs = [0, 0, 0] \<and> map startindex (l_lock log) = [4, 5] \<and>
             map (\<lambda>b. take 2 (locks b)) (l_lock log) = [[-1, -1], [-1, 0]]
        | Fault _ \<Rightarrow> False"
    by code_simp
  then show ?thesis by (auto split: outcome.splits)
qed

end
