(* ===== verification/Connection.thy ===== *)
theory Connection
  imports Lock Buffer
begin

text \<open>
  \<^verbatim>\<open>src/logdb_connection.c\<close>: opening and closing a connection. The state of the process is a
  \<open>world\<close>: the operating system, the heap of buffers and transactions, and the one connection the
  process may have on a database.
\<close>

section \<open>State\<close>

text \<open>
  The flags are bits of an \<open>int\<close>. The read-write lock is the number of readers; the writer side is
  only taken by \<open>logdb_close\<close>, which then frees it. \<open>c_current_txn\<close> is the thread-local key: the
  current transaction of each thread. \<open>c_alive\<close> says that the struct has not been freed.
\<close>

record logdb_connection_t =
  c_version :: "16 word"
  c_readers :: nat
  c_flags :: "32 word"
  c_fd :: int
  c_log :: logdb_log_t
  c_current_txn :: "nat \<Rightarrow> ptr"
  c_alive :: bool

record world =
  w_os :: os
  w_heap :: heap
  w_conn :: logdb_connection_t

definition has_flag :: "32 word \<Rightarrow> 32 word \<Rightarrow> bool" where
  "has_flag flags f \<longleftrightarrow> and flags f = f"

definition LOGDB_OPEN_EXISTING :: "32 word" where "LOGDB_OPEN_EXISTING = 0"
definition LOGDB_OPEN_CREATE :: "32 word" where "LOGDB_OPEN_CREATE = 1"
definition LOGDB_OPEN_NOSYNC :: "32 word" where "LOGDB_OPEN_NOSYNC = 2"

section \<open>Opening\<close>

text \<open>The header: written when the file may be created, checked otherwise. The result says whether
  to go on.\<close>

definition open_header :: "int \<Rightarrow> 32 word \<Rightarrow> os \<Rightarrow> bool \<times> os" where
  "open_header fd flags s =
     (if has_flag flags LOGDB_OPEN_CREATE then
        (case logdb_io_write fd logdb_header s of (left, s) \<Rightarrow> (left = 0, s))
      else
        (case logdb_io_read fd sizeof_header s of (result, header, s) \<Rightarrow>
           (\<not> result > 0 \<and> \<not> (result = -1 \<or> \<not> valid_header LOGDB_MAGIC header), s)))"

text \<open>
  The part below \<open>retry_create_locked\<close>: create the log, or open the one that is there, or delete
  it and try once more. The result is the log, if any, whether the open fails now, and the value of
  \<open>retry\<close>.
\<close>

fun open_create_locked :: "nat \<Rightarrow> bool \<Rightarrow> string \<Rightarrow> int \<Rightarrow> bool \<Rightarrow> os \<Rightarrow> (logdb_log_t option \<times> bool \<times> bool \<times> os) outcome" where
  "open_create_locked 0 dbg logpath fd retry s = Fault Diverges"
| "open_create_locked (Suc n) dbg logpath fd retry s =
     obind (logdb_log_create dbg logpath fd s) (\<lambda>(log, s).
       if log \<noteq> None then Done (log, False, retry, s)
       else obind (logdb_log_open logpath s) (\<lambda>(log, s).
         if log \<noteq> None then Done (log, False, retry, s)
         else if \<not> retry then Done (None, True, retry, s)
         else case sys_unlink logpath s of (r, s) \<Rightarrow>
           if r = -1 then Done (None, True, retry, s)
           else open_create_locked n dbg logpath fd False s))"

text \<open>
  The part below \<open>retry_create\<close>. At most one retry is left after the first round, so two rounds
  are enough for either loop.
\<close>

fun open_log :: "nat \<Rightarrow> bool \<Rightarrow> string \<Rightarrow> int \<Rightarrow> bool \<Rightarrow> bool \<Rightarrow> os \<Rightarrow> (logdb_log_t option \<times> os) outcome" where
  "open_log 0 dbg logpath fd nosync retry s = Fault Diverges"
| "open_log (Suc n) dbg logpath fd nosync retry s =
     (case sys_flock_ex_nb fd s of (r, s) \<Rightarrow>
      obind (if r = 0 then open_create_locked 2 dbg logpath fd retry s
             else Done (None, nosync, retry, s)) (\<lambda>(log, failed, retry, s).
      if failed then Done (None, s)
      else obind (if nosync then Done (0, s) else sys_flock_sh fd s) (\<lambda>(r, s).
      if r \<noteq> 0 then Done (None, s)
      else if log \<noteq> None then Done (log, s)
      else obind (logdb_log_open logpath s) (\<lambda>(log, s).
        if log \<noteq> None then Done (log, s)
        else if retry then open_log n dbg logpath fd nosync False s
        else Done (None, s)))))"

text \<open>
  \<open>logdb_open\<close>: None is the null pointer. The path is given without its terminating zero byte; a
  null path is None. The calls of \<open>malloc\<close>, \<open>calloc\<close>, \<open>pthread_rwlock_init\<close> and
  \<open>pthread_key_create\<close> take an event of the schedule each.
\<close>

definition logdb_open :: "bool \<Rightarrow> string option \<Rightarrow> 32 word \<Rightarrow> os \<Rightarrow> (logdb_connection_t option \<times> os) outcome" where
  "logdb_open dbg path flags s =
     (case path of None \<Rightarrow> Done (None, s) | Some path \<Rightarrow>
      let nosync = has_flag flags LOGDB_OPEN_NOSYNC; logpath = path @ LOGDB_LOG_FILE_SUFFIX in
      case sys_malloc s of (ok, s) \<Rightarrow>
      if \<not> ok then Done (None, s)
      else case sys_open path \<lparr>o_creat = has_flag flags LOGDB_OPEN_CREATE, o_excl = False, o_append = False\<rparr> s of (fd, s) \<Rightarrow>
      if fd = -1 then Done (None, s)
      else case open_header fd flags s of (go, s) \<Rightarrow>
      if \<not> go then Done (None, sys_close fd s)
      else obind (open_log 2 dbg logpath fd nosync True s) (\<lambda>(log, s).
      case log of
        None \<Rightarrow> Done (None, sys_close fd s)
      | Some log \<Rightarrow>
          let logclosefail = (\<lambda>s. Done (None, sys_close fd (snd (logdb_log_close log s)))) in
          case sys_malloc s of (ok, s) \<Rightarrow>
          if \<not> ok then logclosefail s
          else case sys_malloc s of (ok, s) \<Rightarrow>
          if \<not> ok then logclosefail s
          else case sys_malloc s of (ok, s) \<Rightarrow>
          if \<not> ok then logclosefail s
          else Done (Some \<lparr>c_version = LOGDB_VERSION, c_readers = 0, c_flags = flags, c_fd = fd, c_log = log,
                           c_current_txn = (\<lambda>_. 0), c_alive = True\<rparr>, s)))"

end
