(* ===== verification/Lease.thy ===== *)
theory Lease
  imports Connection
begin

text \<open>
  \<^verbatim>\<open>src/logdb_lease.c\<close>: leases on a section of the database file. A write lease holds the lock of the
  section's log entry; a read lease takes no lock.
\<close>

section \<open>State\<close>

text \<open>\<open>ls_connection\<close> says whether the pointer to the connection is not null.\<close>

record logdb_lease_t =
  ls_connection :: bool
  ls_index :: "32 word"
  ls_offset :: int
  ls_len :: "32 word"
  ls_type :: logdb_log_lock_type

definition zero_lease :: logdb_lease_t where
  "zero_lease = \<lparr>ls_connection = False, ls_index = 0, ls_offset = 0, ls_len = 0, ls_type = LOCK_NONE\<rparr>"

definition rwlock_unlock :: "logdb_connection_t \<Rightarrow> logdb_connection_t" where
  "rwlock_unlock c = c\<lparr>c_readers := c_readers c - 1\<rparr>"

section \<open>Acquiring\<close>

definition logdb_lease_read_entry_space :: "logdb_log_t \<Rightarrow> 32 word \<Rightarrow> 32 word \<Rightarrow> os \<Rightarrow> bool \<times> 16 word \<times> os" where
  "logdb_lease_read_entry_space log index sz s =
     (case logdb_log_read_entry log index s of (offset, len, s) \<Rightarrow>
      if offset = -1 then (False, len, s)
      else let freespace = LOGDB_SECTION_SIZE - uint len in (freespace \<ge> uint sz, len, s))"

definition logdb_lease_acquire_prelude :: "logdb_lease_t \<Rightarrow> logdb_connection_t \<Rightarrow> os \<Rightarrow> int \<times> logdb_lease_t \<times> logdb_connection_t \<times> os" where
  "logdb_lease_acquire_prelude lease c s =
     (let lease = lease\<lparr>ls_connection := False\<rparr> in
      case sys_pthread s of (ok, s) \<Rightarrow>
        if ok then (0, lease, c\<lparr>c_readers := c_readers c + 1\<rparr>, s) else (-1, lease, c, s))"

definition logdb_lease_acqire_read ::
  "logdb_lease_t \<Rightarrow> logdb_connection_t \<Rightarrow> 32 word \<Rightarrow> int \<Rightarrow> os \<Rightarrow> int \<times> logdb_lease_t \<times> logdb_connection_t \<times> os" where
  "logdb_lease_acqire_read lease c index offset s =
     (case logdb_lease_acquire_prelude lease c s of (r, lease, c, s) \<Rightarrow>
      if r \<noteq> 0 then (-1, lease, c, s)
      else case logdb_log_read_entry (c_log c) index s of (r, len, s) \<Rightarrow>
      if r = -1 then (-1, lease, rwlock_unlock c, s)
      else if offset < 0 \<or> offset \<ge> uint len then (-1, lease, rwlock_unlock c, s)
      else (0, \<lparr>ls_connection = True, ls_index = index, ls_offset = offset,
                ls_len = word_of_int (uint len - offset), ls_type = LOCK_NONE\<rparr>, c, s))"

text \<open>
  The loop over the last entries. The C conditions are \<open>index--\<close> and \<open>visited++ < LOGDB_LEASE_MAX_WALK\<close>;
  the result is the values of \<open>index\<close>, \<open>visited\<close> and \<open>offset\<close> after the loop, -1 when no entry fits.
\<close>

function walk_entries :: "logdb_log_t \<Rightarrow> 32 word \<Rightarrow> 32 word \<Rightarrow> nat \<Rightarrow> os \<Rightarrow> 32 word \<times> nat \<times> int \<times> os" where
  "walk_entries log sz index visited s =
     (if index = 0 then (index - 1, visited, -1, s)
      else if \<not> visited < LOGDB_LEASE_MAX_WALK then (index - 1, visited + 1, -1, s)
      else case logdb_lease_read_entry_space log (index - 1) sz s of (fits, len, s) \<Rightarrow>
        if fits then (index - 1, visited + 1, uint len, s)
        else walk_entries log sz (index - 1) (visited + 1) s)"
  by pat_completeness auto
termination
  by (relation "measure (\<lambda>(log, sz, index, visited, s). LOGDB_LEASE_MAX_WALK - visited)") auto

declare walk_entries.simps [simp del]

text \<open>
  Appending an empty entry. The result of \<open>write\<close> is compared with a \<open>sizeof\<close> and so becomes unsigned:
  an error, -1, is not less than 2. None is an error return.
\<close>

definition append_entry :: "logdb_log_t \<Rightarrow> os \<Rightarrow> 32 word option \<times> os" where
  "append_entry log s =
     (case sys_write (l_fd log) (le16 0) s of (r, s) \<Rightarrow>
      if r mod 2 ^ 64 < int sizeof_log_entry then (None, s)
      else case sys_lseek (l_fd log) 0 SEEK_CUR s of (offset, s) \<Rightarrow>
      if offset < 0 then (None, s)
      else (Some (logdb_log_index_from_offset offset - 1), s))"

text \<open>
  The loop at the label \<open>walk\<close> has two halves: the choice of a section, and the attempt to take its
  lock followed by the second check of its free space. Between the two, other threads and
  processes may run. \<open>None\<close> in the first half is an error return.
\<close>

definition lease_choose ::
  "logdb_log_t \<Rightarrow> nat \<Rightarrow> 32 word \<Rightarrow> os \<Rightarrow> (32 word \<times> nat \<times> int) option \<times> os" where
  "lease_choose log visited sz s =
     (case sys_lseek (l_fd log) 0 SEEK_END s of (offset, s) \<Rightarrow>
      if offset = -1 then (None, s)
      else case walk_entries log sz (logdb_log_index_from_offset offset - of_nat visited) 0 s of
        (index, visited, offset, s) \<Rightarrow>
        if offset < 0 then
          (case append_entry log s of (r, s) \<Rightarrow> (map_option (\<lambda>index. (index, 1, 0)) r, s))
        else (Some (index, visited, offset), s))"

text \<open>
  The second half: None sends the program back to \<open>walk\<close>. The lock stays taken when the check of the
  free space fails, and the offset of the lease is the one of the first half.
\<close>

definition lease_take ::
  "logdb_log_t \<Rightarrow> 32 word \<Rightarrow> int \<Rightarrow> 32 word \<Rightarrow> os \<Rightarrow> (logdb_lease_t option \<times> logdb_log_t \<times> os) outcome" where
  "lease_take log index offset sz s =
     obind (logdb_log_lock log index LOCK_WRITE s) (\<lambda>(r, log, s).
     if r \<noteq> 0 then Done (None, log, s)
     else case logdb_lease_read_entry_space log index sz s of (fits, _, s) \<Rightarrow>
       Done (if fits then Some \<lparr>ls_connection = True, ls_index = index, ls_offset = offset, ls_len = sz,
                               ls_type = LOCK_WRITE\<rparr> else None, log, s))"

text \<open>The whole loop. It may go round for ever; the first argument bounds the rounds.\<close>

fun lease_walk ::
  "nat \<Rightarrow> logdb_connection_t \<Rightarrow> nat \<Rightarrow> 32 word \<Rightarrow> os \<Rightarrow> (int \<times> logdb_lease_t \<times> logdb_connection_t \<times> os) outcome" where
  "lease_walk 0 c visited sz s = Fault Diverges"
| "lease_walk (Suc n) c visited sz s =
     (case lease_choose (c_log c) visited sz s of
        (None, s) \<Rightarrow> Done (-1, zero_lease, rwlock_unlock c, s)
      | (Some (index, visited, offset), s) \<Rightarrow>
          obind (lease_take (c_log c) index offset sz s) (\<lambda>(lease, log, s).
          let c = c\<lparr>c_log := log\<rparr> in
          case lease of None \<Rightarrow> lease_walk n c visited sz s | Some lease \<Rightarrow> Done (0, lease, c, s)))"

definition logdb_lease_acquire_write ::
  "nat \<Rightarrow> logdb_lease_t \<Rightarrow> logdb_connection_t \<Rightarrow> 32 word \<Rightarrow> os \<Rightarrow> (int \<times> logdb_lease_t \<times> logdb_connection_t \<times> os) outcome" where
  "logdb_lease_acquire_write fuel lease c sz s =
     (if uint sz > LOGDB_SECTION_SIZE then Done (-1, lease, c, s)
      else case logdb_lease_acquire_prelude lease c s of (r, lease, c, s) \<Rightarrow>
      if r \<noteq> 0 then Done (-1, lease, c, s)
      else lease_walk fuel c 0 sz s)"

section \<open>Using\<close>

text \<open>
  The number of bytes transferred is computed from the result in 64 bits: the -1 of a read that met
  the end of the file counts as one byte more than was asked for.
\<close>

definition transferred :: "32 word \<Rightarrow> int \<Rightarrow> int" where
  "transferred len result = (uint len - result) mod 2 ^ 64"

definition advance :: "logdb_lease_t \<Rightarrow> int \<Rightarrow> logdb_lease_t" where
  "advance lease bytes =
     lease\<lparr>ls_offset := ls_offset lease + bytes, ls_len := ls_len lease - word_of_int bytes\<rparr>"

definition logdb_lease_read ::
  "logdb_lease_t \<Rightarrow> logdb_connection_t \<Rightarrow> 32 word \<Rightarrow> os \<Rightarrow> (int \<times> byte list \<times> logdb_lease_t \<times> os) outcome" where
  "logdb_lease_read lease c len s =
     (if len > ls_len lease then Done (uint len, [], lease, s)
      else if \<not> ls_connection lease then Fault (BadPtr 0)
      else let offset = logdb_connection_offset (ls_index lease) + ls_offset lease in
      case logdb_io_pread (c_fd c) (unat len) offset s of (notread, bytes, s) \<Rightarrow>
        Done (notread mod 2 ^ 64, bytes, advance lease (transferred len notread), s))"

definition logdb_lease_write ::
  "logdb_lease_t \<Rightarrow> logdb_connection_t \<Rightarrow> heap \<Rightarrow> ptr \<Rightarrow> 32 word \<Rightarrow> os \<Rightarrow> (int \<times> logdb_lease_t \<times> os) outcome" where
  "logdb_lease_write lease c h buf len s =
     (if len > ls_len lease then Done (uint len, lease, s)
      else if \<not> ls_connection lease then Fault (BadPtr 0)
      else let offset = logdb_connection_offset (ls_index lease) + ls_offset lease in
      obind (if len = 0 then Done [] else load_bytes h buf (unat len)) (\<lambda>bytes.
      case logdb_io_pwrite (c_fd c) bytes offset s of (notwritten, s) \<Rightarrow>
        Done (int notwritten, advance lease (transferred len (int notwritten)), s)))"

text \<open>The bounds are only checked in a debug build.\<close>

definition logdb_lease_seek :: "bool \<Rightarrow> logdb_lease_t \<Rightarrow> int \<Rightarrow> int \<times> logdb_lease_t" where
  "logdb_lease_seek dbg lease offset =
     (if dbg \<and> (ls_offset lease + offset < 0 \<or> offset > uint (ls_len lease)) then (-1, lease)
      else (ls_offset lease + offset, advance lease offset))"

definition logdb_lease_release ::
  "bool \<Rightarrow> logdb_lease_t \<Rightarrow> logdb_connection_t \<Rightarrow> os \<Rightarrow> (logdb_lease_t \<times> logdb_connection_t \<times> os) outcome" where
  "logdb_lease_release dbg lease c s =
     (if \<not> ls_connection lease then (if dbg then Done (lease, c, s) else Fault (BadPtr 0))
      else obind (if ls_type lease \<noteq> LOCK_NONE
                  then obind (logdb_log_unlock (c_log c) (ls_index lease) (ls_type lease) s)
                         (\<lambda>(log, s). Done (c\<lparr>c_log := log\<rparr>, s))
                  else Done (c, s)) (\<lambda>(c, s).
           Done (lease\<lparr>ls_connection := False\<rparr>, rwlock_unlock c, s)))"

section \<open>Well-formed connections\<close>

definition log_file :: "logdb_connection_t \<Rightarrow> os \<Rightarrow> byte list" where
  "log_file c s = file_of s (l_fd (c_log c))"

definition db_file :: "logdb_connection_t \<Rightarrow> os \<Rightarrow> byte list" where
  "db_file c s = file_of s (c_fd c)"

text \<open>
  Both descriptors are open on different files, the log for appending, \<open>pwrite\<close> honours its offset,
  the log holds a header and whole entries, and the number of sections is below the wrap-around.
\<close>

definition conn_ok :: "logdb_connection_t \<Rightarrow> os \<Rightarrow> bool" where
  "conn_ok c s \<longleftrightarrow>
     (case (fds s (c_fd c), fds s (l_fd (c_log c))) of
        (Some df, Some lf) \<Rightarrow> \<not> f_append df \<and> f_append lf \<and> f_ino df \<noteq> f_ino lf
      | _ \<Rightarrow> False) \<and>
     \<not> pwrite_appends s \<and> 6 \<le> length (log_file c s) \<and> even (length (log_file c s)) \<and>
     log_count (log_file c s) < 65536 \<and> blocks_sorted (l_lock (c_log c))"

text \<open>Nothing fails, and no transfer of one byte cuts a log entry in half.\<close>

definition calm :: "os \<Rightarrow> bool" where
  "calm s \<longleftrightarrow> quiet s \<and> Short 1 \<notin> set (sched s)"

lemma frame_calm: "frame s s' \<Longrightarrow> calm s \<Longrightarrow> calm s'"
  by (auto simp: calm_def frame_quiet) (auto simp: frame_def)

lemma calm_quiet: "calm s \<Longrightarrow> quiet s"
  by (simp add: calm_def)

lemma conn_okE:
  assumes "conn_ok c s"
  obtains df lf where "fds s (c_fd c) = Some df" "fds s (l_fd (c_log c)) = Some lf" "\<not> f_append df" "f_append lf"
    "f_ino df \<noteq> f_ino lf" "\<not> pwrite_appends s"
  using assms by (auto simp: conn_ok_def split: option.splits)

section \<open>Looking for a section\<close>

lemma read_entry_same:
  "logdb_log_read_entry log i s = (off, len, s') \<Longrightarrow> fds s (l_fd log) \<noteq> None \<Longrightarrow> same_data s s'"
  using read_entry_spec(1) [of log i s off len s'] logdb_io_sched(3) [of "l_fd log" 2 "logdb_log_offset i" s]
  by (auto simp: logdb_log_read_entry_def size_defs Let_def split: prod.splits)
     (metis same_data_steps(4))

lemma read_space_spec:
  assumes "logdb_lease_read_entry_space log i sz s = (fits, len, s')" "fds s (l_fd log) = Some f"
  defines "F \<equiv> file_of s (l_fd log)"
  shows "same_data s s'"
    "fits \<Longrightarrow> len = entry_at F (unat i) \<and> unat i < log_count F \<and> uint len + uint sz \<le> 65536"
    "quiet s \<Longrightarrow> unat i < log_count F \<Longrightarrow> fits \<longleftrightarrow> uint (entry_at F (unat i)) + uint sz \<le> 65536"
proof -
  obtain off l t where e: "logdb_log_read_entry log i s = (off, l, t)"
    by (cases "logdb_log_read_entry log i s")
  then have t: "s' = t" "len = l" and fits: "fits \<longleftrightarrow> off \<noteq> -1 \<and> LOGDB_SECTION_SIZE - uint l \<ge> uint sz"
    using assms(1) by (auto simp: logdb_lease_read_entry_space_def Let_def split: if_splits)
  note sp = read_entry_spec [OF e assms(2)]
  show "same_data s s'" using read_entry_same [OF e] assms(2) t by simp
  show "fits \<Longrightarrow> len = entry_at F (unat i) \<and> unat i < log_count F \<and> uint len + uint sz \<le> 65536"
    using sp(3) t fits by (auto simp: size_defs F_def)
  show "fits \<longleftrightarrow> uint (entry_at F (unat i)) + uint sz \<le> 65536" if "quiet s" "unat i < log_count F"
    using sp(3,4) t fits that by (auto simp: size_defs F_def)
qed

lemma walk_entries_spec:
  assumes "walk_entries log sz index visited s = (index', visited', off, s')" "fds s (l_fd log) \<noteq> None"
  shows "same_data s s' \<and>
    (off = -1 \<or> off = uint (entry_at (file_of s (l_fd log)) (unat index')) \<and>
                unat index' < log_count (file_of s (l_fd log)) \<and> off + uint sz \<le> 65536)"
  using assms
proof (induction log sz index visited s rule: walk_entries.induct)
  case (1 log sz index visited s)
  show ?case
  proof (cases "index = 0 \<or> \<not> visited < LOGDB_LEASE_MAX_WALK")
    case True
    with "1.prems" show ?thesis by (auto simp: walk_entries.simps [of log sz index] split: if_splits)
  next
    case False
    obtain fits len t where e: "logdb_lease_read_entry_space log (index - 1) sz s = (fits, len, t)"
      by (cases "logdb_lease_read_entry_space log (index - 1) sz s")
    from "1.prems"(2) obtain f where f: "fds s (l_fd log) = Some f" by auto
    note sp = read_space_spec [OF e f]
    show ?thesis
    proof (cases fits)
      case True
      with False e "1.prems"(1) sp(1,2) show ?thesis by (auto simp: walk_entries.simps [of log sz index])
    next
      case no: False
      have rec: "walk_entries log sz (index - 1) (visited + 1) t = (index', visited', off, s')"
        using "1.prems"(1) False no e by (simp add: walk_entries.simps [of log sz index])
      have t: "fds t (l_fd log) \<noteq> None" "file_of t (l_fd log) = file_of s (l_fd log)"
        using sp(1) frame_fd [of s t, OF _ f] same_data_file [OF sp(1)] by (auto simp: same_data_def)
      from "1.IH" [OF _ _ e [symmetric] refl no rec t(1)] False t(2) show ?thesis
        using same_data_trans [OF sp(1)] by auto
    qed
  qed
qed

text \<open>When the last entry has room, the first one that is looked at is chosen.\<close>

definition last_fits :: "byte list \<Rightarrow> 32 word \<Rightarrow> bool" where
  "last_fits L sz \<longleftrightarrow> 0 < log_count L \<and> uint (entry_at L (log_count L - 1)) + uint sz \<le> 65536"

lemma walk_entries_last:
  assumes "walk_entries log sz index 0 s = (index', visited', off, s')" "fds s (l_fd log) = Some f" "quiet s"
    and "unat index = log_count (file_of s (l_fd log))" "last_fits (file_of s (l_fd log)) sz"
  shows "off \<noteq> -1" "Suc (unat index') = log_count (file_of s (l_fd log))"
proof -
  let ?F = "file_of s (l_fd log)"
  have i: "0 < unat index" using assms(4,5) by (simp add: last_fits_def)
  then have nz: "index \<noteq> 0" by (auto simp: unat_eq_zero)
  have i1: "unat (index - 1) = log_count ?F - 1" using unat_minus_one [OF nz] assms(4) by simp
  obtain fits len t where e: "logdb_lease_read_entry_space log (index - 1) sz s = (fits, len, t)"
    by (cases "logdb_lease_read_entry_space log (index - 1) sz s")
  have fits using read_space_spec(3) [OF e assms(2,3)] i i1 assms(4,5) by (simp add: last_fits_def)
  then have "(index - 1, 1, uint len, t) = (index', visited', off, s')"
    using assms(1) nz e by (simp add: walk_entries.simps [of log sz index] LOGDB_LEASE_MAX_WALK_def)
  then show "off \<noteq> -1" "Suc (unat index') = log_count ?F" using i i1 assms(4) uint_nonnegative [of len] by (auto simp: )
qed

lemma sys_write_calm:
  assumes "sys_write fd [a, b] s = (r, s')" "fds s fd = Some f" "f_append f" "calm s"
  shows "r = 2 \<and> s' = set_pos (set_file (popped s) (f_ino f) (file_of s fd @ [a, b])) fd (length (file_of s fd) + 2)"
proof -
  have "event s \<noteq> Fail" "event s \<noteq> Short 0" "event s \<noteq> Short 1"
    using assms(4) quiet_event [of s] by (cases "sched s"; auto simp: calm_def event_def)+
  then have "wr_chunk (event s) 2 = 2" "event s \<noteq> Fail"
    by (cases "event s"; auto simp: wr_chunk_def min_def split: if_splits)+
  with assms show ?thesis
    by (auto simp: sys_write_def pop_eq Let_def file_of_open write_at_end numeral_2_eq_2)
qed

lemma append_entry_calm:
  assumes F_def: "F = file_of s (l_fd log)"
    and "append_entry log s = (r, s')" "fds s (l_fd log) = Some f" "f_append f" "calm s"
    and "6 \<le> length F" "even (length F)" "log_count F < 65536"
  shows "r = Some (of_nat (log_count F)) \<and> frame s s' \<and> file_of s' (l_fd log) = F @ [0, 0] \<and>
         (\<forall>j. j \<noteq> f_ino f \<longrightarrow> inode s' j = inode s j)"
proof -
  have zero: "le16 0 = [0, 0]" by code_simp
  obtain n where n: "length F = 6 + 2 * n"
    using assms(6,7) by (metis evenE even_add even_numeral le_add_diff_inverse)
  then have cnt: "log_count F = n" by (simp add: log_count_def size_defs)
  obtain w t where w: "sys_write (l_fd log) [0, 0] s = (w, t)" by fastforce
  from sys_write_calm [OF w assms(3,4,5)]
  have wt: "w = 2" "t = set_pos (set_file (popped s) (f_ino f) (F @ [0, 0])) (l_fd log) (length F + 2)"
    by (simp_all add: F_def)
  have ft: "fds t (l_fd log) = Some (f\<lparr>f_pos := length F + 2\<rparr>)"
    using assms(3) by (simp add: wt(2) fds_set_pos_same)
  have frame: "frame s t" unfolding wt(2) by (meson frame_steps frame_trans)
  have seek: "sys_lseek (l_fd log) 0 SEEK_CUR t = (int (6 + 2 * Suc n), set_pos t (l_fd log) (6 + 2 * Suc n))"
    using ft n nat_int [of "8 + 2 * n"] by (simp add: sys_lseek_def Let_def)
  have idx: "logdb_log_index_from_offset (int (6 + 2 * Suc n)) = of_nat (Suc n)"
  proof -
    have "unat (logdb_log_index_from_offset (int (6 + 2 * Suc n))) = Suc n"
      using index_from_offset_nat [of "6 + 2 * Suc n"] assms(8) cnt by simp
    from arg_cong [OF this, of "of_nat :: nat \<Rightarrow> 32 word"] show ?thesis by simp
  qed
  have run: "r = Some (of_nat n)" "s' = set_pos t (l_fd log) (6 + 2 * Suc n)"
    using assms(2) w wt(1) seek idx by (simp_all add: append_entry_def zero size_defs)
  have "file_of s' (l_fd log) = F @ [0, 0]"
    using fds_set_pos_same [OF ft] wt(2) by (simp add: run(2) file_of_def)
  moreover have "frame s s'" unfolding run(2) by (rule frame_trans [OF frame frame_steps(4)])
  ultimately show ?thesis using run cnt by (auto simp: wt(2))
qed


section \<open>Acquiring without failures\<close>

text \<open>
  What \<open>logdb_lease_acquire_write\<close> gives: the lock of an existing section, the offset of its first free
  byte, and room for the size asked for. The log has at most grown by one empty entry.
\<close>

definition write_lease_ok :: "logdb_connection_t \<Rightarrow> os \<Rightarrow> logdb_lease_t \<Rightarrow> bool" where
  "write_lease_ok c s lease \<longleftrightarrow>
     ls_connection lease \<and> ls_type lease = LOCK_WRITE \<and>
     unat (ls_index lease) < log_count (log_file c s) \<and>
     ls_offset lease = uint (entry_at (log_file c s) (unat (ls_index lease))) \<and>
     ls_offset lease + uint (ls_len lease) \<le> LOGDB_SECTION_SIZE"

definition grown :: "byte list \<Rightarrow> byte list \<Rightarrow> bool" where
  "grown L L' \<longleftrightarrow> L' = L \<or> L' = L @ [0, 0]"

lemma entry_at_new: "length L = 6 + 2 * n \<Longrightarrow> entry_at (L @ [0, 0]) n = 0"
  by (simp add: entry_at_def seg_append_right [of L "[0, 0]"] of_le16_def flip: seg_append_right)
     (simp add: seg_def)

lemma log_count_append2: "6 \<le> length L \<Longrightarrow> log_count (L @ [0, 0]) = Suc (log_count L)"
  by (auto simp: log_count_def size_defs Suc_diff_le)

lemma log_length: "6 \<le> length L \<Longrightarrow> even (length L) \<Longrightarrow> length L = 6 + 2 * log_count L"
  by (auto simp: log_count_def size_defs)

lemma lease_choose_calm:
  assumes "conn_ok c s" "calm s" "uint sz \<le> 65536" "Suc (log_count (log_file c s)) < 65536"
  shows "\<exists>index v off s'. lease_choose (c_log c) visited sz s = (Some (index, v, off), s') \<and> frame s s' \<and>
           grown (log_file c s) (log_file c s') \<and> db_file c s' = db_file c s \<and>
           unat index < log_count (log_file c s') \<and> off = uint (entry_at (log_file c s') (unat index)) \<and>
           off + uint sz \<le> 65536 \<and>
           (log_file c s' = log_file c s \<or> unat index = log_count (log_file c s)) \<and>
           (visited = 0 \<and> last_fits (log_file c s) sz \<longrightarrow> log_file c s' = log_file c s \<and> Suc (unat index) = log_count (log_file c s))"
proof -
  from assms(1) obtain df lf where o: "fds s (c_fd c) = Some df" "fds s (l_fd (c_log c)) = Some lf" "f_append lf"
    "f_ino df \<noteq> f_ino lf"
    by (auto elim: conn_okE)
  let ?fd = "l_fd (c_log c)"
  define L where "L = log_file c s"
  have L: "6 \<le> length L" "even (length L)" "file_of s ?fd = L"
    using assms(1) by (auto simp: conn_ok_def L_def log_file_def)
  define s1 where "s1 = set_pos s ?fd (length L)"
  have seek: "sys_lseek ?fd 0 SEEK_END s = (int (length L), s1)"
    using o(2) L(3) by (simp add: sys_lseek_def Let_def s1_def file_of_open)
  have s1: "same_data s s1" by (simp add: s1_def)
  obtain index v off s2 where walk:
    "walk_entries (c_log c) sz (logdb_log_index_from_offset (int (length L)) - of_nat visited) 0 s1 = (index, v, off, s2)"
    by (metis prod_cases4)
  have "fds s1 ?fd \<noteq> None" using s1 frame_fd [OF _ o(2)] by (fastforce simp: same_data_def)
  from walk_entries_spec [OF walk this] same_data_file [OF s1]
  have w: "same_data s1 s2" "off = -1 \<or> off = uint (entry_at L (unat index)) \<and> unat index < log_count L \<and> off + uint sz \<le> 65536"
    using L(3) by auto
  obtain lf1 where lf1: "fds s1 ?fd = Some lf1" using \<open>fds s1 ?fd \<noteq> None\<close> by blast
  have F1: "file_of s1 ?fd = L" using same_data_file [OF s1] L(3) by simp
  have q1: "quiet s1" using calm_quiet [OF assms(2)] by (simp add: s1_def)
  have "unat (logdb_log_index_from_offset (int (length L))) = log_count L"
    using index_from_offset_nat [of "length L"] log_length [OF L(1,2)] assms(4) [folded L_def] by simp
  then have last: "visited = 0 \<and> last_fits L sz \<Longrightarrow> off \<noteq> -1 \<and> Suc (unat index) = log_count L"
    using walk_entries_last [OF _ lf1 q1, unfolded F1] walk by fastforce
  have s2: "same_data s s2" by (rule same_data_trans [OF s1 w(1)])
  then have fr2: "frame s s2" "inode s2 = inode s" by (simp_all add: same_data_def)
  show ?thesis
  proof (cases "off = -1")
    case False
    with w(2) have "lease_choose (c_log c) visited sz s = (Some (index, v, off), s2)"
      by (auto simp: lease_choose_def seek walk)
    with False w(2) fr2(1) same_data_file [OF s2] L(3) last [unfolded L_def] show ?thesis
      by (intro exI [of _ index] exI [of _ v] exI [of _ off] exI [of _ s2])
         (auto simp: grown_def log_file_def db_file_def)
  next
    case True
    obtain r s3 where ap: "append_entry (c_log c) s2 = (r, s3)" by fastforce
    obtain lf2 where lf2: "fds s2 ?fd = Some lf2" "f_ino lf2 = f_ino lf" "f_append lf2"
      using frame_fd [OF fr2(1) o(2)] o(3) by auto
    obtain df2 where df2: "fds s2 (c_fd c) = Some df2" "f_ino df2 = f_ino df"
      using frame_fd [OF fr2(1) o(1)] by auto
    have L2: "L = file_of s2 ?fd" using same_data_file [OF s2] L(3) by simp
    from append_entry_calm [OF L2 ap lf2(1,3) frame_calm [OF fr2(1) assms(2)] L(1,2)] assms(4)
    have r: "r = Some (of_nat (log_count L))" "frame s2 s3" "file_of s3 ?fd = L @ [0, 0]"
      "\<forall>j. j \<noteq> f_ino lf \<longrightarrow> inode s3 j = inode s2 j"
      using lf2(2) by (auto simp: L_def)
    obtain df3 where df3: "fds s3 (c_fd c) = Some df3" "f_ino df3 = f_ino df"
      using frame_fd [OF r(2) df2(1)] df2(2) by auto
    have db: "db_file c s3 = db_file c s"
      using r(4) o(1,4) df3 fr2(2) by (simp add: db_file_def file_of_open)
    have idx: "unat (of_nat (log_count L) :: 32 word) = log_count L"
      using assms(4) by (simp add: unat_of_nat L_def)
    have run: "lease_choose (c_log c) visited sz s = (Some (of_nat (log_count L), 1, 0), s3)"
      by (simp add: lease_choose_def seek walk True ap r(1))
    have "log_file c s3 = L @ [0, 0]" using r(3) by (simp add: log_file_def)
    moreover have "\<not> (visited = 0 \<and> last_fits L sz)" using last True by blast
    ultimately show ?thesis
      using run idx db frame_trans [OF fr2(1) r(2)] assms(3) entry_at_new [OF log_length [OF L(1,2)]] log_count_append2 [OF L(1)]
      by (intro exI [of _ "of_nat (log_count L)"] exI [of _ 1] exI [of _ 0] exI [of _ s3])
         (simp add: grown_def L_def)
  qed
qed

lemma acquire_write_calm:
  assumes "conn_ok c s" "idle (l_lock (c_log c))" "calm s" "other_locks s = []" "uint sz \<le> 65536"
    and "Suc (log_count (log_file c s)) < 65536"
  shows "\<exists>lease' bs s'. logdb_lease_acquire_write (Suc n) lease c sz s =
            Done (0, lease', c\<lparr>c_readers := c_readers c + 1, c_log := (c_log c)\<lparr>l_lock := bs\<rparr>\<rparr>, s') \<and>
           frame s s' \<and> grown (log_file c s) (log_file c s') \<and> db_file c s' = db_file c s \<and>
           write_lease_ok c s' lease' \<and> ls_len lease' = sz \<and> holding True bs (ls_index lease') (-1) \<and>
           (log_file c s' = log_file c s \<or> unat (ls_index lease') = log_count (log_file c s)) \<and>
           (last_fits (log_file c s) sz \<longrightarrow> log_file c s' = log_file c s \<and> Suc (unat (ls_index lease')) = log_count (log_file c s))"
proof -
  let ?c = "c\<lparr>c_readers := c_readers c + 1\<rparr>"
  define s1 where "s1 = popped s"
  have s1: "same_data s s1" "frame s s1" "event s \<noteq> Fail"
    using assms(3) quiet_event [of s] by (auto simp: s1_def calm_def)
  have prel: "logdb_lease_acquire_prelude lease c s = (0, lease\<lparr>ls_connection := False\<rparr>, ?c, s1)"
    using s1(3) by (simp add: logdb_lease_acquire_prelude_def sys_pthread_def pop_eq Let_def s1_def)
  have ok1: "conn_ok ?c s1" "log_file ?c s1 = log_file c s" "db_file ?c s1 = db_file c s"
    using assms(1) same_data_file [OF s1(1)] by (simp_all add: conn_ok_def log_file_def db_file_def s1_def)
  have calm1: "calm s1" by (rule frame_calm [OF s1(2) assms(3)])
  from lease_choose_calm [OF ok1(1) calm1 assms(5), of 0] assms(6) ok1
  obtain index v off s2 where ch: "lease_choose (c_log c) 0 sz s1 = (Some (index, v, off), s2)" "frame s1 s2"
    "grown (log_file c s) (log_file c s2)" "db_file c s2 = db_file c s" "unat index < log_count (log_file c s2)"
    "off = uint (entry_at (log_file c s2) (unat index))" "off + uint sz \<le> 65536"
    "log_file c s2 = log_file c s \<or> unat index = log_count (log_file c s)"
    "last_fits (log_file c s) sz \<longrightarrow> log_file c s2 = log_file c s \<and> Suc (unat index) = log_count (log_file c s)"
    by (auto simp: log_file_def db_file_def)
  have fr2: "frame s s2" by (rule frame_trans [OF s1(2) ch(2)])
  have calm2: "calm s2" by (rule frame_calm [OF fr2 assms(3)])
  have bs: "blocks_sorted (l_lock (c_log c))" using assms(1) by (simp add: conn_ok_def)
  have small: "unat index + 127 < 4294967296"
    using ch(3,5) assms(6) log_count_append2 [of "log_file c s"] assms(1) by (auto simp: grown_def conn_ok_def)
  have open2: "fds s2 (l_fd (c_log c)) \<noteq> None" and nolocks: "other_locks s2 = []"
    using assms(1,4) frame_fd [OF fr2] fr2 by (fastforce elim!: conn_okE, simp add: frame_def)
  from lock_write [OF bs small, of s2] assms(2) calm_quiet [OF calm2] open2 nolocks
  obtain bs' s3 where lk: "logdb_log_lock (c_log c) index LOCK_WRITE s2 = Done (0, (c_log c)\<lparr>l_lock := bs'\<rparr>, s3)"
    "same_data s2 s3" "holding True bs' index (-1)"
    by auto
  obtain fits len s4 where sp: "logdb_lease_read_entry_space ((c_log c)\<lparr>l_lock := bs'\<rparr>) index sz s3 = (fits, len, s4)"
    by (metis prod_cases3)
  have fr3: "frame s2 s3" "file_of s3 (l_fd (c_log c)) = log_file c s2"
    using lk(2) same_data_file [OF lk(2)] by (auto simp: same_data_def log_file_def)
  obtain lf3 where lf3: "fds s3 (l_fd ((c_log c)\<lparr>l_lock := bs'\<rparr>)) = Some lf3"
    using open2 frame_fd [OF fr3(1)] by fastforce
  note rs = read_space_spec [OF sp lf3]
  have fits: "fits" using rs(3) calm_quiet [OF frame_calm [OF fr3(1) calm2]] ch(5-7) fr3(2) by simp
  have fr: "frame s s4" "log_file c s4 = log_file c s2" "db_file c s4 = db_file c s"
    using rs(1) fr2 fr3 frame_trans same_data_file [OF rs(1)] same_data_file [OF lk(2)] ch(4)
    by (auto simp: same_data_def log_file_def db_file_def)
  let ?lease = "\<lparr>ls_connection = True, ls_index = index, ls_offset = off, ls_len = sz, ls_type = LOCK_WRITE\<rparr>"
  have "logdb_lease_acquire_write (Suc n) lease c sz s =
          Done (0, ?lease, c\<lparr>c_readers := c_readers c + 1, c_log := (c_log c)\<lparr>l_lock := bs'\<rparr>\<rparr>, s4)"
    using assms(5) fits ch(1) lk(1) sp
    by (simp add: logdb_lease_acquire_write_def size_defs prel lease_take_def)
  moreover have "write_lease_ok c s4 ?lease"
    using ch(5-7) fr(2) by (simp add: write_lease_ok_def size_defs)
  ultimately show ?thesis using fr ch(3,8,9) lk(3)
    by (intro exI [of _ ?lease] exI [of _ bs'] exI [of _ s4]) simp
qed

end
