(* ===== verification/Txn.thy ===== *)
theory Txn
  imports Lease
begin

text \<open>
  \<^verbatim>\<open>src/logdb_txn.c\<close>: nested transactions, \<open>put\<close> and commit. A thread is a number; a connection is
  passed as a pointer that is null (0) or the one connection of the world.
\<close>

section \<open>Threads and their current transaction\<close>

definition logdb_txn_current :: "nat \<Rightarrow> world \<Rightarrow> ptr" where
  "logdb_txn_current tid w = c_current_txn (w_conn w) tid"

definition logdb_txn_set_current :: "nat \<Rightarrow> ptr \<Rightarrow> world \<Rightarrow> int \<times> world" where
  "logdb_txn_set_current tid txn w =
     (case sys_pthread (w_os w) of (ok, s) \<Rightarrow>
        if ok then (0, w\<lparr>w_os := s, w_conn := (w_conn w)\<lparr>c_current_txn := (c_current_txn (w_conn w))(tid := txn)\<rparr>\<rparr>)
        else (-1, w\<lparr>w_os := s\<rparr>))"

text \<open>The check that \<open>LOGDB_VERIFY_CONNECTION\<close> puts before each entry point; only a debug build has it.\<close>

definition verify_connection :: "bool \<Rightarrow> ptr \<Rightarrow> world \<Rightarrow> bool outcome" where
  "verify_connection dbg conn w =
     (if conn = 0 then (if dbg then Done False else Fault (BadPtr 0))
      else if \<not> c_alive (w_conn w) then Fault (BadPtr conn)
      else Done (\<not> (dbg \<and> c_version (w_conn w) \<noteq> LOGDB_VERSION)))"

definition get_txn :: "world \<Rightarrow> ptr \<Rightarrow> logdb_txn_t outcome" where
  "get_txn w p = (case txns (w_heap w) p of None \<Rightarrow> Fault (BadPtr p) | Some t \<Rightarrow> Done t)"

definition put_txn :: "world \<Rightarrow> ptr \<Rightarrow> logdb_txn_t option \<Rightarrow> world" where
  "put_txn w p t = w\<lparr>w_heap := (w_heap w)\<lparr>txns := (txns (w_heap w))(p := t)\<rparr>\<rparr>"

section \<open>Beginning and closing\<close>

definition logdb_txn_begin_implicit :: "nat \<Rightarrow> world \<Rightarrow> ptr \<times> world" where
  "logdb_txn_begin_implicit tid w =
     (case h_malloc (w_heap w) of (txn, h) \<Rightarrow>
        if txn = 0 then (0, w\<lparr>w_heap := h\<rparr>)
        else (txn, put_txn (w\<lparr>w_heap := h\<rparr>) txn (Some \<lparr>t_outer = logdb_txn_current tid w, t_buf = 0\<rparr>)))"

text \<open>With a connection the outer transaction becomes current; without one it is closed as well.\<close>

fun txn_close :: "nat \<Rightarrow> nat option \<Rightarrow> ptr \<Rightarrow> world \<Rightarrow> world outcome" where
  "txn_close 0 conn txn w = Fault Diverges"
| "txn_close (Suc n) conn txn w =
     obind (get_txn w txn) (\<lambda>t.
     obind (case conn of
              Some tid \<Rightarrow> Done (snd (logdb_txn_set_current tid (t_outer t) w))
            | None \<Rightarrow> if t_outer t \<noteq> 0 then txn_close n None (t_outer t) w else Done w) (\<lambda>w.
     obind (get_txn w txn) (\<lambda>t.
     obind (if t_buf t \<noteq> 0 then logdb_buffer_free (t_buf t) (w_heap w) else Done (w_heap w)) (\<lambda>h.
     Done (put_txn (w\<lparr>w_heap := h\<rparr>) txn None)))))"

definition logdb_txn_close :: "nat option \<Rightarrow> ptr \<Rightarrow> world \<Rightarrow> world outcome" where
  "logdb_txn_close conn txn w = txn_close (fuel_of (w_heap w)) conn txn w"

section \<open>Writing a chain of buffers\<close>

fun txn_write_buf ::
  "nat \<Rightarrow> logdb_connection_t \<Rightarrow> heap \<Rightarrow> logdb_lease_t \<Rightarrow> ptr \<Rightarrow> os \<Rightarrow> (int \<times> logdb_lease_t \<times> os) outcome" where
  "txn_write_buf 0 c h lease buf s = Fault Diverges"
| "txn_write_buf (Suc n) c h lease buf s =
     obind (get_buf h buf) (\<lambda>b.
     obind (if b_orig b \<noteq> 0 then txn_write_buf n c h lease (b_orig b) s
            else logdb_lease_write lease c h (b_data b) (b_len b) s) (\<lambda>(r, lease, s).
     if r \<noteq> 0 then Done (-1, lease, s)
     else if b_next b \<noteq> 0 then txn_write_buf n c h lease (b_next b) s
     else Done (0, lease, s)))"

definition logdb_txn_write_buf ::
  "logdb_connection_t \<Rightarrow> heap \<Rightarrow> logdb_lease_t \<Rightarrow> ptr \<Rightarrow> os \<Rightarrow> (int \<times> logdb_lease_t \<times> os) outcome" where
  "logdb_txn_write_buf c h lease buf s = txn_write_buf (fuel_of h) c h lease buf s"

section \<open>Commit\<close>

text \<open>
  The part of the commit between the acquisition of the lease and its release: the data, the
  \<open>fsync\<close>, the log entry, whose 16-bit length is cut from the offset. The result is 0 or -1.
\<close>

definition commit_under_lease ::
  "logdb_connection_t \<Rightarrow> heap \<Rightarrow> logdb_lease_t \<Rightarrow> ptr \<Rightarrow> os \<Rightarrow> (int \<times> logdb_lease_t \<times> os) outcome" where
  "commit_under_lease c h lease buf s =
     obind (logdb_txn_write_buf c h lease buf s) (\<lambda>(r, lease, s).
     if r \<noteq> 0 then Done (-1, lease, s)
     else let durable = \<not> has_flag (c_flags c) LOGDB_OPEN_NOSYNC in
     case (if durable then sys_fsync (c_fd c) s else (0, s)) of (r, s) \<Rightarrow>
     if r = -1 then Done (-1, lease, s)
     else case logdb_log_write_entry (c_log c) (word_of_int (ls_offset lease)) (ls_index lease) s of (r, s) \<Rightarrow>
     if r \<noteq> 0 then Done (-1, lease, s)
     else Done (0, lease, if durable then snd (sys_fsync (l_fd (c_log c)) s) else s))"

definition commit_outermost :: "nat \<Rightarrow> bool \<Rightarrow> 32 word \<Rightarrow> ptr \<Rightarrow> world \<Rightarrow> (int \<times> world) outcome" where
  "commit_outermost fuel dbg len buf w =
     obind (logdb_lease_acquire_write fuel zero_lease (w_conn w) len (w_os w)) (\<lambda>(r, lease, c, s).
     if r \<noteq> 0 then Done (-1, w\<lparr>w_conn := c, w_os := s\<rparr>)
     else obind (commit_under_lease c (w_heap w) lease buf s) (\<lambda>(r, lease, s).
          obind (logdb_lease_release dbg lease c s) (\<lambda>(lease, c, s).
          Done (r, w\<lparr>w_conn := c, w_os := s\<rparr>))))"

text \<open>Handing the data of a nested transaction to the outer one.\<close>

definition merge_into_outer :: "bool \<Rightarrow> logdb_txn_t \<Rightarrow> world \<Rightarrow> world outcome" where
  "merge_into_outer dbg t w =
     (if t_buf t = 0 then Done w
      else obind (get_txn w (t_outer t)) (\<lambda>ot.
           obind (logdb_buffer_append dbg (t_buf ot) (t_buf t) (w_heap w)) (\<lambda>(b, h).
           Done (put_txn (w\<lparr>w_heap := h\<rparr>) (t_outer t) (Some (ot\<lparr>t_buf := b\<rparr>))))))"

definition logdb_txn_commit :: "nat \<Rightarrow> bool \<Rightarrow> nat \<Rightarrow> ptr \<Rightarrow> world \<Rightarrow> (int \<times> world) outcome" where
  "logdb_txn_commit fuel dbg tid txn w =
     obind (get_txn w txn) (\<lambda>t.
     obind (logdb_buffer_length (w_heap w) (t_buf t)) (\<lambda>len.
     obind (if len = 0 then Done (0, w)
            else if t_outer t \<noteq> 0 then obind (merge_into_outer dbg t w) (\<lambda>w. Done (0, w))
            else commit_outermost fuel dbg len (t_buf t) w) (\<lambda>(r, w).
     if r \<noteq> 0 then Done (-1, w)
     else obind (logdb_txn_close (Some tid) txn w) (\<lambda>w. Done (0, w)))))"

definition logdb_txn_commit_implicit :: "nat \<Rightarrow> bool \<Rightarrow> nat \<Rightarrow> ptr \<Rightarrow> world \<Rightarrow> (int \<times> world) outcome" where
  "logdb_txn_commit_implicit fuel dbg tid txn w =
     obind (logdb_txn_commit fuel dbg tid txn w) (\<lambda>(result, w).
     if result \<noteq> 0 then obind (logdb_txn_close (Some tid) txn w) (\<lambda>w. Done (result, w))
     else Done (result, w))"

section \<open>Entry points\<close>

definition logdb_begin :: "bool \<Rightarrow> nat \<Rightarrow> ptr \<Rightarrow> world \<Rightarrow> (int \<times> world) outcome" where
  "logdb_begin dbg tid conn w =
     obind (verify_connection dbg conn w) (\<lambda>ok.
     if \<not> ok then Done (-1, w)
     else case logdb_txn_begin_implicit tid w of (txn, w) \<Rightarrow>
       if txn \<noteq> 0 then Done (logdb_txn_set_current tid txn w) else Done (-1, w))"

text \<open>
  The record header lies on the stack while it is copied into a buffer: an address of its own that
  is gone afterwards.
\<close>

definition put_header :: "bool \<Rightarrow> logdb_data_header_t \<Rightarrow> heap \<Rightarrow> (ptr \<times> heap) outcome" where
  "put_header dbg header h =
     (let a = Suc (brk h); h = h\<lparr>brk := a, mem := (mem h)(a := Some (encode_data_header header))\<rparr>
      in obind (logdb_buffer_new_copy dbg a (of_nat sizeof_data_header) h) (\<lambda>(p, h).
         Done (p, h\<lparr>mem := (mem h)(a := None)\<rparr>)))"

definition logdb_put :: "nat \<Rightarrow> bool \<Rightarrow> nat \<Rightarrow> ptr \<Rightarrow> ptr \<Rightarrow> ptr \<Rightarrow> world \<Rightarrow> (int \<times> world) outcome" where
  "logdb_put fuel dbg tid conn key val w =
     obind (verify_connection dbg conn w) (\<lambda>ok.
     if \<not> ok \<or> (dbg \<and> (key = 0 \<or> val = 0)) then Done (-1, w)
     else obind (logdb_buffer_length (w_heap w) key) (\<lambda>klen.
     obind (logdb_buffer_length (w_heap w) val) (\<lambda>vlen.
     obind (put_header dbg \<lparr>keylen = klen, valuelen = vlen\<rparr> (w_heap w)) (\<lambda>(headerbuf, h).
     let w = w\<lparr>w_heap := h\<rparr> in
     if headerbuf = 0 then Done (-1, w)
     else case logdb_txn_begin_implicit tid w of (txn, w) \<Rightarrow>
     if txn = 0 then obind (logdb_buffer_free headerbuf (w_heap w)) (\<lambda>h. Done (-1, w\<lparr>w_heap := h\<rparr>))
     else obind (logdb_buffer_append dbg headerbuf key (w_heap w)) (\<lambda>(b, h).
          obind (logdb_buffer_append dbg b val h) (\<lambda>(b, h).
          let w = w\<lparr>w_heap := h\<rparr> in
          obind (get_txn w txn) (\<lambda>t.
          logdb_txn_commit_implicit fuel dbg tid txn (put_txn w txn (Some (t\<lparr>t_buf := b\<rparr>))))))))))"

definition logdb_commit :: "nat \<Rightarrow> bool \<Rightarrow> nat \<Rightarrow> ptr \<Rightarrow> world \<Rightarrow> (int \<times> world) outcome" where
  "logdb_commit fuel dbg tid conn w =
     obind (verify_connection dbg conn w) (\<lambda>ok.
     if \<not> ok then Done (-1, w)
     else let txn = logdb_txn_current tid w in
       if txn = 0 then Done (-1, w) else logdb_txn_commit fuel dbg tid txn w)"

definition logdb_rollback :: "bool \<Rightarrow> nat \<Rightarrow> ptr \<Rightarrow> world \<Rightarrow> (int \<times> world) outcome" where
  "logdb_rollback dbg tid conn w =
     obind (verify_connection dbg conn w) (\<lambda>ok.
     if \<not> ok then Done (-1, w)
     else let txn = logdb_txn_current tid w in
       if txn = 0 then Done (-1, w)
       else obind (logdb_txn_close (Some tid) txn w) (\<lambda>w. Done (0, w)))"

definition logdb_txn_destruct :: "ptr \<Rightarrow> world \<Rightarrow> world outcome" where
  "logdb_txn_destruct txn w = (if txn \<noteq> 0 then logdb_txn_close None txn w else Done w)"

definition logdb_txn_rollback_all :: "nat \<Rightarrow> world \<Rightarrow> world outcome" where
  "logdb_txn_rollback_all tid w = logdb_txn_destruct (logdb_txn_current tid w) w"

end
