(* ===== verification/Commit.thy ===== *)
theory Commit
  imports Txn
begin

text \<open>
  What commit and put of \<^verbatim>\<open>src/logdb_txn.c\<close> do to the files: writes through a lease, the list of
  sections as the abstract state of the database, and the commit as its extension.
\<close>

section \<open>Changes of one file\<close>

text \<open>\<open>changes fd s s' F\<close>: from \<open>s\<close> to \<open>s'\<close> only the file behind \<open>fd\<close> has changed, to \<open>F\<close>.\<close>

definition changes :: "int \<Rightarrow> os \<Rightarrow> os \<Rightarrow> byte list \<Rightarrow> bool" where
  "changes fd s s' F \<longleftrightarrow> frame s s' \<and>
     (case fds s fd of None \<Rightarrow> False | Some f \<Rightarrow> inode s' = (inode s)(f_ino f := F))"

lemma frame_fd_back:
  "frame s s' \<Longrightarrow> fds s' fd = Some f \<Longrightarrow> \<exists>g. fds s fd = Some g \<and> f_ino g = f_ino f \<and> f_append g = f_append f"
  by (simp only: frame_def) (cases "fds s fd"; auto simp: fd_key_def dest!: spec [of _ fd])

lemma frame_appends: "frame s s' \<Longrightarrow> pwrite_appends s' = pwrite_appends s"
  by (simp add: frame_def)

lemma changes_file: "changes fd s s' F \<Longrightarrow> file_of s' fd = F"
  by (auto simp: changes_def file_of_def split: option.splits dest: frame_fd)

lemma changes_other:
  "changes fd s s' F \<Longrightarrow> fds s fd = Some f \<Longrightarrow> fds s fd2 = Some g \<Longrightarrow> f_ino g \<noteq> f_ino f \<Longrightarrow> file_of s' fd2 = file_of s fd2"
  by (auto simp: changes_def file_of_def split: option.splits dest: frame_fd)

lemma changes_trans:
  assumes "changes fd s t F" "changes fd t u G"
  shows "changes fd s u G"
  using assms frame_trans [of s t u] by (auto simp: changes_def split: option.splits dest!: frame_fd [of s t])

lemma changes_same: "changes fd s t F \<Longrightarrow> same_data t u \<Longrightarrow> changes fd s u F"
  using frame_trans [of s t u] by (auto simp: changes_def same_data_def split: option.splits)

lemma same_changes:
  assumes "same_data s t" "changes fd t u F"
  shows "changes fd s u F"
proof -
  have fr: "frame s t" "inode t = inode s" using assms(1) by (simp_all add: same_data_def)
  obtain f where f: "fds t fd = Some f" "frame t u" "inode u = (inode t)(f_ino f := F)"
    using assms(2) by (auto simp: changes_def split: option.splits)
  then obtain g where "fds s fd = Some g" "f_ino g = f_ino f"
    using frame_fd_back [OF fr(1)] by blast
  with f fr frame_trans [OF fr(1) f(2)] show ?thesis by (simp add: changes_def)
qed

lemma pwrite_changes:
  assumes "logdb_io_pwrite fd buf offs s = (left, s')" "fds s fd = Some f" "0 \<le> offs" "\<not> (f_append f \<and> pwrite_appends s)"
  shows "changes fd s s' (write_at (file_of s fd) (nat offs) (take (length buf - left) buf))" "left \<le> length buf"
    "quiet s \<Longrightarrow> left = 0"
proof -
  let ?F = "write_at (file_of s fd) (nat offs) (take (length buf - left) buf)"
  note sp = logdb_io_pwrite_spec [OF assms(1-3)]
  have s': "s' = set_file (resched s (sched s')) (f_ino f) ?F"
    using sp(2) pwrite_pos_exact [OF assms(2,4)] by simp
  have "frame s (set_file (resched s (sched s')) (f_ino f) ?F)"
    using frame_trans [OF frame_resched [OF logdb_io_sched(4) [OF assms(1)]] frame_steps(2)] .
  then have "frame s s'" using s' by simp
  moreover have "inode s' = (inode s)(f_ino f := ?F)" by (subst s') simp
  ultimately show "changes fd s s' ?F" using assms(2) by (simp add: changes_def)
  show "left \<le> length buf" "quiet s \<Longrightarrow> left = 0" using sp by auto
qed

section \<open>Writing through a lease\<close>

lemma advance_add: "advance (advance lease a) b = advance lease (a + b)"
  by (simp add: advance_def)

lemma advance_0 [simp]: "advance lease 0 = lease"
  by (simp add: advance_def)

lemma advance_simps [simp]:
  "ls_connection (advance lease a) = ls_connection lease" "ls_index (advance lease a) = ls_index lease"
  "ls_offset (advance lease a) = ls_offset lease + a" "ls_type (advance lease a) = ls_type lease"
  "ls_len (advance lease a) = ls_len lease - word_of_int a"
  by (simp_all add: advance_def)

lemma unat_word_sub: "n \<le> unat (w :: 32 word) \<Longrightarrow> unat (w - word_of_int (int n)) = unat w - n"
proof -
  assume n: "n \<le> unat w"
  then have "unat (of_nat n :: 32 word) = n" using unat_32_less [of w] by (simp add: unat_of_nat)
  with n show ?thesis by (simp add: unat_sub_if_size)
qed

lemma transferred_nat: "n \<le> unat len \<Longrightarrow> transferred len (int n) = int (unat len - n)"
proof -
  assume n: "n \<le> unat len"
  have "uint len - int n = int (unat len - n)" using n by simp
  moreover have "int (unat len - n) < 2 ^ 64" using unat_32_less [of len] by simp
  ultimately show ?thesis unfolding transferred_def by simp
qed

text \<open>The position in the database file that a lease writes to next.\<close>

definition lease_pos :: "logdb_lease_t \<Rightarrow> nat" where
  "lease_pos lease = 6 + 65536 * unat (ls_index lease) + nat (ls_offset lease)"

definition lease_usable :: "logdb_lease_t \<Rightarrow> bool" where
  "lease_usable lease \<longleftrightarrow> ls_connection lease \<and> 0 \<le> ls_offset lease \<and> unat (ls_index lease) < 65536"

lemma lease_usable_advance [simp]: "lease_usable lease \<Longrightarrow> lease_usable (advance lease (int m))"
  by (simp add: lease_usable_def)

lemma lease_pos_advance: "lease_usable lease \<Longrightarrow> lease_pos (advance lease (int m)) = lease_pos lease + m"
  by (simp add: lease_usable_def lease_pos_def nat_add_distrib)

lemma lease_pos_offset:
  "lease_usable lease \<Longrightarrow> nat (logdb_connection_offset (ls_index lease) + ls_offset lease) = lease_pos lease \<and>
    0 \<le> logdb_connection_offset (ls_index lease) + ls_offset lease"
  using connection_offset_nat [of "ls_index lease"] connection_offset_ge [of "ls_index lease"]
  by (simp add: lease_usable_def lease_pos_def nat_add_distrib)

text \<open>Writes to the database go where they should.\<close>

definition db_exact :: "logdb_connection_t \<Rightarrow> os \<Rightarrow> bool" where
  "db_exact c s \<longleftrightarrow> (case fds s (c_fd c) of None \<Rightarrow> False | Some f \<Rightarrow> \<not> (f_append f \<and> pwrite_appends s))"

lemma db_exact_frame: "frame s s' \<Longrightarrow> db_exact c s \<Longrightarrow> db_exact c s'"
  by (auto simp: db_exact_def frame_appends split: option.splits dest: frame_fd)

lemma lease_write_spec:
  assumes "load_bytes h buf (unat len) = Done bs" "unat len \<le> unat (ls_len lease)" "lease_usable lease" "db_exact c s"
  shows "\<exists>left s'. logdb_lease_write lease c h buf len s = Done (int left, advance lease (int (length bs - left)), s') \<and>
           left \<le> length bs \<and> length bs = unat len \<and> (quiet s \<longrightarrow> left = 0) \<and>
           changes (c_fd c) s s' (write_at (db_file c s) (lease_pos lease) (take (length bs - left) bs))"
proof -
  let ?off = "logdb_connection_offset (ls_index lease) + ls_offset lease"
  obtain df where df: "fds s (c_fd c) = Some df" "\<not> (f_append df \<and> pwrite_appends s)"
    using assms(4) by (auto simp: db_exact_def split: option.splits)
  have off: "nat ?off = lease_pos lease" "0 \<le> ?off" using lease_pos_offset [OF assms(3)] by simp_all
  obtain left s' where w: "logdb_io_pwrite (c_fd c) bs ?off s = (left, s')" by fastforce
  note pw = pwrite_changes [OF w df(1) off(2) df(2)]
  have len: "length bs = unat len" by (rule load_bytes_length [OF assms(1)])
  have "(if len = 0 then Done [] else load_bytes h buf (unat len)) = Done bs" using assms(1) len by auto
  moreover have "\<not> len > ls_len lease" using assms(2) by (simp add: word_less_nat_alt)
  ultimately have "logdb_lease_write lease c h buf len s = Done (int left, advance lease (transferred len (int left)), s')"
    using assms(3) w by (simp add: logdb_lease_write_def lease_usable_def)
  moreover have "transferred len (int left) = int (length bs - left)"
    using transferred_nat pw(2) len by simp
  ultimately show ?thesis using pw off(1) len by (auto simp: db_file_def)
qed

text \<open>
  What writing the bytes \<open>xs\<close> through a lease does, whatever fails: a prefix of them is stored at the
  position of the lease, which advances by its length; the result is 0 exactly when it is all of them.
\<close>

definition stores :: "logdb_connection_t \<Rightarrow> logdb_lease_t \<Rightarrow> os \<Rightarrow> byte list \<Rightarrow> int \<times> logdb_lease_t \<times> os \<Rightarrow> bool" where
  "stores c lease s xs res \<longleftrightarrow> (case res of (r, lease', s') \<Rightarrow>
     \<exists>m \<le> length xs. lease' = advance lease (int m) \<and> (r = 0 \<longleftrightarrow> m = length xs) \<and> (quiet s \<longrightarrow> r = 0) \<and>
       changes (c_fd c) s s' (write_at (db_file c s) (lease_pos lease) (take m xs)))"

lemma stores_chain:
  assumes "stores c lease s ys (r1, lease1, t)" "lease_usable lease"
    and "nx = 0 \<Longrightarrow> zs = []"
    and "\<lbrakk>r1 = 0; nx \<noteq> 0\<rbrakk> \<Longrightarrow> \<exists>res. rest lease1 t = Done res \<and> stores c lease1 t zs res"
  shows "\<exists>res. (if r1 \<noteq> 0 then Done (-1, lease1, t) else if (nx :: ptr) \<noteq> 0 then rest lease1 t else Done (0, lease1, t)) = Done res \<and>
               stores c lease s (ys @ zs) res"
proof -
  obtain m1 where m1: "m1 \<le> length ys" "lease1 = advance lease (int m1)" "r1 = 0 \<longleftrightarrow> m1 = length ys" "quiet s \<longrightarrow> r1 = 0"
    "changes (c_fd c) s t (write_at (db_file c s) (lease_pos lease) (take m1 ys))"
    using assms(1) by (auto simp: stores_def)
  show ?thesis
  proof (cases "r1 = 0 \<and> nx \<noteq> 0")
    case False
    then show ?thesis
      using m1 assms(3) by (auto simp: stores_def intro!: exI [of _ m1])
  next
    case True
    then obtain r lease2 u where run: "rest lease1 t = Done (r, lease2, u)" "stores c lease1 t zs (r, lease2, u)"
      using assms(4) by auto
    have m: "m1 = length ys" using True m1(3) by simp
    from run(2) obtain m2 where m2: "m2 \<le> length zs" "lease2 = advance lease1 (int m2)" "r = 0 \<longleftrightarrow> m2 = length zs"
      "quiet t \<longrightarrow> r = 0" "changes (c_fd c) t u (write_at (db_file c t) (lease_pos lease1) (take m2 zs))"
      by (auto simp: stores_def)
    have D: "db_file c t = write_at (db_file c s) (lease_pos lease) ys"
      using changes_file [OF m1(5)] m by (simp add: db_file_def)
    have pos: "lease_pos lease1 = lease_pos lease + length ys"
      using assms(2) m1(2) m by (simp add: lease_pos_advance)
    have "write_at (db_file c t) (lease_pos lease1) (take m2 zs) =
          write_at (db_file c s) (lease_pos lease) (take (length ys + m2) (ys @ zs))"
      by (simp add: D pos write_at_append)
    with m2(5) have "changes (c_fd c) s u (write_at (db_file c s) (lease_pos lease) (take (length ys + m2) (ys @ zs)))"
      using changes_trans [OF m1(5)] by simp
    moreover have "quiet s \<longrightarrow> quiet t" using m1(5) frame_quiet by (auto simp: changes_def)
    ultimately have "stores c lease s (ys @ zs) (r, lease2, u)"
      using m1(2) m2 m by (auto simp: stores_def advance_add intro!: exI [of _ "length ys + m2"])
    with True run(1) show ?thesis by simp
  qed
qed

lemma stores_usable: "stores c lease s xs (r, lease', s') \<Longrightarrow> lease_usable lease \<Longrightarrow> lease_usable lease'"
  by (auto simp: stores_def)

lemma stores_room:
  assumes "stores c lease s xs (0, lease', s')" "length (xs @ ys) \<le> unat (ls_len lease)"
  shows "length ys \<le> unat (ls_len lease')"
  using assms unat_word_sub [of "length xs" "ls_len lease"] by (auto simp: stores_def)

lemma stores_exact: "stores c lease s xs (r, lease', s') \<Longrightarrow> db_exact c s \<Longrightarrow> db_exact c s'"
  by (auto simp: stores_def changes_def intro: db_exact_frame)

lemma txn_write_buf_stores:
  assumes "brep h n p xs" "p \<noteq> 0" "n \<le> k" "length xs \<le> unat (ls_len lease)" "lease_usable lease" "db_exact c s"
  shows "\<exists>res. txn_write_buf k c h lease p s = Done res \<and> stores c lease s xs res"
  using assms
proof (induction arbitrary: k lease s rule: brep.induct)
  case null
  then show ?case by simp
next
  case (own p b ys n zs)
  then obtain k' where k: "k = Suc k'" "n \<le> k'" by (cases k) auto
  from own.prems(3) load_bytes_length [OF own.hyps(4)] have "unat (b_len b) \<le> unat (ls_len lease)" by simp
  from lease_write_spec [OF own.hyps(4) this own.prems(4,5)]
  obtain left t where w: "logdb_lease_write lease c h (b_data b) (b_len b) s =
      Done (int left, advance lease (int (length ys - left)), t)" "left \<le> length ys" "quiet s \<longrightarrow> left = 0"
    "changes (c_fd c) s t (write_at (db_file c s) (lease_pos lease) (take (length ys - left) ys))" by auto
  let ?l = "advance lease (int (length ys - left))"
  have st: "stores c lease s ys (int left, ?l, t)"
    using w unfolding stores_def prod.case
    by (intro exI [of _ "length ys - left"]) (simp, cases "left = 0"; simp)
  have nx: "b_next b = 0 \<Longrightarrow> zs = []" using own.hyps(5) by auto
  have "\<exists>res. txn_write_buf k' c h ?l (b_next b) t = Done res \<and> stores c ?l t zs res"
    if "int left = 0" "b_next b \<noteq> 0"
    by (rule own.IH) (use that k stores_room [of c lease s ys ?l t zs] st own.prems stores_usable [OF st] stores_exact [OF st] in auto)
  from stores_chain [OF st own.prems(4) nx, where rest = "\<lambda>l t. txn_write_buf k' c h l (b_next b) t", OF _ this]
  show ?case using own.hyps(2,3) w(1) by (simp add: k get_buf_def)
next
  case (ref p b m ys n zs)
  then obtain k' where k: "k = Suc k'" "m \<le> k'" "n \<le> k'" by (cases k) auto
  from ref.IH(1) [OF ref.hyps(3) k(2) _ ref.prems(4,5)] ref.prems(3)
  obtain r l t where w: "txn_write_buf k' c h lease (b_orig b) s = Done (r, l, t)" and st: "stores c lease s ys (r, l, t)"
    by auto
  have nx: "b_next b = 0 \<Longrightarrow> zs = []" using ref.hyps(5) by auto
  have "\<exists>res. txn_write_buf k' c h l (b_next b) t = Done res \<and> stores c l t zs res"
    if "r = 0" "b_next b \<noteq> 0"
    by (rule ref.IH(2)) (use that k stores_room [of c lease s ys l t zs] st ref.prems stores_usable [OF st] stores_exact [OF st] in auto)
  from stores_chain [OF st ref.prems(4) nx, where rest = "\<lambda>l t. txn_write_buf k' c h l (b_next b) t", OF _ this]
  show ?case using ref.hyps(2,3) w by (simp add: k get_buf_def)
qed


section \<open>The contents of the database\<close>

text \<open>
  The abstract state of the files: the list of sections, each the valid bytes that its log entry says
  it has.
\<close>

definition section_of :: "byte list \<Rightarrow> byte list \<Rightarrow> nat \<Rightarrow> byte list" where
  "section_of L D i = seg D (6 + 65536 * i) (unat (entry_at L i))"

definition db_sections :: "byte list \<Rightarrow> byte list \<Rightarrow> byte list list" where
  "db_sections L D = map (section_of L D) [0..<log_count L]"

definition data_present :: "byte list \<Rightarrow> byte list \<Rightarrow> bool" where
  "data_present L D \<longleftrightarrow> list_all (\<lambda>i. 6 + 65536 * i + unat (entry_at L i) \<le> length D \<or> entry_at L i = 0) [0..<log_count L]"

lemma data_present_iff:
  "data_present L D \<longleftrightarrow> (\<forall>i < log_count L. 6 + 65536 * i + unat (entry_at L i) \<le> length D \<or> entry_at L i = 0)"
  by (auto simp: data_present_def list_all_iff)

lemma data_presentD:
  "data_present L D \<Longrightarrow> i < log_count L \<Longrightarrow> 6 + 65536 * i + unat (entry_at L i) \<le> length D \<or> entry_at L i = 0"
  by (simp add: data_present_def list_all_iff)

lemma length_db_sections [simp]: "length (db_sections L D) = log_count L"
  by (simp add: db_sections_def)

lemma nth_db_sections: "i < log_count L \<Longrightarrow> db_sections L D ! i = section_of L D i"
  by (simp add: db_sections_def)

lemma db_sections_eqI:
  "log_count L' = log_count L \<Longrightarrow> (\<And>i. i < log_count L \<Longrightarrow> section_of L' D' i = section_of L D i) \<Longrightarrow>
   db_sections L' D' = db_sections L D"
  by (simp add: db_sections_def)

lemma db_sections_grown:
  assumes "grown L L'" "6 \<le> length L" "even (length L)"
  shows "db_sections L' D = db_sections L D \<or> db_sections L' D = db_sections L D @ [[]]"
    "data_present L D \<Longrightarrow> data_present L' D"
proof -
  have new: "section_of (L @ [0, 0]) D i = (if i < log_count L then section_of L D i else [])"
    "entry_at (L @ [0, 0]) i = (if i < log_count L then entry_at L i else 0)" if "i < Suc (log_count L)" for i
    using that entry_at_new [OF log_length [OF assms(2,3)]]
    by (auto simp: section_of_def entry_at_append less_Suc_eq)
  show "db_sections L' D = db_sections L D \<or> db_sections L' D = db_sections L D @ [[]]"
    using assms(1) new by (auto simp: grown_def db_sections_def log_count_append2 [OF assms(2)])
  show "data_present L' D" if dp: "data_present L D"
  proof -
    have "6 + 65536 * i + unat (entry_at (L @ [0, 0]) i) \<le> length D \<or> entry_at (L @ [0, 0]) i = 0"
      if "i < Suc (log_count L)" for i
      using that new(2) [OF that] data_presentD [OF dp, of i] by (cases "i < log_count L") auto
    then have "data_present (L @ [0, 0]) D"
      unfolding data_present_iff log_count_append2 [OF assms(2)] by blast
    with assms(1) dp show ?thesis by (auto simp: grown_def)
  qed
qed

text \<open>Bytes in the free part of a section do not show.\<close>

lemma section_of_write:
  assumes "data_present L D" "i < log_count L" "j < log_count L" "unat (entry_at L i) + length xs \<le> 65536"
  shows "section_of L (write_at D (6 + 65536 * i + unat (entry_at L i)) xs) j = section_of L D j"
proof -
  let ?p = "6 + 65536 * i + unat (entry_at L i)"
  have lt: "unat (entry_at L k) < 65536" for k by (rule unat_16_less)
  consider "j = i" | "j < i" | "i < j" by linarith
  then have "seg (write_at D ?p xs) (6 + 65536 * j) (unat (entry_at L j)) = seg D (6 + 65536 * j) (unat (entry_at L j))"
  proof cases
    case 3
    then show ?thesis using assms(4) by (intro seg_write_at_after) simp
  next
    case 2
    then have "6 + 65536 * j + unat (entry_at L j) \<le> ?p" using lt [of j] by linarith
    then show ?thesis using data_presentD [OF assms(1,3)] by (auto intro: seg_write_at_before)
  next
    case 1
    then show ?thesis using data_presentD [OF assms(1,3)] by (auto intro: seg_write_at_before)
  qed
  then show ?thesis by (simp add: section_of_def)
qed

lemma section_of_entry:
  assumes "i < log_count L" "j < log_count L"
  shows "section_of (write_at L (6 + 2 * i) (le16 v)) D j = (if j = i then seg D (6 + 65536 * i) (unat v) else section_of L D j)"
  using entry_at_write [OF assms(1)] by (simp add: section_of_def)

lemma seg_written_end:
  assumes "a + e \<le> length D \<or> e = 0"
  shows "seg (write_at D (a + e) xs) a (e + length xs) = seg D a e @ xs"
proof -
  have "seg (write_at D (a + e) xs) a e = seg D a e"
    using assms by (auto intro: seg_write_at_before)
  then show ?thesis by (simp add: seg_append_join)
qed

lemma db_sections_commit:
  assumes "data_present L D" "i < log_count L" "unat (entry_at L i) + length xs < 65536"
  defines "L' \<equiv> write_at L (6 + 2 * i) (le16 (of_nat (unat (entry_at L i) + length xs)))"
    and "D' \<equiv> write_at D (6 + 65536 * i + unat (entry_at L i)) xs"
  shows "db_sections L' D' = (db_sections L D)[i := section_of L D i @ xs]" "data_present L' D'"
proof -
  let ?v = "of_nat (unat (entry_at L i) + length xs) :: 16 word"
  have v: "unat ?v = unat (entry_at L i) + length xs" using assms(3) unfolding unat_of_nat by simp
  have cnt: "log_count L' = log_count L" unfolding L'_def by (rule log_count_write [OF assms(2)])
  have "section_of L' D' j = (if j = i then section_of L D i @ xs else section_of L D j)" if "j < log_count L" for j
  proof (cases "j = i")
    case True
    have "6 + 65536 * i + unat (entry_at L i) \<le> length D \<or> unat (entry_at L i) = 0"
      using data_presentD [OF assms(1,2)] by auto
    from seg_written_end [OF this, of xs] show ?thesis
      using True section_of_entry [OF assms(2) that, of ?v D'] by (simp add: L'_def D'_def v section_of_def del: of_nat_add)
  next
    case False
    then show ?thesis
      using section_of_entry [OF assms(2) that, of ?v D'] section_of_write [OF assms(1,2) that, of xs] assms(3)
      by (simp add: L'_def D'_def)
  qed
  then show "db_sections L' D' = (db_sections L D)[i := section_of L D i @ xs]"
    by (intro nth_equalityI) (auto simp: cnt nth_db_sections nth_list_update)
  show "data_present L' D'"
    unfolding data_present_def list_all_iff cnt
  proof
    fix j assume "j \<in> set [0..<log_count L]"
    then have j: "j < log_count L" by simp
    have "length D \<le> length D'" unfolding D'_def by (rule length_write_at_ge)
    moreover have "entry_at L' j = (if j = i then ?v else entry_at L j)"
      unfolding L'_def by (rule entry_at_write [OF assms(2)])
    moreover have "xs = [] \<or> 6 + 65536 * i + unat (entry_at L i) + length xs \<le> length D'"
      unfolding D'_def by (auto simp: length_write_at)
    ultimately show "6 + 65536 * j + unat (entry_at L' j) \<le> length D' \<or> entry_at L' j = 0"
      using data_presentD [OF assms(1) j] v by (cases "j = i") auto
  qed
qed

section \<open>The commit under the lease\<close>

lemma write_entry_changes:
  assumes "logdb_log_write_entry log v i s = (r, s')" "fds s (l_fd log) = Some f" "\<not> (f_append f \<and> pwrite_appends s)"
    and "Short 1 \<notin> set (sched s)"
  shows "r = 0 \<and> changes (l_fd log) s s' (write_at (file_of s (l_fd log)) (6 + 2 * unat i) (le16 v)) \<or> r = -1 \<and> same_data s s'"
    "quiet s \<Longrightarrow> r = 0"
proof -
  let ?w = "\<lambda>m. write_at (file_of s (l_fd log)) (6 + 2 * unat i) (take m (le16 v))"
  have sub: "set (sched s') \<subseteq> set (sched s)"
    using assms(1) logdb_io_sched(4) by (auto simp: logdb_log_write_entry_def Let_def split: prod.splits)
  from write_entry_spec(1) [OF assms(1-3)] assms(4) obtain m where m:
    "s' = set_file (resched s (sched s')) (f_ino f) (?w m)" "r = 0 \<and> m = 2 \<or> r = -1 \<and> m = 0"
    by auto
  from m(2) show "r = 0 \<and> changes (l_fd log) s s' (write_at (file_of s (l_fd log)) (6 + 2 * unat i) (le16 v)) \<or> r = -1 \<and> same_data s s'"
  proof
    assume "r = 0 \<and> m = 2"
    moreover have "frame s s'"
      using m(1) frame_trans [OF frame_resched [OF sub] frame_steps(2)] by metis
    moreover have "inode s' = (inode s)(f_ino f := ?w m)" by (subst m(1)) simp
    ultimately show ?thesis using assms(2) by (simp add: changes_def)
  next
    assume "r = -1 \<and> m = 0"
    then have "s' = resched s (sched s')" using m(1) assms(2) by (simp add: file_of_open)
    with sub \<open>r = -1 \<and> m = 0\<close> show ?thesis using same_data_steps(4) [OF sub] by simp
  qed
  show "quiet s \<Longrightarrow> r = 0" using write_entry_spec(2) [OF assms(1-3)] by simp
qed

lemma fsync_same:
  assumes "(if b then sys_fsync fd s else (0, s)) = (r, s')"
  shows "same_data s s'" "quiet s \<Longrightarrow> fds s fd \<noteq> None \<Longrightarrow> r \<noteq> -1"
  using assms sys_fsync_same [of fd s r s'] calls_quiet(4) [of fd s r s'] by (auto split: if_splits)

lemma write_lease_usable:
  "conn_ok c s \<Longrightarrow> write_lease_ok c s lease \<Longrightarrow>
   lease_usable lease \<and> lease_pos lease = 6 + 65536 * unat (ls_index lease) + unat (entry_at (log_file c s) (unat (ls_index lease)))"
  by (auto simp: conn_ok_def write_lease_ok_def lease_usable_def lease_pos_def)

text \<open>The end of a commit: the entry is written, and the log is flushed if the connection is durable.\<close>

lemma entry_then_sync:
  assumes "fds s (c_fd c) = Some df" "fds s (l_fd (c_log c)) = Some lf" "f_ino df \<noteq> f_ino lf" "\<not> pwrite_appends s"
    and "Short 1 \<notin> set (sched s)" "logdb_log_write_entry (c_log c) v i s = (r, t)"
    and u_def: "u = (if r = 0 \<and> durable then snd (sys_fsync (l_fd (c_log c)) t) else t)"
  shows "frame s u \<and> db_file c u = db_file c s \<and> (quiet s \<longrightarrow> r = 0) \<and>
    log_file c u = (if r = 0 then write_at (log_file c s) (6 + 2 * unat i) (le16 v) else log_file c s)"
proof -
  note we = write_entry_changes [OF assms(6,2) _ assms(5)]
  have quiet: "quiet s \<longrightarrow> r = 0" using we(2) assms(4) by simp
  have tu: "same_data t u"
    using sys_fsync_same [of "l_fd (c_log c)" t] by (cases "sys_fsync (l_fd (c_log c)) t") (auto simp: u_def)
  have fu: "frame t u" "log_file c u = log_file c t" "db_file c u = db_file c t"
    using tu same_data_file [OF tu] by (auto simp: same_data_def log_file_def db_file_def)
  show ?thesis
  proof (cases "r = 0")
    case False
    with we(1) assms(4) have same: "same_data s t" by auto
    then show ?thesis
      using False quiet fu frame_trans [of s t u] same_data_file [OF same]
      by (simp add: same_data_def log_file_def db_file_def)
  next
    case True
    then have ch: "changes (l_fd (c_log c)) s t (write_at (log_file c s) (6 + 2 * unat i) (le16 v))"
      using we(1) assms(4) by (simp add: log_file_def)
    then show ?thesis
      using True fu frame_trans [of s t u] changes_file [OF ch] changes_other [OF ch assms(2,1)] assms(3)
      by (simp add: changes_def log_file_def db_file_def)
  qed
qed

lemma commit_under_lease_spec:
  assumes "conn_ok c s" "write_lease_ok c s lease" "heap_ok h" "brep h n p xs" "p \<noteq> 0"
    and "length xs \<le> unat (ls_len lease)" "Short 1 \<notin> set (sched s)"
  defines "i \<equiv> unat (ls_index lease)" and "L \<equiv> log_file c s" and "D \<equiv> db_file c s"
  shows "\<exists>r m s'. commit_under_lease c h lease p s = Done (r, advance lease (int m), s') \<and> frame s s' \<and> (quiet s \<longrightarrow> r = 0) \<and>
     m \<le> length xs \<and> db_file c s' = write_at D (6 + 65536 * i + unat (entry_at L i)) (take m xs) \<and>
     (r = 0 \<and> m = length xs \<and> log_file c s' = write_at L (6 + 2 * i) (le16 (of_nat (unat (entry_at L i) + length xs))) \<or>
      r = -1 \<and> log_file c s' = L)"
proof -
  from assms(1) obtain df lf where o: "fds s (c_fd c) = Some df" "fds s (l_fd (c_log c)) = Some lf" "\<not> f_append df"
    "f_ino df \<noteq> f_ino lf" "\<not> pwrite_appends s" by (auto elim: conn_okE)
  have use: "lease_usable lease" "lease_pos lease = 6 + 65536 * i + unat (entry_at L i)"
    using write_lease_usable [OF assms(1,2)] by (simp_all add: i_def L_def)
  have exact: "db_exact c s" using o(1,3) by (simp add: db_exact_def)
  obtain r1 l1 s1 where w: "logdb_txn_write_buf c h lease p s = Done (r1, l1, s1)" "stores c lease s xs (r1, l1, s1)"
    using txn_write_buf_stores [OF assms(4,5) fuel_enough [OF assms(3,4)] assms(6) use(1) exact]
    unfolding logdb_txn_write_buf_def by (metis prod_cases3)
  then obtain m where m: "m \<le> length xs" "l1 = advance lease (int m)" "r1 = 0 \<longleftrightarrow> m = length xs" "quiet s \<longrightarrow> r1 = 0"
    "changes (c_fd c) s s1 (write_at D (lease_pos lease) (take m xs))"
    by (auto simp: stores_def D_def)
  let ?D = "write_at D (lease_pos lease) (take m xs)"
  have st1: "frame s s1" "db_file c s1 = ?D" "log_file c s1 = L"
    using m(5) changes_file [OF m(5)] changes_other [OF m(5) o(1,2)] o(4)
    by (auto simp: changes_def db_file_def log_file_def L_def)
  let ?durable = "\<not> has_flag (c_flags c) LOGDB_OPEN_NOSYNC"
  obtain r2 s2 where f: "(if ?durable then sys_fsync (c_fd c) s1 else (0, s1)) = (r2, s2)" by fastforce
  have st2: "same_data s1 s2" "frame s s2" "db_file c s2 = ?D" "log_file c s2 = L"
    using fsync_same(1) [OF f] st1 same_data_file [OF fsync_same(1) [OF f]] frame_trans [of s s1 s2]
    by (auto simp: same_data_def db_file_def log_file_def)
  consider "r1 \<noteq> 0" | "r1 = 0" "r2 = -1" | "r1 = 0" "r2 \<noteq> -1" by blast
  then show ?thesis
  proof cases
    case 1
    then have "commit_under_lease c h lease p s = Done (-1, l1, s1)" by (simp add: commit_under_lease_def w(1))
    with 1 m st1 use(2) show ?thesis by auto
  next
    case 2
    then have "commit_under_lease c h lease p s = Done (-1, l1, s2)"
      using f by (simp add: commit_under_lease_def w(1) Let_def)
    moreover have "\<not> quiet s"
      using 2 fsync_same(2) [OF f] frame_quiet [OF st1(1)] frame_fd [OF st1(1) o(1)] by auto
    ultimately show ?thesis using m st2 use(2) by auto
  next
    case 3
    let ?v = "word_of_int (ls_offset l1) :: 16 word"
    obtain r3 s3 where e: "logdb_log_write_entry (c_log c) ?v (ls_index l1) s2 = (r3, s3)" by fastforce
    define s4 where "s4 = (if r3 = 0 \<and> ?durable then snd (sys_fsync (l_fd (c_log c)) s3) else s3)"
    obtain df2 lf2 where fd2: "fds s2 (c_fd c) = Some df2" "fds s2 (l_fd (c_log c)) = Some lf2" "f_ino df2 \<noteq> f_ino lf2"
      using frame_fd [OF st2(2) o(1)] frame_fd [OF st2(2) o(2)] o(4) by auto
    have ap: "\<not> pwrite_appends s2" "Short 1 \<notin> set (sched s2)"
      using o(5) frame_appends [OF st2(2)] assms(7) st2(2) by (auto simp: frame_def)
    have full: "m = length xs" using 3 m(3) by simp
    have "ls_offset l1 = int (unat (entry_at L i) + length xs)"
      using assms(2) m(2) full by (simp add: write_lease_ok_def L_def i_def)
    then have v: "?v = of_nat (unat (entry_at L i) + length xs)" by (simp only: of_int_of_nat_eq)
    have "commit_under_lease c h lease p s = Done (if r3 = 0 then 0 else -1, l1, s4)"
      using 3 f e by (simp add: commit_under_lease_def w(1) Let_def s4_def)
    moreover have "frame s s4" "db_file c s4 = ?D" "quiet s \<longrightarrow> r3 = 0"
      "log_file c s4 = (if r3 = 0 then write_at L (6 + 2 * i) (le16 ?v) else L)"
      using entry_then_sync [OF fd2 ap e s4_def] frame_trans [OF st2(2)] frame_quiet [OF st2(2)] st2(3,4) m(2)
      by (auto simp: i_def)
    ultimately show ?thesis using full m(1,2) use(2) v
      by (intro exI [of _ "if r3 = 0 then 0 else -1"] exI [of _ m] exI [of _ s4]) simp
  qed
qed

section \<open>Committing an outermost transaction\<close>

text \<open>
  What a commit promises: the bytes appear at the end of one section or as a new section, and every
  other section keeps its bytes.
\<close>

definition extends :: "byte list list \<Rightarrow> byte list \<Rightarrow> byte list list \<Rightarrow> bool" where
  "extends S xs S' \<longleftrightarrow> list_ex (\<lambda>i. S' = S[i := S ! i @ xs]) [0..<length S] \<or> S' = S @ [xs]"

text \<open>A connection between two calls: no lock is held and the files are consistent.\<close>

definition ready :: "world \<Rightarrow> bool" where
  "ready w \<longleftrightarrow> conn_ok (w_conn w) (w_os w) \<and> idle (l_lock (c_log (w_conn w))) \<and>
     data_present (log_file (w_conn w) (w_os w)) (db_file (w_conn w) (w_os w))"

definition sections_of :: "world \<Rightarrow> byte list list" where
  "sections_of w = db_sections (log_file (w_conn w) (w_os w)) (db_file (w_conn w) (w_os w))"

text \<open>The headers of both files are as before, and the database has not grown beyond its 65536 sections.\<close>

definition same_headers :: "logdb_connection_t \<Rightarrow> os \<Rightarrow> os \<Rightarrow> bool" where
  "same_headers c s s' \<longleftrightarrow>
     take 6 (log_file c s') = take 6 (log_file c s) \<and>
     (6 \<le> length (db_file c s) \<longrightarrow> take 6 (db_file c s') = take 6 (db_file c s)) \<and>
     length (db_file c s') \<le> max (length (db_file c s)) 4294967302"

lemma grown_header: "grown L L' \<Longrightarrow> 6 \<le> length L \<Longrightarrow> take 6 L' = take 6 L"
  by (auto simp: grown_def)

lemma files_upd [simp]:
  "log_file (c\<lparr>c_readers := n, c_log := (c_log c)\<lparr>l_lock := bs\<rparr>\<rparr>) s = log_file c s"
  "db_file (c\<lparr>c_readers := n, c_log := (c_log c)\<lparr>l_lock := bs\<rparr>\<rparr>) s = db_file c s"
  "log_file (c\<lparr>c_log := (c_log c)\<lparr>l_lock := bs\<rparr>\<rparr>) s = log_file c s"
  "db_file (c\<lparr>c_log := (c_log c)\<lparr>l_lock := bs\<rparr>\<rparr>) s = db_file c s"
  by (simp_all add: log_file_def db_file_def)

lemma conn_ok_frame:
  assumes "conn_ok c s" "frame s s'" "6 \<le> length (log_file c s')" "even (length (log_file c s'))"
    and "log_count (log_file c s') < 65536" "blocks_sorted bs"
  shows "conn_ok (c\<lparr>c_readers := n, c_log := (c_log c)\<lparr>l_lock := bs\<rparr>\<rparr>) s'"
proof -
  from assms(1) obtain df lf where o: "fds s (c_fd c) = Some df" "fds s (l_fd (c_log c)) = Some lf" "\<not> f_append df" "f_append lf"
    "f_ino df \<noteq> f_ino lf" "\<not> pwrite_appends s" by (auto elim: conn_okE)
  from frame_fd [OF assms(2) o(1)] frame_fd [OF assms(2) o(2)] frame_appends [OF assms(2)] o assms(3-6)
  show ?thesis by (auto simp: conn_ok_def log_file_def)
qed

lemma grown_facts:
  assumes "grown L L'" "6 \<le> length L" "even (length L)"
  shows "6 \<le> length L' \<and> even (length L') \<and> log_count L' \<le> Suc (log_count L)"
  using assms by (auto simp: grown_def log_count_append2)

lemma length_entry_write: "i < log_count L \<Longrightarrow> length (write_at L (6 + 2 * i) (le16 v)) = length L"
  by (auto simp: length_write_at log_count_less)

text \<open>A lease for a size that would not fill a section to its very end has room below the limit of an entry.\<close>

lemma lease_room:
  assumes "write_lease_ok c s l" "ls_len l = of_nat n" "n < 65536"
    and "grown L (log_file c s)" "6 \<le> length L" "even (length L)" "data_present L D"
    and "list_all (\<lambda>S. length S + n \<noteq> 65536) (db_sections L D)"
  shows "unat (ls_index l) < log_count (log_file c s)"
    "unat (entry_at (log_file c s) (unat (ls_index l))) + n < 65536"
proof -
  define i L1 where "i = unat (ls_index l)" and "L1 = log_file c s"
  show i: "unat (ls_index l) < log_count (log_file c s)" using assms(1) by (simp only: write_lease_ok_def)
  have "uint (of_nat n :: 32 word) = int n" using assms(3) by (simp add: uint_nat unat_of_nat)
  moreover have "uint (entry_at L1 i) + uint (ls_len l) \<le> 65536"
    using assms(1) by (auto simp: write_lease_ok_def size_defs i_def L1_def)
  ultimately have le: "unat (entry_at L1 i) + n \<le> 65536"
    unfolding assms(2) uint_nat by linarith
  have "unat (entry_at L1 i) + n \<noteq> 65536"
  proof (cases "i < log_count L")
    case True
    then have "length (section_of L D i) + n \<noteq> 65536"
      using assms(8) by (auto simp: db_sections_def list_all_iff)
    moreover have "entry_at L1 i = entry_at L i"
      using assms(4) True by (auto simp: L1_def grown_def entry_at_append)
    moreover have "length (section_of L D i) = unat (entry_at L i)"
      using data_presentD [OF assms(7) True] by (auto simp: section_of_def)
    ultimately show ?thesis by simp
  next
    case False
    then have "L1 = L @ [0, 0]" "i = log_count L"
      using assms(4) i grown_facts [OF assms(4-6)] by (auto simp: L1_def i_def grown_def)
    then have "entry_at L1 i = 0" using entry_at_new [OF log_length [OF assms(5,6)]] by simp
    then show ?thesis using assms(3) by simp
  qed
  with le show "unat (entry_at (log_file c s) (unat (ls_index l))) + n < 65536" by (simp add: i_def L1_def)
qed

lemma extends_commit:
  assumes "grown L L1" "6 \<le> length L" "even (length L)" "i < log_count L1" "L1 = L \<or> i = log_count L"
  shows "extends (db_sections L D) xs ((db_sections L1 D)[i := section_of L1 D i @ xs])"
proof -
  have nth: "section_of L1 D i = db_sections L1 D ! i" using assms(4) by (simp add: nth_db_sections)
  from db_sections_grown(1) [OF assms(1-3), of D] show ?thesis
  proof
    assume "db_sections L1 D = db_sections L D"
    moreover from this have "i < length (db_sections L D)" using assms(4) by (metis length_db_sections)
    ultimately show ?thesis using nth by (auto simp: extends_def list_ex_iff)
  next
    assume more: "db_sections L1 D = db_sections L D @ [[]]"
    then have i: "i = length (db_sections L D)" using assms(5) by auto
    have "(db_sections L1 D)[i := section_of L1 D i @ xs] = db_sections L D @ [xs]"
      using nth more list_update_length [of "db_sections L D" "[]" "[]" xs] i by (simp add: nth_append)
    then show ?thesis by (simp add: extends_def)
  qed
qed

lemma last_section_fits:
  assumes "data_present L D" "db_sections L D \<noteq> []" "length (last (db_sections L D)) + unat sz < 65536"
  shows "last_fits L sz"
proof -
  have n: "0 < log_count L" using assms(2) by (metis length_db_sections length_greater_0_conv)
  then have i: "log_count L - 1 < log_count L" by simp
  have "last (db_sections L D) = section_of L D (log_count L - 1)"
    using assms(2) nth_db_sections [OF i, of D] by (simp add: last_conv_nth)
  moreover have "length (section_of L D (log_count L - 1)) = unat (entry_at L (log_count L - 1))"
    using data_presentD [OF assms(1) i] by (auto simp: section_of_def)
  ultimately have "unat (entry_at L (log_count L - 1)) + unat sz \<le> 65536" using assms(3) by simp
  then have "int (unat (entry_at L (log_count L - 1)) + unat sz) \<le> 65536" by linarith
  then show ?thesis using n unfolding last_fits_def uint_nat of_nat_add by blast
qed

lemma list_update_last: "xs \<noteq> [] \<Longrightarrow> xs[length xs - 1 := x] = butlast xs @ [x]"
  by (cases xs rule: rev_cases) simp_all

lemma write_in_sections:
  assumes "i < 65536" "e + length xs \<le> 65536"
  shows "length (write_at D (6 + 65536 * i + e) xs) \<le> max (length D) 4294967302"
proof -
  have "6 + 65536 * i + e + length xs \<le> 4294967302" using assms by simp
  then show ?thesis by (auto simp: length_write_at)
qed

lemma commit_outermost_calm:
  assumes "ready w" "calm (w_os w)" "other_locks (w_os w) = []" "heap_ok (w_heap w)" "brep (w_heap w) n p xs" "p \<noteq> 0"
    and "length xs < 65536" "Suc (log_count (log_file (w_conn w) (w_os w))) < 65536"
    and "list_all (\<lambda>S. length S + length xs \<noteq> 65536) (sections_of w)"
  shows "\<exists>bs s'. commit_outermost (Suc f) dbg (of_nat (length xs)) p w =
            Done (0, w\<lparr>w_conn := (w_conn w)\<lparr>c_log := (c_log (w_conn w))\<lparr>l_lock := bs\<rparr>\<rparr>, w_os := s'\<rparr>) \<and>
           frame (w_os w) s' \<and>
           ready (w\<lparr>w_conn := (w_conn w)\<lparr>c_log := (c_log (w_conn w))\<lparr>l_lock := bs\<rparr>\<rparr>, w_os := s'\<rparr>) \<and>
           extends (sections_of w) xs
             (sections_of (w\<lparr>w_conn := (w_conn w)\<lparr>c_log := (c_log (w_conn w))\<lparr>l_lock := bs\<rparr>\<rparr>, w_os := s'\<rparr>)) \<and>
           log_count (log_file (w_conn w) s') \<le> Suc (log_count (log_file (w_conn w) (w_os w))) \<and>
           same_headers (w_conn w) (w_os w) s' \<and>
           (sections_of w \<noteq> [] \<and> length (last (sections_of w)) + length xs < 65536 \<longrightarrow>
             sections_of (w\<lparr>w_conn := (w_conn w)\<lparr>c_log := (c_log (w_conn w))\<lparr>l_lock := bs\<rparr>\<rparr>, w_os := s'\<rparr>) =
               butlast (sections_of w) @ [last (sections_of w) @ xs])"
proof -
  define c s L D where "c = w_conn w" and "s = w_os w" and "L = log_file c s" and "D = db_file c s"
  note defs = c_def s_def L_def D_def
  have ok: "conn_ok c s" "idle (l_lock (c_log c))" "data_present L D" "calm s" "other_locks s = []" "Suc (log_count L) < 65536"
    using assms(1-3,8) by (simp_all add: ready_def defs)
  have L: "6 \<le> length L" "even (length L)" using ok(1) by (simp_all add: conn_ok_def L_def)
  have S: "sections_of w = db_sections L D" by (simp add: sections_of_def defs)
  let ?sz = "of_nat (length xs) :: 32 word"
  have sz: "unat ?sz = length xs" "uint ?sz \<le> 65536" using assms(7) by (simp_all add: unat_of_nat uint_nat)
  from acquire_write_calm [OF ok(1,2,4,5) sz(2), of f zero_lease] ok(6)
  obtain l bs s1 where acq: "logdb_lease_acquire_write (Suc f) zero_lease c ?sz s =
      Done (0, l, c\<lparr>c_readers := c_readers c + 1, c_log := (c_log c)\<lparr>l_lock := bs\<rparr>\<rparr>, s1)"
    "frame s s1" "grown L (log_file c s1)" "db_file c s1 = D" "write_lease_ok c s1 l" "ls_len l = ?sz"
    "holding True bs (ls_index l) (-1)" "log_file c s1 = L \<or> unat (ls_index l) = log_count L"
    "last_fits L ?sz \<longrightarrow> log_file c s1 = L \<and> Suc (unat (ls_index l)) = log_count L"
    by (auto simp: L_def D_def)
  let ?c = "c\<lparr>c_readers := c_readers c + 1, c_log := (c_log c)\<lparr>l_lock := bs\<rparr>\<rparr>"
  define L1 i e where "L1 = log_file c s1" and "i = unat (ls_index l)" and "e = entry_at L1 i"
  have g: "6 \<le> length L1" "even (length L1)" "log_count L1 \<le> Suc (log_count L)"
    using grown_facts [OF acq(3) L] by (simp_all add: L1_def)
  have bsok: "blocks_sorted bs"
    using acq(7) by (auto simp: holding_def intro: blocks_sorted_set_lock)
  have conn1: "conn_ok ?c s1"
    by (rule conn_ok_frame [OF ok(1) acq(2) _ _ _ bsok]) (use g ok(6) in \<open>auto simp: L1_def\<close>)
  have lease1: "write_lease_ok ?c s1 l" using acq(5) by (simp add: write_lease_ok_def)
  note room = lease_room [OF acq(5,6) assms(7) acq(3) L ok(3) assms(9) [unfolded S], folded L1_def i_def, folded e_def]
  have dp1: "data_present L1 D" using db_sections_grown(2) [OF acq(3) L ok(3)] by (simp add: L1_def)
  have s1: "Short 1 \<notin> set (sched s1)" "quiet s1"
    using frame_calm [OF acq(2) ok(4)] by (simp_all add: calm_def)
  have len: "length xs \<le> unat (ls_len l)" using acq(6) sz(1) by simp
  from commit_under_lease_spec [OF conn1 lease1 assms(4,5,6) len s1(1)] s1(2)
  obtain s2 where com: "commit_under_lease ?c (w_heap w) l p s1 = Done (0, advance l (int (length xs)), s2)" "frame s1 s2"
    "db_file c s2 = write_at D (6 + 65536 * i + unat e) xs"
    "log_file c s2 = write_at L1 (6 + 2 * i) (le16 (of_nat (unat e + length xs)))"
    by (auto simp: L1_def i_def e_def acq(4) simp del: of_nat_add)
  have com': "db_sections (log_file c s2) (db_file c s2) = (db_sections L1 D)[i := section_of L1 D i @ xs]"
    "data_present (log_file c s2) (db_file c s2)"
    using db_sections_commit [OF dp1 room(1), of xs] room(2) by (simp_all add: com(3,4) e_def)
  have hold: "holding True (l_lock (c_log ?c)) (ls_index l) (-1)" using acq(7) by simp
  from unlock_write [OF hold, of s2]
  obtain bs' s3 where un: "logdb_log_unlock (c_log ?c) (ls_index l) LOCK_WRITE s2 = Done ((c_log ?c)\<lparr>l_lock := bs'\<rparr>, s3)"
    "blocks_sorted bs'" "idle bs'" "same_data s2 s3" by auto
  have rel: "logdb_lease_release dbg (advance l (int (length xs))) ?c s2 =
     Done (advance l (int (length xs))\<lparr>ls_connection := False\<rparr>, c\<lparr>c_log := (c_log c)\<lparr>l_lock := bs'\<rparr>\<rparr>, s3)"
    using acq(5) un(1) by (simp add: logdb_lease_release_def write_lease_ok_def rwlock_unlock_def)
  have f3: "frame s s3" "log_file c s3 = log_file c s2" "db_file c s3 = db_file c s2"
    using frame_trans [OF acq(2) frame_trans [OF com(2)]] un(4) same_data_file [OF un(4)]
    by (auto simp: same_data_def log_file_def db_file_def)
  let ?w = "w\<lparr>w_conn := c\<lparr>c_log := (c_log c)\<lparr>l_lock := bs'\<rparr>\<rparr>, w_os := s3\<rparr>"
  have run: "commit_outermost (Suc f) dbg ?sz p w = Done (0, ?w)"
    using acq(1) com(1) rel by (simp add: commit_outermost_def c_def s_def)
  have L3: "length (log_file c s3) = length L1" "log_count (log_file c s3) = log_count L1"
    using room(1) by (simp_all add: f3 com(4) length_entry_write log_count_write del: of_nat_add)
  have "conn_ok (c\<lparr>c_readers := c_readers c, c_log := (c_log c)\<lparr>l_lock := bs'\<rparr>\<rparr>) s3"
    by (rule conn_ok_frame [OF ok(1) f3(1) _ _ _ un(2)]) (use L3 g ok(6) in auto)
  then have "ready ?w" using com'(2) un(3) f3 by (simp add: ready_def log_file_def db_file_def)
  moreover have "sections_of ?w = (db_sections L1 D)[i := section_of L1 D i @ xs]"
    using com'(1) f3 by (simp add: sections_of_def log_file_def db_file_def)
  then have "extends (sections_of w) xs (sections_of ?w)"
    using extends_commit [OF acq(3) L, folded L1_def, OF room(1)] acq(8) S by (simp add: L1_def i_def)
  moreover have "log_count (log_file c s3) \<le> Suc (log_count L)" using L3(2) g(3) by simp
  moreover have "sections_of ?w = butlast (sections_of w) @ [last (sections_of w) @ xs]"
    if "sections_of w \<noteq> []" "length (last (sections_of w)) + length xs < 65536"
  proof -
    have "last_fits L ?sz" using last_section_fits [OF ok(3)] that sz(1) unfolding S by (simp add: uint_nat)
    then have "L1 = L" "Suc i = log_count L" using acq(9) by (simp_all add: L1_def i_def)
    moreover from this(2) have "i = log_count L - 1" by arith
    ultimately have "section_of L1 D i = last (db_sections L D)" "i = length (db_sections L D) - 1"
      using that(1) unfolding S by (simp_all add: last_conv_nth nth_db_sections flip: length_0_conv)
    then show ?thesis
      using \<open>sections_of ?w = (db_sections L1 D)[i := section_of L1 D i @ xs]\<close> that(1) \<open>L1 = L\<close>
        list_update_last [of "db_sections L D"]
      unfolding S by simp
  qed
  moreover have "same_headers c s s3"
  proof -
    have "length (db_file c s2) \<le> max (length D) 4294967302"
      unfolding com(3) by (rule write_in_sections) (use room g(3) ok(6) in auto)
    then show ?thesis using grown_header [OF acq(3) L(1)] g(1)
      by (simp add: same_headers_def f3 com(4) take_write_before D_def [symmetric]) (simp add: com(3) take_write_before L_def D_def L1_def)
  qed
  ultimately show ?thesis
    using run f3(1) by (intro exI [of _ bs'] exI [of _ s3]) (simp add: defs)
qed

section \<open>Putting a record\<close>

definition record_bytes :: "byte list \<Rightarrow> byte list \<Rightarrow> byte list" where
  "record_bytes ks vs = encode_data_header \<lparr>keylen = of_nat (length ks), valuelen = of_nat (length vs)\<rparr> @ ks @ vs"

definition bumped :: "(ptr \<Rightarrow> logdb_buffer_t option) \<Rightarrow> ptr \<Rightarrow> ptr \<Rightarrow> logdb_buffer_t option" where
  "bumped f p = (case f p of None \<Rightarrow> f | Some b \<Rightarrow> f(p := Some (b\<lparr>b_refcnt := b_refcnt b + 1\<rparr>)))"

lemma heap_ok_none:
  "heap_ok h \<Longrightarrow> brk h < p \<Longrightarrow> mem h p = None \<and> bufs h p = None \<and> txns h p = None"
  by (fastforce simp: heap_ok_def)

text \<open>The heap after the record header has been copied into a buffer and the transaction allocated.\<close>

definition put_heap1 :: "logdb_data_header_t \<Rightarrow> ptr \<Rightarrow> heap \<Rightarrow> heap" where
  "put_heap1 hdr outer h =
     h\<lparr>brk := brk h + 4, oom := tl (tl (tl (oom h))), mem := (mem h)(brk h + 2 := Some (encode_data_header hdr)),
       bufs := (bufs h)(brk h + 3 := Some \<lparr>b_data = brk h + 2, b_len = 8, b_disposer = Some C_free, b_orig = 0,
                                           b_next = 0, b_refcnt = 1\<rparr>),
       txns := (txns h)(brk h + 4 := Some \<lparr>t_outer = outer, t_buf = 0\<rparr>)\<rparr>"

lemma plus_3: "(n :: nat) + 3 = Suc (Suc (Suc n))"
  by simp

lemma put_header_run:
  assumes "heap_ok h" "plenty h"
  shows "put_header dbg hdr h =
     Done (brk h + 3, h\<lparr>brk := brk h + 3, oom := tl (tl (oom h)), mem := (mem h)(brk h + 2 := Some (encode_data_header hdr)),
       bufs := (bufs h)(brk h + 3 := Some \<lparr>b_data = brk h + 2, b_len = 8, b_disposer = Some C_free, b_orig = 0,
                                           b_next = 0, b_refcnt = 1\<rparr>)\<rparr>)"
proof -
  let ?h = "h\<lparr>brk := Suc (brk h), mem := (mem h)(Suc (brk h) := Some (encode_data_header hdr))\<rparr>"
  have pl: "plenty ?h" using assms(2) by (simp add: plenty_def)
  have "load_bytes (h_bump ?h) (Suc (brk h)) 8 = Done (encode_data_header hdr)"
    by (simp add: load_bytes_def)
  moreover have "mem h (Suc (brk h)) = None" using heap_ok_none [OF assms(1)] by simp
  moreover have "plenty (h_bump ?h\<lparr>mem := (mem (h_bump ?h))(Suc (Suc (brk h)) := Some (encode_data_header hdr))\<rparr>)"
    using plenty_bump [OF pl] by (simp add: plenty_def)
  ultimately show ?thesis
    using h_malloc_plenty [OF pl]
    by (simp add: put_header_def Let_def logdb_buffer_new_copy_def new_direct_plenty size_defs put_buf_def h_bump_def
        fun_upd_twist fun_upd_idem plus_3)
qed

definition copy_of :: "logdb_buffer_t \<Rightarrow> ptr \<Rightarrow> ptr \<Rightarrow> logdb_buffer_t" where
  "copy_of b p nx = \<lparr>b_data = b_data b, b_len = b_len b, b_disposer = None, b_orig = p, b_next = nx, b_refcnt = 1\<rparr>"

lemma appended_bufs:
  assumes "heap_ok h" "bufs h b2 = Some b" "bufs h l = Some bl" "l \<noteq> b2"
  shows "bufs (appended h l b2) = (bumped (bufs h) b2)(l := Some (bl\<lparr>b_next := Suc (brk h)\<rparr>), Suc (brk h) := Some (copy_of b b2 0))"
proof -
  have "Suc (brk h) \<noteq> l" "Suc (brk h) \<noteq> b2" using assms heap_ok_bound by fastforce+
  with assms(2-4) show ?thesis by (simp add: appended_def bumped_def copy_of_def fun_upd_twist)
qed

lemma bumped_past: "p \<noteq> a \<Longrightarrow> p \<noteq> b \<Longrightarrow> bumped (f(a := x, b := y)) p = (bumped f p)(a := x, b := y)"
  by (auto simp: bumped_def split: option.split)

text \<open>The heap of a put before the key is appended: what was there before is as it was, and the header stands alone.\<close>

lemma put_heap1_facts:
  assumes h: "heap_ok h" "plenty h" and n_def: "n = brk h" and h1_def: "h1 = put_heap1 hdr outer h"
  shows "bufs h1 (n + 3) = Some \<lparr>b_data = n + 2, b_len = 8, b_disposer = Some C_free, b_orig = 0, b_next = 0, b_refcnt = 1\<rparr>"
    "brk h1 = n + 4" "heap_ok h1" "plenty h1" "p \<le> n \<Longrightarrow> bufs h1 p = bufs h p"
    "brep h1 1 (n + 3) (encode_data_header hdr)" "owned_chain h1 (n + 3) (n + 3)"
    "brep h m p xs \<Longrightarrow> brep h1 m p xs" "brep h m p xs \<Longrightarrow> \<not> breach h1 p (n + 3)"
proof -
  show b1: "bufs h1 (n + 3) = Some \<lparr>b_data = n + 2, b_len = 8, b_disposer = Some C_free, b_orig = 0, b_next = 0, b_refcnt = 1\<rparr>"
    "brk h1 = n + 4"
    by (simp_all add: h1_def put_heap1_def n_def)
  have data: "mem h1 (n + 2) = Some (encode_data_header hdr)" by (simp add: h1_def put_heap1_def n_def)
  show old1: "bufs h1 p = bufs h p" if "p \<le> n" for p
    using that by (simp add: h1_def put_heap1_def n_def)
  show ok1: "heap_ok h1" using h(1) by (auto simp: heap_ok_def h1_def put_heap1_def)
  show "plenty h1"
    using plenty_bump [OF plenty_bump [OF plenty_bump [OF h(2)]]] by (simp add: h1_def put_heap1_def plenty_def)
  have kept1: "mem_kept h h1"
    using heap_ok_none [OF h(1)] by (auto simp: mem_kept_def h1_def put_heap1_def)
  have frame1: "same_view h h1 q" if "bufs h q \<noteq> None" for q
    using that old1 [of q] heap_ok_bound [OF h(1)] by (fastforce simp: same_view_def n_def)
  show "brep h m p xs \<Longrightarrow> brep h1 m p xs"
    using brep_frame [OF _ _ kept1] frame1 brep_reach_live [OF _ h(1)] by blast
  show "brep h1 1 (n + 3) (encode_data_header hdr)"
    by (rule plain_brep [OF b1(1)]) (use data in \<open>simp_all add: load_bytes_def\<close>)
  show "owned_chain h1 (n + 3) (n + 3)" by (rule owned_plain [OF b1(1) _ _ ok1]) simp_all
  have dead: "\<not> breach h p q" if "brep h m p xs" "n < q" for m p xs q
    using that(2) brep_reach_live [OF that(1) h(1), of q] heap_ok_none [OF h(1), of q] by (auto simp: n_def)
  show "\<not> breach h1 p (n + 3)" if "brep h m p xs"
    using breach_back [OF that _ dead [OF that] frame1 ok1, of "n + 3" "n + 3"] dead [OF that, of "n + 3"] by auto
qed

lemma put_builds:
  assumes h: "heap_ok h" "plenty h" and key: "bufs h key = Some kb" "b_data kb \<noteq> 0" "brep h nk key ks"
    and val: "bufs h val = Some vb" "b_data vb \<noteq> 0" "brep h nv val vs"
    and len: "8 + length ks + length vs < 4294967296"
    and n_def: "n = brk h" and h1_def: "h1 = put_heap1 hdr outer h"
  shows "\<exists>h' N kb' vb'. obind (logdb_buffer_append dbg (n + 3) key h1) (\<lambda>(b, h). logdb_buffer_append dbg b val h) = Done (n + 3, h') \<and>
     heap_ok h' \<and> brep h' N (n + 3) (encode_data_header hdr @ ks @ vs) \<and>
     mem h' = mem h1 \<and> txns h' = txns h1 \<and> brk h' = n + 6 \<and> disposed h' = disposed h \<and>
     bufs h' = (bumped (bumped (bufs h) key) val)
        (n + 3 := Some \<lparr>b_data = n + 2, b_len = 8, b_disposer = Some C_free, b_orig = 0, b_next = n + 5, b_refcnt = 1\<rparr>,
         n + 5 := Some (copy_of kb' key (n + 6)), n + 6 := Some (copy_of vb' val 0)) \<and> plenty h'"
proof -
  let ?hb = "\<lparr>b_data = n + 2, b_len = 8, b_disposer = Some C_free, b_orig = 0, b_next = 0, b_refcnt = 1\<rparr>"
  have kv: "0 < key" "key \<le> n" "0 < val" "val \<le> n"
    using heap_ok_bound [OF h(1)] key(1) val(1) by (auto simp: n_def)
  note F = put_heap1_facts [OF h n_def h1_def]
  note b1 = F(1,2) and ok1 = F(3) and pl1 = F(4) and old1 = F(5) and rh1 = F(6) and own1 = F(7) and nk = F(9)
  note rk1 = F(8) [OF key(3)] and rv1 = F(8) [OF val(3)]
  have dbg: "\<not> (dbg \<and> b_data kb = 0)" "\<not> (dbg \<and> b_data vb = 0)" using key(2) val(2) by auto
  have key1: "bufs h1 key = Some kb" and val1: "bufs h1 val = Some vb" using old1 kv key(1) val(1) by simp_all
  have len1: "length (encode_data_header hdr) + length ks < 4294967296" using len by simp
  let ?h3 = "appended h1 (n + 3) key"
  have kn: "n + 3 \<noteq> key" "n + 3 \<noteq> val" "n + 5 \<noteq> val" using kv by auto
  note run1 = logdb_buffer_append_appended [OF ok1 pl1 rh1 rk1 _ key1 own1 nk [OF key(3)] len1 dbg(1)]
  from logdb_buffer_append_correct [OF ok1 pl1 rh1 rk1 _ key1 own1 nk [OF key(3)] len1 dbg(1)] run1 b1(2)
  obtain N3 where h3: "brep ?h3 N3 (n + 3) (encode_data_header hdr @ ks)" "heap_ok ?h3" "plenty ?h3"
    "owned_chain ?h3 (n + 3) (n + 5)"
    by (auto simp: eval_nat_numeral)
  note v3 = appended_view [OF ok1 key1 b1(1) kn(1)]
  note f3 = appended_frame [OF key1 b1(1)]
  have view3: "same_view h1 ?h3 q" if "breach h1 val q" for q
    using that v3(1) nk [OF val(3)] brep_reach_live [OF rv1 ok1] by metis
  have rv3: "brep ?h3 nv val vs"
    by (rule brep_frame [OF rv1 view3]) (simp_all add: mem_kept_def f3(1))
  have nb3: "\<not> breach ?h3 val (n + 5)"
  proof
    assume "breach ?h3 val (n + 5)"
    then have "breach h1 val (n + 5)" by (rule breach_back [OF rv1 _ nk [OF val(3)] v3(1,2)])
    then show False using brep_reach_live [OF rv1 ok1, of "n + 5"] heap_ok_none [OF ok1, of "n + 5"] b1(2) by auto
  qed
  have B3: "bufs ?h3 = (bumped (bufs h) key)(n + 3 := Some (?hb\<lparr>b_next := n + 5\<rparr>), n + 5 := Some (copy_of kb key 0))"
    using appended_bufs [OF ok1 key1 b1(1) kn(1)] key(1) kn(1) b1(2)
    by (simp add: bumped_def h1_def put_heap1_def n_def fun_upd_twist eval_nat_numeral)
  obtain vb' where vb': "bufs ?h3 val = Some vb'" "b_data vb' = b_data vb"
    using key(1) val(1) kn(2,3) by (cases "val = key") (auto simp: B3 bumped_def)
  have c5: "bufs ?h3 (n + 5) = Some (copy_of kb key 0)" by (simp add: B3)
  have len2: "length (encode_data_header hdr @ ks) + length vs < 4294967296" using len by simp
  have brk3: "brk ?h3 = n + 5" using f3(3) b1(2) by simp
  have dbg3: "\<not> (dbg \<and> b_data vb' = 0)" using vb'(2) dbg(2) by simp
  let ?h4 = "appended ?h3 (n + 5) val"
  note run2 = logdb_buffer_append_appended [OF h3(2,3,1) rv3 _ vb'(1) h3(4) nb3 len2 dbg3]
  from logdb_buffer_append_correct [OF h3(2,3,1) rv3 _ vb'(1) h3(4) nb3 len2 dbg3] run2
  obtain N4 where h4: "brep ?h4 N4 (n + 3) (encode_data_header hdr @ ks @ vs)" "heap_ok ?h4" "plenty ?h4"
    by auto
  note f4 = appended_frame [OF vb'(1) c5]
  have "bufs ?h4 = (bumped (bufs ?h3) val)(n + 5 := Some (copy_of kb key (n + 6)), n + 6 := Some (copy_of vb' val 0))"
  proof -
    have "Suc (brk ?h3) = n + 6" using brk3 by simp
    with appended_bufs [OF h3(2) vb'(1) c5 kn(3)] show ?thesis by (simp only: copy_of_def) simp
  qed
  moreover have "bumped (bufs ?h3) val =
      (bumped (bumped (bufs h) key) val)(n + 3 := Some (?hb\<lparr>b_next := n + 5\<rparr>), n + 5 := Some (copy_of kb key 0))"
    using kn(2,3) by (simp add: B3 bumped_past)
  ultimately have "bufs ?h4 = (bumped (bumped (bufs h) key) val)(n + 3 := Some (?hb\<lparr>b_next := n + 5\<rparr>),
        n + 5 := Some (copy_of kb key (n + 6)), n + 6 := Some (copy_of vb' val 0))"
    by (simp add: fun_upd_twist)
  moreover have "disposed h1 = disposed h" by (simp add: h1_def put_heap1_def)
  ultimately show ?thesis
    using run1 run2 h4 f3 f4 brk3
    by (intro exI [of _ ?h4] exI [of _ N4] exI [of _ kb] exI [of _ vb']) simp
qed

text \<open>Closing the transaction frees the chain and gives the buffers of the caller back.\<close>

lemma free_counted:
  assumes "bufs h p = Some b" "p \<noteq> 0" "1 < b_refcnt b"
  shows "buffer_free (Suc k) p h = Done (put_buf h p (b\<lparr>b_refcnt := b_refcnt b - 1\<rparr>))"
  using assms by (simp add: get_buf_def)

lemma free_copy_node:
  assumes "bufs h c = Some (copy_of b q nx)" "c \<noteq> 0" "q \<noteq> 0"
  shows "buffer_free (Suc k) c h =
     obind (buffer_free k q (put_buf h c (copy_of b q nx\<lparr>b_refcnt := 0\<rparr>))) (\<lambda>h.
     obind (if nx \<noteq> 0 then buffer_free k nx h else Done h) (\<lambda>h. Done (drop_buf h c)))"
  using assms by (simp add: get_buf_def copy_of_def dispose_def drop_buf_def Let_def cong: if_cong)

lemma bumped_unbump:
  assumes "f p = Some b" "1 \<le> b_refcnt b"
  shows "\<exists>c. bumped (bumped f p) q p = Some c \<and> 1 < b_refcnt c \<and>
             (bumped (bumped f p) q)(p := Some (c\<lparr>b_refcnt := b_refcnt c - 1\<rparr>)) = bumped f q"
proof (cases "q = p")
  case True
  with assms show ?thesis by (simp add: bumped_def add.commute)
next
  case False
  with assms show ?thesis by (auto simp: bumped_def fun_upd_twist fun_upd_idem split: option.split)
qed

lemma upd_past:
  "p \<noteq> a \<Longrightarrow> p \<noteq> b \<Longrightarrow> p \<noteq> c \<Longrightarrow> (f(a := x, b := y, c := z))(p := w) = (f(p := w))(a := x, b := y, c := z)"
  by auto

lemma put_frees:
  assumes n_def: "n = brk h" and ok: "heap_ok h" and h': "brk h' = n + 6" "disposed h' = disposed h" "mem h' (n + 2) \<noteq> None"
    and key: "bufs h key = Some kb" "1 \<le> b_refcnt kb" and val: "bufs h val = Some vb" "1 \<le> b_refcnt vb"
    and B: "bufs h' = (bumped (bumped (bufs h) key) val)
        (n + 3 := Some \<lparr>b_data = n + 2, b_len = 8, b_disposer = Some C_free, b_orig = 0, b_next = n + 5, b_refcnt = 1\<rparr>,
         n + 5 := Some (copy_of kb' key (n + 6)), n + 6 := Some (copy_of vb' val 0))"
  shows "logdb_buffer_free (n + 3) h' =
     Done (h'\<lparr>bufs := bufs h, mem := (mem h')(n + 2 := None), disposed := disposed h @ [(0, n + 2)]\<rparr>)"
proof -
  have kv: "0 < key" "key \<le> n" "0 < val" "val \<le> n"
    using heap_ok_bound [OF ok] key(1) val(1) by (auto simp: n_def)
  then have kn: "key \<noteq> n + 3" "key \<noteq> n + 5" "key \<noteq> n + 6" "val \<noteq> n + 3" "val \<noteq> n + 5" "val \<noteq> n + 6" by auto
  have old: "bufs h (n + 3) = None" "bufs h (n + 5) = None" "bufs h (n + 6) = None"
    using heap_ok_none [OF ok] by (simp_all add: n_def)
  let ?hb = "\<lparr>b_data = n + 2, b_len = 8, b_disposer = Some C_free, b_orig = 0, b_next = n + 5, b_refcnt = 0\<rparr>"
  define g where "g = h'\<lparr>mem := (mem h')(n + 2 := None), disposed := disposed h @ [(0, n + 2)]\<rparr>"
  define g1 where "g1 = put_buf h' (n + 3) ?hb\<lparr>mem := (mem h')(n + 2 := None), disposed := disposed h @ [(0, n + 2)]\<rparr>"
  have hb: "bufs h' (n + 3) = Some (?hb\<lparr>b_refcnt := 1\<rparr>)" by (simp add: B)
  have top: "logdb_buffer_free (n + 3) h' =
      obind (buffer_free (n + 6) (n + 5) g1) (\<lambda>h. Done (drop_buf h (n + 3)))"
  proof -
    obtain m where "mem h' (n + 2) = Some m" using h'(3) by auto
    moreover have "fuel_of h' = Suc (n + 6)" using h'(1) by (simp add: fuel_of_def)
    ultimately show ?thesis unfolding logdb_buffer_free_def by (simp only: buffer_free.simps(2))
      (use h'(2) hb in \<open>simp add: get_buf_def dispose_def Let_def g1_def drop_buf_def split: option.split cong: if_cong\<close>)
  qed
  have g1: "bufs g1 = (bumped (bumped (bufs h) key) val)
        (n + 3 := Some ?hb, n + 5 := Some (copy_of kb' key (n + 6)), n + 6 := Some (copy_of vb' val 0))"
    by (simp add: g1_def g_def B fun_upd_twist)
  define g2 where "g2 = put_buf g1 (n + 5) (copy_of kb' key (n + 6)\<lparr>b_refcnt := 0\<rparr>)"
  obtain k2 where k2': "bumped (bumped (bufs h) key) val key = Some k2" "1 < b_refcnt k2"
    "(bumped (bumped (bufs h) key) val)(key := Some (k2\<lparr>b_refcnt := b_refcnt k2 - 1\<rparr>)) = bumped (bufs h) val"
    using bumped_unbump [of "bufs h" key kb val] key by blast
  have "bufs g2 = (bumped (bumped (bufs h) key) val)
        (n + 3 := Some ?hb, n + 5 := Some (copy_of kb' key (n + 6)\<lparr>b_refcnt := 0\<rparr>), n + 6 := Some (copy_of vb' val 0))"
    by (simp add: g2_def g1 fun_upd_twist)
  then have k2: "bufs g2 key = Some k2" "1 < b_refcnt k2"
    "(bufs g2)(key := Some (k2\<lparr>b_refcnt := b_refcnt k2 - 1\<rparr>)) = (bumped (bufs h) val)
        (n + 3 := Some ?hb, n + 5 := Some (copy_of kb' key (n + 6)\<lparr>b_refcnt := 0\<rparr>), n + 6 := Some (copy_of vb' val 0))"
    using k2' kn(1-3) by (simp_all add: upd_past)
  define g3 where "g3 = put_buf g2 key (k2\<lparr>b_refcnt := b_refcnt k2 - 1\<rparr>)"
  have g3: "bufs g3 = (bumped (bufs h) val)
        (n + 3 := Some ?hb, n + 5 := Some (copy_of kb' key (n + 6)\<lparr>b_refcnt := 0\<rparr>), n + 6 := Some (copy_of vb' val 0))"
    using k2(3) by (simp add: g3_def)
  define g4 where "g4 = put_buf g3 (n + 6) (copy_of vb' val 0\<lparr>b_refcnt := 0\<rparr>)"
  define v2 where "v2 = vb\<lparr>b_refcnt := b_refcnt vb + 1\<rparr>"
  have g4: "bufs g4 = (bumped (bufs h) val)
        (n + 3 := Some ?hb, n + 5 := Some (copy_of kb' key (n + 6)\<lparr>b_refcnt := 0\<rparr>), n + 6 := Some (copy_of vb' val 0\<lparr>b_refcnt := 0\<rparr>))"
    by (simp add: g4_def g3)
  have undone: "(bumped (bufs h) val)(val := Some (v2\<lparr>b_refcnt := b_refcnt v2 - 1\<rparr>)) = bufs h"
    using val(1) by (simp add: bumped_def v2_def fun_upd_idem)
  have v2': "bufs g4 val = Some v2" "1 < b_refcnt v2"
    using val kn(4-6) by (simp_all add: g4 bumped_def v2_def)
  moreover have "(bufs g4)(val := Some (v2\<lparr>b_refcnt := b_refcnt v2 - 1\<rparr>)) = (bufs h)
        (n + 3 := Some ?hb, n + 5 := Some (copy_of kb' key (n + 6)\<lparr>b_refcnt := 0\<rparr>), n + 6 := Some (copy_of vb' val 0\<lparr>b_refcnt := 0\<rparr>))"
    by (simp only: g4 upd_past [OF kn(4-6)] undone)
  ultimately have v2: "bufs g4 val = Some v2" "1 < b_refcnt v2"
    "(bufs g4)(val := Some (v2\<lparr>b_refcnt := b_refcnt v2 - 1\<rparr>)) = (bufs h)
        (n + 3 := Some ?hb, n + 5 := Some (copy_of kb' key (n + 6)\<lparr>b_refcnt := 0\<rparr>), n + 6 := Some (copy_of vb' val 0\<lparr>b_refcnt := 0\<rparr>))"
    by blast+
  define g5 where "g5 = put_buf g4 val (v2\<lparr>b_refcnt := b_refcnt v2 - 1\<rparr>)"
  have f6: "buffer_free (Suc (Suc (Suc k))) (n + 6) g3 = Done (drop_buf g5 (n + 6))" for k
    using free_copy_node [of g3 "n + 6" vb' val 0 "Suc (Suc k)"] free_counted [OF v2(1) _ v2(2)] kv
    by (simp add: g3 flip: g4_def g5_def)
  have f5: "buffer_free (Suc (Suc (Suc (Suc k)))) (n + 5) g1 = Done (drop_buf (drop_buf g5 (n + 6)) (n + 5))" for k
    using free_copy_node [of g1 "n + 5" kb' key "n + 6" "Suc (Suc (Suc k))"] free_counted [OF k2(1) _ k2(2)] kv f6
    by (simp add: g1 flip: g2_def g3_def)
  have "n + 6 = Suc (Suc (Suc (Suc (n + 2))))" by simp
  then have "buffer_free (n + 6) (n + 5) g1 = Done (drop_buf (drop_buf g5 (n + 6)) (n + 5))"
    using f5 [of "n + 2"] by metis
  then have run: "logdb_buffer_free (n + 3) h' = Done (drop_buf (drop_buf (drop_buf g5 (n + 6)) (n + 5)) (n + 3))"
    by (simp add: top)
  have "bufs g5 = (bufs g4)(val := Some (v2\<lparr>b_refcnt := b_refcnt v2 - 1\<rparr>))" by (simp add: g5_def)
  then have "bufs (drop_buf (drop_buf (drop_buf g5 (n + 6)) (n + 5)) (n + 3)) = bufs h"
    using v2(3) old by (auto simp: fun_upd_twist fun_upd_idem)
  moreover have "drop_buf (drop_buf (drop_buf g5 (n + 6)) (n + 5)) (n + 3) =
      g\<lparr>bufs := bufs (drop_buf (drop_buf (drop_buf g5 (n + 6)) (n + 5)) (n + 3))\<rparr>"
    by (rule heap.equality) (simp_all add: g5_def g4_def g3_def g2_def g1_def g_def)
  ultimately show ?thesis using run by (simp add: g_def)
qed

lemma files_frame [simp]:
  "log_file c (popped s) = log_file c s" "db_file c (popped s) = db_file c s"
  "log_file (c\<lparr>c_current_txn := f\<rparr>) s = log_file c s" "db_file (c\<lparr>c_current_txn := f\<rparr>) s = db_file c s"
  "conn_ok c (popped s) = conn_ok c s" "conn_ok (c\<lparr>c_current_txn := f\<rparr>) s = conn_ok c s"
  by (simp_all add: log_file_def db_file_def conn_ok_def)

lemma begin_after_header:
  assumes "heap_ok h" "plenty h"
    and "h1 = h\<lparr>brk := brk h + 3, oom := tl (tl (oom h)), mem := (mem h)(brk h + 2 := Some (encode_data_header hdr)),
       bufs := (bufs h)(brk h + 3 := Some \<lparr>b_data = brk h + 2, b_len = 8, b_disposer = Some C_free, b_orig = 0,
                                           b_next = 0, b_refcnt = 1\<rparr>)\<rparr>"
  shows "logdb_txn_begin_implicit tid (w\<lparr>w_heap := h1\<rparr>) =
           (brk h + 4, w\<lparr>w_heap := put_heap1 hdr (logdb_txn_current tid w) h\<rparr>)"
proof -
  have "plenty h1" using plenty_bump [OF plenty_bump [OF assms(2)]] by (simp add: assms(3) plenty_def)
  from h_malloc_plenty [OF this] have m: "h_malloc h1 = (brk h + 4, h_bump h1)" by (simp add: assms(3))
  have "(h_bump h1)\<lparr>txns := (txns h)(brk h + 4 := Some \<lparr>t_outer = logdb_txn_current tid w, t_buf = 0\<rparr>)\<rparr> =
        put_heap1 hdr (logdb_txn_current tid w) h"
    by (rule heap.equality) (simp_all add: put_heap1_def h_bump_def assms(3))
  then show ?thesis
    using m by (simp add: logdb_txn_begin_implicit_def put_txn_def logdb_txn_current_def assms(3))
qed

text \<open>
  Every put builds the same buffer, whatever transaction is current: the header, a copy of the key, a
  copy of the value. Freeing it later gives back all that was allocated.
\<close>

lemma put_reaches_commit:
  assumes "heap_ok (w_heap w)" "plenty (w_heap w)" "verify_connection dbg conn w = Done True"
    and key: "bufs (w_heap w) key = Some kb" "b_data kb \<noteq> 0" "1 \<le> b_refcnt kb" "brep (w_heap w) nk key ks"
    and val: "bufs (w_heap w) val = Some vb" "b_data vb \<noteq> 0" "1 \<le> b_refcnt vb" "brep (w_heap w) nv val vs"
    and room: "8 + length ks + length vs < 4294967296" and h_def: "h = w_heap w" and n_def: "n = brk h"
  shows "\<exists>h2 N. logdb_put f dbg tid conn key val w = logdb_txn_commit_implicit f dbg tid (n + 4) (w\<lparr>w_heap := h2\<rparr>) \<and>
     heap_ok h2 \<and> brep h2 N (n + 3) (record_bytes ks vs) \<and> brk h2 = n + 6 \<and>
     txns h2 = (txns h)(n + 4 := Some \<lparr>t_outer = logdb_txn_current tid w, t_buf = n + 3\<rparr>) \<and>
     bufs h (n + 3) = None \<and> txns h (n + 4) = None \<and>
     (\<forall>t. logdb_buffer_free (n + 3) (h2\<lparr>txns := t\<rparr>) =
        Done (h2\<lparr>txns := t, bufs := bufs h, mem := mem h, disposed := disposed h @ [(0, n + 2)]\<rparr>)) \<and> plenty h2"
proof -
  define hdr where "hdr = \<lparr>keylen = of_nat (length ks) :: 32 word, valuelen = of_nat (length vs)\<rparr>"
  define out where "out = logdb_txn_current tid w"
  have heap: "heap_ok h" "plenty h" using assms(1,2) by (simp_all add: h_def)
  have keyh: "bufs h key = Some kb" "b_data kb \<noteq> 0" "brep h nk key ks" "1 \<le> b_refcnt kb"
    and valh: "bufs h val = Some vb" "b_data vb \<noteq> 0" "brep h nv val vs" "1 \<le> b_refcnt vb"
    using key val by (simp_all add: h_def)
  have nz: "key \<noteq> 0" "val \<noteq> 0" using heap_ok_bound [OF heap(1)] keyh(1) valh(1) by auto
  have lens: "logdb_buffer_length h key = Done (of_nat (length ks))" "logdb_buffer_length h val = Done (of_nat (length vs))"
    using logdb_buffer_length_correct [OF heap(1)] keyh(3) valh(3) by simp_all
  let ?h1 = "put_heap1 hdr out h"
  note began = begin_after_header [OF heap refl, where w = w and tid = tid and hdr = hdr, folded out_def]
  obtain h' N kb' vb' where b: "obind (logdb_buffer_append dbg (n + 3) key ?h1) (\<lambda>(b, h). logdb_buffer_append dbg b val h) = Done (n + 3, h')"
    "heap_ok h'" "brep h' N (n + 3) (encode_data_header hdr @ ks @ vs)"
    "mem h' = mem ?h1" "txns h' = txns ?h1" "brk h' = n + 6" "disposed h' = disposed h"
    "bufs h' = (bumped (bumped (bufs h) key) val)
        (n + 3 := Some \<lparr>b_data = n + 2, b_len = 8, b_disposer = Some C_free, b_orig = 0, b_next = n + 5, b_refcnt = 1\<rparr>,
         n + 5 := Some (copy_of kb' key (n + 6)), n + 6 := Some (copy_of vb' val 0))" "plenty h'"
    using put_builds [OF heap keyh(1-3) valh(1-3) room n_def refl, of dbg hdr out] by blast
  have rec: "encode_data_header hdr @ ks @ vs = record_bytes ks vs" by (simp add: record_bytes_def hdr_def)
  define h2 where "h2 = h'\<lparr>txns := (txns h')(n + 4 := Some \<lparr>t_outer = out, t_buf = n + 3\<rparr>)\<rparr>"
  have run: "logdb_put f dbg tid conn key val w = logdb_txn_commit_implicit f dbg tid (n + 4) (w\<lparr>w_heap := h2\<rparr>)"
  proof -
    have t: "get_txn (w\<lparr>w_heap := h'\<rparr>) (n + 4) = Done \<lparr>t_outer = out, t_buf = 0\<rparr>"
      by (simp add: get_txn_def b(5) put_heap1_def n_def)
    obtain b1 hh where ap: "logdb_buffer_append dbg (n + 3) key ?h1 = Done (b1, hh)"
      "logdb_buffer_append dbg b1 val hh = Done (n + 3, h')"
      using b(1) by (auto simp: obind_eq_Done)
    show ?thesis
      using assms(3) nz lens put_header_run [OF heap, of dbg hdr] began ap t
      by (simp add: logdb_put_def h_def [symmetric] n_def [symmetric] hdr_def [symmetric] Let_def put_txn_def h2_def)
  qed
  have "heap_ok h2" using b(2,6) by (auto simp: heap_ok_def h2_def)
  moreover have "brep h2 N (n + 3) (record_bytes ks vs)"
    unfolding rec [symmetric] by (rule brep_frame [OF b(3)]) (simp_all add: same_view_def mem_kept_def h2_def)
  moreover have none: "mem h (n + 2) = None" "bufs h (n + 3) = None" "txns h (n + 4) = None"
    using heap_ok_none [OF heap(1)] by (simp_all add: n_def)
  moreover have "logdb_buffer_free (n + 3) (h2\<lparr>txns := t\<rparr>) =
        Done (h2\<lparr>txns := t, bufs := bufs h, mem := mem h, disposed := disposed h @ [(0, n + 2)]\<rparr>)" for t
  proof -
    have "mem h = (mem (h2\<lparr>txns := t\<rparr>))(n + 2 := None)"
      using none(1) by (auto simp: h2_def b(4) put_heap1_def n_def)
    then show ?thesis
      using put_frees [OF n_def heap(1), of "h2\<lparr>txns := t\<rparr>" key kb val vb kb' vb'] b(4,6-8) keyh(1,4) valh(1,4)
      by (simp add: h2_def put_heap1_def n_def)
  qed
  moreover have "txns h2 = (txns h)(n + 4 := Some \<lparr>t_outer = out, t_buf = n + 3\<rparr>)"
    by (simp add: h2_def b(5) put_heap1_def n_def)
  moreover have "plenty h2" using b(9) by (simp add: h2_def plenty_def)
  ultimately show ?thesis using run b(6) by (intro exI [of _ h2] exI [of _ N]) (simp add: out_def h2_def)
qed

lemma set_current_quiet:
  "quiet (w_os w) \<Longrightarrow> logdb_txn_set_current tid t w =
     (0, w\<lparr>w_os := popped (w_os w), w_conn := (w_conn w)\<lparr>c_current_txn := (c_current_txn (w_conn w))(tid := t)\<rparr>\<rparr>)"
  using quiet_event [of "w_os w"] by (simp add: logdb_txn_set_current_def sys_pthread_def pop_eq Let_def)

lemma record_length: "length (record_bytes ks vs) = 8 + length ks + length vs"
  by (simp add: record_bytes_def)

lemma of_nat32_nonzero: "0 < m \<Longrightarrow> m < 4294967296 \<Longrightarrow> (of_nat m :: 32 word) \<noteq> 0"
proof
  assume m: "0 < m" "m < 4294967296" "(of_nat m :: 32 word) = 0"
  have "unat (of_nat m :: 32 word) = m" using m(2) unfolding unat_of_nat by simp
  with m(1,3) show False by simp
qed

lemma put_correct:
  assumes "ready w" "calm (w_os w)" "other_locks (w_os w) = []" "heap_ok (w_heap w)" "plenty (w_heap w)"
    and conn: "conn \<noteq> 0" "c_alive (w_conn w)" "c_version (w_conn w) = LOGDB_VERSION" "logdb_txn_current tid w = 0"
    and key: "bufs (w_heap w) key = Some kb" "b_data kb \<noteq> 0" "1 \<le> b_refcnt kb" "brep (w_heap w) nk key ks"
    and val: "bufs (w_heap w) val = Some vb" "b_data vb \<noteq> 0" "1 \<le> b_refcnt vb" "brep (w_heap w) nv val vs"
    and room: "8 + length ks + length vs < 65536" "Suc (log_count (log_file (w_conn w) (w_os w))) < 65536"
      "list_all (\<lambda>S. length S + (8 + length ks + length vs) \<noteq> 65536) (sections_of w)"
  shows "\<exists>w'. logdb_put (Suc f) dbg tid conn key val w = Done (0, w') \<and> ready w' \<and>
     extends (sections_of w) (record_bytes ks vs) (sections_of w') \<and> frame (w_os w) (w_os w') \<and>
     mem (w_heap w') = mem (w_heap w) \<and> bufs (w_heap w') = bufs (w_heap w) \<and> txns (w_heap w') = txns (w_heap w) \<and>
     logdb_txn_current tid w' = 0 \<and> heap_ok (w_heap w') \<and> plenty (w_heap w') \<and> c_alive (w_conn w') \<and>
     c_version (w_conn w') = LOGDB_VERSION \<and>
     log_count (log_file (w_conn w') (w_os w')) \<le> Suc (log_count (log_file (w_conn w) (w_os w))) \<and>
     same_headers (w_conn w) (w_os w) (w_os w') \<and>
     (\<exists>bs. w_conn w' = (w_conn w)\<lparr>c_log := (c_log (w_conn w))\<lparr>l_lock := bs\<rparr>\<rparr>) \<and>
     (sections_of w \<noteq> [] \<and> length (last (sections_of w)) + (8 + length ks + length vs) < 65536 \<longrightarrow>
        sections_of w' = butlast (sections_of w) @ [last (sections_of w) @ record_bytes ks vs])"
proof -
  define h n where "h = w_heap w" and "n = brk h"
  have verify: "verify_connection dbg conn w = Done True" using conn by (simp add: verify_connection_def)
  have room32: "8 + length ks + length vs < 4294967296" using room(1) by simp
  obtain h2 N where run: "logdb_put (Suc f) dbg tid conn key val w = logdb_txn_commit_implicit (Suc f) dbg tid (n + 4) (w\<lparr>w_heap := h2\<rparr>)"
    and h2: "heap_ok h2" "brep h2 N (n + 3) (record_bytes ks vs)" "brk h2 = n + 6"
      "txns h2 = (txns h)(n + 4 := Some \<lparr>t_outer = 0, t_buf = n + 3\<rparr>)" "txns h (n + 4) = None"
    and free: "\<And>t. logdb_buffer_free (n + 3) (h2\<lparr>txns := t\<rparr>) =
        Done (h2\<lparr>txns := t, bufs := bufs h, mem := mem h, disposed := disposed h @ [(0, n + 2)]\<rparr>)"
    and pl2: "plenty h2"
    using put_reaches_commit [OF assms(4,5) verify key val room32 h_def n_def, of "Suc f" tid] conn(4) by auto
  define w2 where "w2 = w\<lparr>w_heap := h2\<rparr>"
  have w2: "w_heap w2 = h2" "w_conn w2 = w_conn w" "w_os w2 = w_os w" "ready w2 = ready w" "sections_of w2 = sections_of w"
    by (simp_all add: w2_def ready_def sections_of_def)
  let ?c = "\<lambda>bs. (w_conn w)\<lparr>c_log := (c_log (w_conn w))\<lparr>l_lock := bs\<rparr>\<rparr>"
  let ?w3 = "\<lambda>bs s. w2\<lparr>w_conn := ?c bs, w_os := s\<rparr>"
  obtain bs s' where co: "commit_outermost (Suc f) dbg (of_nat (8 + length ks + length vs)) (n + 3) w2 = Done (0, ?w3 bs s')"
    "frame (w_os w) s'" "ready (?w3 bs s')" "extends (sections_of w) (record_bytes ks vs) (sections_of (?w3 bs s'))"
    "log_count (log_file (w_conn w) s') \<le> Suc (log_count (log_file (w_conn w) (w_os w)))"
    "same_headers (w_conn w) (w_os w) s'"
    "sections_of w \<noteq> [] \<and> length (last (sections_of w)) + (8 + length ks + length vs) < 65536 \<longrightarrow>
        sections_of (?w3 bs s') = butlast (sections_of w) @ [last (sections_of w) @ record_bytes ks vs]"
    using commit_outermost_calm [of w2 N "n + 3" "record_bytes ks vs" f dbg] assms(1-3) h2(1,2) room
    unfolding w2 record_length by auto
  let ?w4 = "(?w3 bs s')\<lparr>w_os := popped s', w_conn := (?c bs)\<lparr>c_current_txn := (c_current_txn (w_conn w))(tid := 0)\<rparr>\<rparr>"
  have cur: "snd (logdb_txn_set_current tid 0 (?w3 bs s')) = ?w4"
    using set_current_quiet [of "?w3 bs s'"] calm_quiet [OF frame_calm [OF co(2) assms(2)]] by simp
  let ?h3 = "h2\<lparr>bufs := bufs h, mem := mem h, disposed := disposed h @ [(0, n + 2)]\<rparr>"
  have fr: "logdb_buffer_free (n + 3) h2 = Done ?h3" using free [of "txns h2"] by simp
  let ?w5 = "put_txn (?w4\<lparr>w_heap := ?h3\<rparr>) (n + 4) None"
  have close: "logdb_txn_close (Some tid) (n + 4) (?w3 bs s') = Done ?w5"
    using cur fr by (simp add: logdb_txn_close_def fuel_of_def get_txn_def w2 h2(4) put_txn_def)
  have "logdb_txn_commit (Suc f) dbg tid (n + 4) w2 = Done (0, ?w5)"
  proof -
    have "logdb_buffer_length h2 (n + 3) = Done (of_nat (8 + length ks + length vs))"
      using logdb_buffer_length_correct [OF h2(1,2)] record_length by simp
    moreover have "of_nat (8 + length ks + length vs) \<noteq> (0 :: 32 word)"
      using of_nat32_nonzero [OF _ room32] by simp
    moreover have "get_txn w2 (n + 4) = Done \<lparr>t_outer = 0, t_buf = n + 3\<rparr>" by (simp add: get_txn_def w2 h2(4))
    ultimately show ?thesis using co(1) close by (simp add: logdb_txn_commit_def w2 del: of_nat_add)
  qed
  then have fin: "logdb_put (Suc f) dbg tid conn key val w = Done (0, ?w5)"
    by (simp add: run w2_def logdb_txn_commit_implicit_def)
  have heap5: "mem (w_heap ?w5) = mem h" "bufs (w_heap ?w5) = bufs h" "txns (w_heap ?w5) = txns h"
    using h2(5) by (auto simp: put_txn_def h2(4))
  have rest: "ready ?w5" "sections_of ?w5 = sections_of (?w3 bs s')" "frame (w_os w) (w_os ?w5)" "logdb_txn_current tid ?w5 = 0"
    using co(2,3) frame_trans [OF co(2) frame_steps(1)]
    by (simp_all add: put_txn_def ready_def sections_of_def logdb_txn_current_def)
  have inv: "heap_ok (w_heap ?w5)" "plenty (w_heap ?w5)"
    using assms(4) pl2 h2(1,3) heap5 by (auto simp: heap_ok_def h_def n_def put_txn_def plenty_def)
  have "c_alive (w_conn ?w5)" "c_version (w_conn ?w5) = LOGDB_VERSION"
    "log_count (log_file (w_conn ?w5) (w_os ?w5)) \<le> Suc (log_count (log_file (w_conn w) (w_os w)))"
    using conn(2,3) co(5) by (simp_all add: put_txn_def log_file_def)
  moreover have "same_headers (w_conn w) (w_os w) (w_os ?w5)"
    using co(6) by (simp add: put_txn_def same_headers_def log_file_def db_file_def file_of_def cong: option.case_cong)
  moreover have "\<exists>bs. w_conn ?w5 = ?c bs"
  proof -
    have "(c_current_txn (w_conn w))(tid := 0) = c_current_txn (w_conn w)"
      using conn(4) by (simp add: logdb_txn_current_def fun_eq_iff)
    then show ?thesis by (intro exI [of _ bs]) (simp add: put_txn_def)
  qed
  ultimately show ?thesis using fin heap5 rest co(4,7) inv by (intro exI [of _ ?w5]) (simp add: h_def)
qed

text \<open>
  The same put while a transaction with an empty buffer is current: the buffer becomes that of the
  outer transaction and is then freed with the inner one.
\<close>

lemma length_dangling: "p \<noteq> 0 \<Longrightarrow> bufs h p = None \<Longrightarrow> logdb_buffer_length h p = Fault (BadPtr p)"
  by (simp add: logdb_buffer_length_def fuel_of_def get_buf_def)

lemma put_nested:
  assumes "quiet (w_os w)" "heap_ok (w_heap w)" "plenty (w_heap w)"
    and conn: "conn \<noteq> 0" "c_alive (w_conn w)" "c_version (w_conn w) = LOGDB_VERSION"
    and outer: "logdb_txn_current tid w = t" "t \<noteq> 0" "txns (w_heap w) t = Some ot" "t_buf ot = 0"
    and key: "bufs (w_heap w) key = Some kb" "b_data kb \<noteq> 0" "1 \<le> b_refcnt kb" "brep (w_heap w) nk key ks"
    and val: "bufs (w_heap w) val = Some vb" "b_data vb \<noteq> 0" "1 \<le> b_refcnt vb" "brep (w_heap w) nv val vs"
    and room: "8 + length ks + length vs < 4294967296"
  shows "\<exists>w' p. logdb_put f dbg tid conn key val w = Done (0, w') \<and> inode (w_os w') = inode (w_os w) \<and>
     txns (w_heap w') t = Some (ot\<lparr>t_buf := p\<rparr>) \<and> bufs (w_heap w') p = None \<and> p \<noteq> 0 \<and>
     logdb_commit f dbg tid conn w' = Fault (BadPtr p)"
proof -
  define h n where "h = w_heap w" and "n = brk h"
  have verify: "verify_connection dbg conn w = Done True" using conn by (simp add: verify_connection_def)
  obtain h2 N where run: "logdb_put f dbg tid conn key val w = logdb_txn_commit_implicit f dbg tid (n + 4) (w\<lparr>w_heap := h2\<rparr>)"
    and h2: "heap_ok h2" "brep h2 N (n + 3) (record_bytes ks vs)" "brk h2 = n + 6"
      "txns h2 = (txns h)(n + 4 := Some \<lparr>t_outer = t, t_buf = n + 3\<rparr>)" "txns h (n + 4) = None" "bufs h (n + 3) = None"
    and free: "\<And>t. logdb_buffer_free (n + 3) (h2\<lparr>txns := t\<rparr>) =
        Done (h2\<lparr>txns := t, bufs := bufs h, mem := mem h, disposed := disposed h @ [(0, n + 2)]\<rparr>)"
    using put_reaches_commit [OF assms(2,3) verify key val room h_def n_def, of f tid] outer(1) by auto
  define w2 where "w2 = w\<lparr>w_heap := h2\<rparr>"
  have t4: "t \<noteq> n + 4" using outer(3) h2(5) by (auto simp: h_def)
  define w3 where "w3 = put_txn w2 t (Some (ot\<lparr>t_buf := n + 3\<rparr>))"
  have merge: "merge_into_outer dbg \<lparr>t_outer = t, t_buf = n + 3\<rparr> w2 = Done w3"
    using t4 outer(3,4) by (simp add: merge_into_outer_def get_txn_def w2_def h2(4) logdb_buffer_append_def w3_def put_txn_def h_def)
  define w4 where "w4 = w3\<lparr>w_os := popped (w_os w), w_conn := (w_conn w)\<lparr>c_current_txn := (c_current_txn (w_conn w))(tid := t)\<rparr>\<rparr>"
  have cur: "snd (logdb_txn_set_current tid t w3) = w4"
    using set_current_quiet [of w3 tid t] assms(1) by (simp add: w3_def w4_def w2_def put_txn_def)
  let ?t3 = "(txns h2)(t := Some (ot\<lparr>t_buf := n + 3\<rparr>))"
  let ?h5 = "h2\<lparr>txns := ?t3, bufs := bufs h, mem := mem h, disposed := disposed h @ [(0, n + 2)]\<rparr>"
  let ?w5 = "put_txn (w4\<lparr>w_heap := ?h5\<rparr>) (n + 4) None"
  have heaps: "w_heap w3 = h2\<lparr>txns := ?t3\<rparr>" "w_heap w4 = h2\<lparr>txns := ?t3\<rparr>"
    by (simp_all add: w4_def w3_def w2_def put_txn_def)
  have close: "logdb_txn_close (Some tid) (n + 4) w3 = Done ?w5"
    using cur free [of ?t3] t4 by (simp add: logdb_txn_close_def fuel_of_def get_txn_def heaps h2(4) put_txn_def)
  have "logdb_txn_commit f dbg tid (n + 4) w2 = Done (0, ?w5)"
  proof -
    have "logdb_buffer_length h2 (n + 3) = Done (of_nat (8 + length ks + length vs))"
      using logdb_buffer_length_correct [OF h2(1,2)] record_length by simp
    moreover have "of_nat (8 + length ks + length vs) \<noteq> (0 :: 32 word)"
      using of_nat32_nonzero [OF _ room] by simp
    moreover have "get_txn w2 (n + 4) = Done \<lparr>t_outer = t, t_buf = n + 3\<rparr>" by (simp add: get_txn_def w2_def h2(4))
    moreover have "w_heap w2 = h2" by (simp add: w2_def)
    ultimately show ?thesis using merge close outer(2) by (simp add: logdb_txn_commit_def del: of_nat_add)
  qed
  then have fin: "logdb_put f dbg tid conn key val w = Done (0, ?w5)"
    by (simp add: run w2_def logdb_txn_commit_implicit_def)
  have w5: "txns (w_heap ?w5) t = Some (ot\<lparr>t_buf := n + 3\<rparr>)" "bufs (w_heap ?w5) = bufs h" "logdb_txn_current tid ?w5 = t"
    "inode (w_os ?w5) = inode (w_os w)" "verify_connection dbg conn ?w5 = Done True" "brk (w_heap ?w5) = n + 6"
    using t4 conn by (simp_all add: put_txn_def w4_def w3_def logdb_txn_current_def verify_connection_def h2(3))
  have "logdb_buffer_length (w_heap ?w5) (n + 3) = Fault (BadPtr (n + 3))"
    by (rule length_dangling) (use h2(6) w5(2) in simp_all)
  then have "logdb_commit f dbg tid conn ?w5 = Fault (BadPtr (n + 3))"
    using w5(1,3,5) outer(2) by (simp add: logdb_commit_def Let_def logdb_txn_commit_def get_txn_def)
  with fin w5 h2(6) show ?thesis by (intro exI [of _ ?w5] exI [of _ "n + 3"]) simp
qed

section \<open>An example connection\<close>

text \<open>A database with its log, both open, and the two buffers \<open>foo\<close> and \<open>bar\<close>.\<close>

definition ex_os :: "byte list \<Rightarrow> byte list \<Rightarrow> io_event list \<Rightarrow> os" where
  "ex_os D L es =
     \<lparr>dir = [''t'' \<mapsto> 0, ''t-log'' \<mapsto> 1], inode = (\<lambda>_. [])(0 := D, 1 := L), next_ino = 2,
      fds = [3 \<mapsto> \<lparr>f_ino = 0, f_pos = 6, f_append = False\<rparr>, 4 \<mapsto> \<lparr>f_ino = 1, f_pos = 6, f_append = True\<rparr>],
      next_fd = 5, sched = es, stack_junk = 7,
      my_locks = (\<lambda>_ _. L_None), other_locks = [], my_flock = (\<lambda>_. L_None), other_flock = (\<lambda>_. L_None),
      pwrite_appends = False, test_env = False\<rparr>"

definition ex_conn :: logdb_connection_t where
  "ex_conn = \<lparr>c_version = LOGDB_VERSION, c_readers = 0, c_flags = LOGDB_OPEN_CREATE, c_fd = 3,
              c_log = \<lparr>l_fd = 4, l_path = Some ''t-log'', l_lock = []\<rparr>, c_current_txn = (\<lambda>_. 0), c_alive = True\<rparr>"

definition ex_world :: "byte list \<Rightarrow> byte list \<Rightarrow> io_event list \<Rightarrow> world" where
  "ex_world D L es = \<lparr>w_os = ex_os D L es, w_heap = two_buffers, w_conn = ex_conn\<rparr>"

lemma ex_files [simp]: "log_file ex_conn (ex_os D L es) = L" "db_file ex_conn (ex_os D L es) = D"
  by (simp_all add: log_file_def db_file_def file_of_def ex_os_def ex_conn_def)

lemma ex_simps [simp]:
  "w_os (ex_world D L es) = ex_os D L es" "w_heap (ex_world D L es) = two_buffers" "w_conn (ex_world D L es) = ex_conn"
  "other_locks (ex_os D L es) = []" "sched (ex_os D L es) = es" "l_lock (c_log ex_conn) = []"
  by (simp_all add: ex_world_def ex_os_def ex_conn_def)

lemma ex_calm [simp]: "calm (ex_os D L es) = list_all (\<lambda>e. e \<noteq> Fail \<and> e \<noteq> Short 0 \<and> e \<noteq> Short 1) es"
  by (auto simp: calm_def quiet_def list_all_iff)

lemma ex_conn_ok: "6 \<le> length L \<Longrightarrow> even (length L) \<Longrightarrow> log_count L < 65536 \<Longrightarrow> conn_ok ex_conn (ex_os D L es)"
  by (simp add: conn_ok_def) (simp add: ex_os_def ex_conn_def)

lemma ex_ready: "6 \<le> length L \<Longrightarrow> even (length L) \<Longrightarrow> log_count L < 65536 \<Longrightarrow> data_present L D \<Longrightarrow> ready (ex_world D L es)"
  by (simp add: ready_def ex_conn_ok idle_def)

section \<open>Properties\<close>

text \<open>C16: With no lock held, no failure and no other process, \<open>logdb_lease_acquire_write\<close> succeeds in its first
  round. It gives the lock of an existing section and the offset of the first byte of that section that
  the log does not count as valid; the size asked for fits before the end of the section. The database
  is not touched, the log has at most one more, empty, entry.\<close>

theorem write_lease_is_granted:
  assumes "conn_ok c s" "idle (l_lock (c_log c))" "calm s" "other_locks s = []" "uint sz \<le> LOGDB_SECTION_SIZE"
    and "Suc (log_count (log_file c s)) < 65536"
  shows "\<exists>l c' s'. logdb_lease_acquire_write (Suc n) lease c sz s = Done (0, l, c', s') \<and>
           ls_connection l \<and> ls_type l = LOCK_WRITE \<and> ls_len l = sz \<and>
           unat (ls_index l) < log_count (log_file c s') \<and>
           ls_offset l = uint (entry_at (log_file c s') (unat (ls_index l))) \<and>
           ls_offset l + uint sz \<le> LOGDB_SECTION_SIZE \<and>
           db_file c s' = db_file c s \<and> (log_file c s' = log_file c s \<or> log_file c s' = log_file c s @ [0, 0]) \<and>
           holding True (l_lock (c_log c')) (ls_index l) (-1) \<and> c_readers c' = c_readers c + 1"
proof -
  have "uint sz \<le> 65536" using assms(5) by (simp add: size_defs)
  from acquire_write_calm [OF assms(1-4) this assms(6), of n lease] obtain l bs s' where
    a: "logdb_lease_acquire_write (Suc n) lease c sz s =
        Done (0, l, c\<lparr>c_readers := c_readers c + 1, c_log := (c_log c)\<lparr>l_lock := bs\<rparr>\<rparr>, s')"
      "grown (log_file c s) (log_file c s')" "db_file c s' = db_file c s" "write_lease_ok c s' l" "ls_len l = sz"
      "holding True bs (ls_index l) (-1)"
    by blast
  let ?c = "c\<lparr>c_readers := c_readers c + 1, c_log := (c_log c)\<lparr>l_lock := bs\<rparr>\<rparr>"
  have h: "holding True (l_lock (c_log ?c)) (ls_index l) (-1)" "c_readers ?c = c_readers c + 1"
    using a(6) by simp_all
  from a(4) [unfolded write_lease_ok_def a(5)]
  have w: "ls_connection l" "ls_type l = LOCK_WRITE" "unat (ls_index l) < log_count (log_file c s')"
    "ls_offset l = uint (entry_at (log_file c s') (unat (ls_index l)))" "ls_offset l + uint sz \<le> LOGDB_SECTION_SIZE"
    by blast+
  show ?thesis
    by (rule exI, rule exI, rule exI, rule conjI, rule a(1))
       (intro conjI, rule w, rule w, rule a, rule w, rule w, rule w, rule a, rule a(2) [unfolded grown_def], rule h, rule h)
qed

theorem write_lease_is_granted_witness:
  "\<exists>l c' s'. logdb_lease_acquire_write 1 zero_lease ex_conn 11 (ex_os logdb_header logdb_log_header []) = Done (0, l, c', s') \<and>
     ls_offset l + 11 \<le> LOGDB_SECTION_SIZE \<and> ls_len l = 11"
proof -
  let ?s = "ex_os logdb_header logdb_log_header []"
  have "conn_ok ex_conn ?s" by (rule ex_conn_ok) (simp_all add: log_count_def size_defs)
  moreover have "idle (l_lock (c_log ex_conn))" by (simp add: idle_def)
  moreover have "calm ?s" by (simp add: calm_def quiet_def)
  moreover have "other_locks ?s = []" "uint (11 :: 32 word) \<le> LOGDB_SECTION_SIZE" "Suc (log_count (log_file ex_conn ?s)) < 65536"
    by (simp_all add: size_defs log_count_def)
  ultimately obtain l c' s' where "logdb_lease_acquire_write (Suc 0) zero_lease ex_conn 11 ?s = Done (0, l, c', s')"
    "ls_len l = 11" "ls_offset l + uint (11 :: 32 word) \<le> LOGDB_SECTION_SIZE"
    using write_lease_is_granted [of ex_conn ?s 11 0 zero_lease] by blast
  then show ?thesis by (intro exI [of _ l] exI [of _ c'] exI [of _ s']) simp
qed

text \<open>Both outcomes of a commit under every schedule, as the files show them.\<close>

lemma commit_outcome:
  assumes "conn_ok c s" "write_lease_ok c s lease" "heap_ok h" "brep h n p xs" "p \<noteq> 0"
    and "length xs \<le> unat (ls_len lease)" "Short 1 \<notin> set (sched s)" "data_present (log_file c s) (db_file c s)"
    and "unat (entry_at (log_file c s) (unat (ls_index lease))) + length xs < 65536"
  shows "\<exists>r lease' s'. commit_under_lease c h lease p s = Done (r, lease', s') \<and> (r = 0 \<or> r = -1) \<and> (quiet s \<longrightarrow> r = 0) \<and>
           db_sections (log_file c s') (db_file c s') =
             (if r = 0 then (db_sections (log_file c s) (db_file c s))
                [unat (ls_index lease) := db_sections (log_file c s) (db_file c s) ! unat (ls_index lease) @ xs]
              else db_sections (log_file c s) (db_file c s)) \<and>
           data_present (log_file c s') (db_file c s') \<and> frame s s' \<and> same_headers c s s' \<and>
           length (log_file c s') = length (log_file c s)"
proof -
  define i L D where "i = unat (ls_index lease)" and "L = log_file c s" and "D = db_file c s"
  from commit_under_lease_spec [OF assms(1-7)] obtain r m s' where
    run: "commit_under_lease c h lease p s = Done (r, advance lease (int m), s')" "quiet s \<longrightarrow> r = 0" "m \<le> length xs"
    "db_file c s' = write_at D (6 + 65536 * i + unat (entry_at L i)) (take m xs)"
    "r = 0 \<and> m = length xs \<and> log_file c s' = write_at L (6 + 2 * i) (le16 (of_nat (unat (entry_at L i) + length xs))) \<or>
     r = -1 \<and> log_file c s' = L"
    "frame s s'"
    unfolding i_def L_def D_def by blast
  have i: "i < log_count L" using assms(2) by (simp add: write_lease_ok_def i_def L_def)
  have dp: "data_present L D" and room: "unat (entry_at L i) + length xs < 65536"
    using assms(8,9) by (simp_all add: i_def L_def D_def)
  have L6: "6 \<le> length L" using assms(1) by (simp add: conn_ok_def L_def)
  have "log_count L < 65536" using assms(1) by (simp add: conn_ok_def L_def)
  with i have "length (db_file c s') \<le> max (length D) 4294967302"
    unfolding run(4) using room run(3) by (intro write_in_sections) simp_all
  then have heads: "same_headers c s s'"
    using run(4,5) L6 by (auto simp: same_headers_def take_write_before L_def D_def simp del: of_nat_add)
  have len: "length (log_file c s') = length L"
    using run(5) length_entry_write [OF i] by (auto simp del: of_nat_add)
  note rest = run(6) heads len
  from run(5) show ?thesis
  proof
    assume ok: "r = 0 \<and> m = length xs \<and> log_file c s' = write_at L (6 + 2 * i) (le16 (of_nat (unat (entry_at L i) + length xs)))"
    with run(1,2,4) rest db_sections_commit [OF dp i room] i show ?thesis
      by (intro exI [of _ r] exI [of _ "advance lease (int m)"] exI [of _ s'])
         (simp add: nth_db_sections i_def L_def D_def del: of_nat_add)
  next
    assume bad: "r = -1 \<and> log_file c s' = L"
    have room': "unat (entry_at L i) + length (take m xs) \<le> 65536" using room by simp
    have "db_sections L (db_file c s') = db_sections L D"
      unfolding run(4) by (rule db_sections_eqI) (simp_all add: section_of_write [OF dp i _ room'])
    moreover have "length D \<le> length (db_file c s')" unfolding run(4) by (rule length_write_at_ge)
    then have "data_present L (db_file c s')" using data_presentD [OF dp] by (fastforce simp: data_present_iff)
    ultimately show ?thesis using run(1,2) rest bad
      by (intro exI [of _ r] exI [of _ "advance lease (int m)"] exI [of _ s']) (simp add: i_def L_def D_def)
  qed
qed


lemma entry_at_first: "entry_at (logdb_log_header @ le16 v) 0 = v"
  using seg_append_right [of logdb_log_header "le16 v" 2] by (simp add: entry_at_def)

text \<open>A log with one section that holds the four bytes 1, 2, 3, 4, and a lease on its free part.\<close>

definition one_log :: "byte list" where "one_log = logdb_log_header @ [4, 0]"
definition one_db :: "byte list" where "one_db = logdb_header @ [1, 2, 3, 4]"
definition one_lease :: logdb_lease_t where
  "one_lease = \<lparr>ls_connection = True, ls_index = 0, ls_offset = 4, ls_len = 3, ls_type = LOCK_WRITE\<rparr>"

lemma one_facts:
  "log_count one_log = 1" "entry_at one_log 0 = 4" "data_present one_log one_db" "length one_log = 8"
  "db_sections one_log one_db = [[1, 2, 3, 4]]" "write_lease_ok ex_conn (ex_os one_db one_log es) one_lease"
proof -
  show cnt: "log_count one_log = 1" by (simp add: log_count_def one_log_def size_defs)
  show e: "entry_at one_log 0 = 4" by code_simp
  show "length one_log = 8" by (simp add: one_log_def)
  have len: "length one_db = 10" by (simp add: one_db_def)
  show "data_present one_log one_db" by (simp add: data_present_iff cnt e len)
  show "db_sections one_log one_db = [[1, 2, 3, 4]]"
    by (simp add: db_sections_def cnt section_of_def e seg_def one_db_def)
  show "write_lease_ok ex_conn (ex_os one_db one_log es) one_lease"
    by (simp add: write_lease_ok_def one_lease_def cnt e size_defs)
qed


text \<open>C33: A section that a commit fills to its very end is lost: the 16-bit length 65536 is stored as 0, the
  commit reports success, and the section reads as empty. The lease permits this size.\<close>

theorem full_section_is_lost:
  assumes "conn_ok c s" "write_lease_ok c s lease" "heap_ok h" "brep h n p xs" "p \<noteq> 0"
    and "length xs \<le> unat (ls_len lease)" "calm s"
    and "unat (entry_at (log_file c s) (unat (ls_index lease))) + length xs = 65536"
  shows "\<exists>lease' s'. commit_under_lease c h lease p s = Done (0, lease', s') \<and>
           section_of (log_file c s') (db_file c s') (unat (ls_index lease)) = []"
proof -
  have q: "Short 1 \<notin> set (sched s)" "quiet s" using assms(7) by (simp_all add: calm_def)
  from commit_under_lease_spec [OF assms(1-6) q(1)] q(2) obtain s' where
    run: "commit_under_lease c h lease p s = Done (0, advance lease (int (length xs)), s')"
    "log_file c s' = write_at (log_file c s) (6 + 2 * unat (ls_index lease)) (le16 (of_nat 65536))"
    unfolding assms(8) by auto
  have "unat (ls_index lease) < log_count (log_file c s)" using assms(2) by (simp add: write_lease_ok_def)
  from entry_at_write [OF this, of "of_nat 65536" "unat (ls_index lease)"]
  have "entry_at (log_file c s') (unat (ls_index lease)) = 0" by (simp add: run(2))
  then have "section_of (log_file c s') (db_file c s') (unat (ls_index lease)) = []" by (simp add: section_of_def)
  with run(1) show ?thesis by blast
qed

theorem full_section_is_lost_witness:
  "\<forall>D. \<exists>lease' s'. commit_under_lease ex_conn two_buffers (one_lease\<lparr>ls_offset := 65533\<rparr>) 3
       (ex_os D (logdb_log_header @ le16 65533) []) = Done (0, lease', s') \<and>
     section_of (log_file ex_conn s') (db_file ex_conn s') 0 = []"
proof
  fix D
  let ?L = "logdb_log_header @ le16 65533"
  have cnt: "log_count ?L = 1" by (simp add: log_count_def size_defs)
  have e: "entry_at ?L 0 = 65533" by (rule entry_at_first)
  have ok: "conn_ok ex_conn (ex_os D ?L [])" by (rule ex_conn_ok) (simp_all add: cnt)
  have wl: "write_lease_ok ex_conn (ex_os D ?L []) (one_lease\<lparr>ls_offset := 65533\<rparr>)"
    by (simp add: write_lease_ok_def one_lease_def cnt e size_defs)
  have i: "unat (ls_index (one_lease\<lparr>ls_offset := 65533\<rparr>)) = 0" "unat (ls_len (one_lease\<lparr>ls_offset := 65533\<rparr>)) = 3"
    by (simp_all add: one_lease_def)
  have "calm (ex_os D ?L [])" by (simp add: calm_def quiet_def)
  moreover have "unat (65533 :: 16 word) + length [102, 111, 111 :: byte] = 65536" "length [102, 111, 111 :: byte] \<le> 3" "(3 :: nat) \<noteq> 0" by simp_all
  ultimately show "\<exists>lease' s'. commit_under_lease ex_conn two_buffers (one_lease\<lparr>ls_offset := 65533\<rparr>) 3 (ex_os D ?L []) = Done (0, lease', s') \<and>
     section_of (log_file ex_conn s') (db_file ex_conn s') 0 = []"
    using full_section_is_lost [OF ok wl heap_ok_two brep_two(1), unfolded i ex_files e] by blast
qed

text \<open>C6: A put outside a transaction, with no lock held, no failure and no other process, returns 0 and adds
  the record - the two lengths, the key, the value - to the end of one section or as a new section;
  nothing else in the database changes. When the last section has room, the record goes there. The heap is left
  as it was: nothing is leaked, the buffers of the caller keep their contents and reference counts.\<close>

theorem put_appends_record:
  assumes "ready w" "calm (w_os w)" "other_locks (w_os w) = []" "heap_ok (w_heap w)" "plenty (w_heap w)"
    and "conn \<noteq> 0" "c_alive (w_conn w)" "c_version (w_conn w) = LOGDB_VERSION" "logdb_txn_current tid w = 0"
    and "bufs (w_heap w) key = Some kb" "b_data kb \<noteq> 0" "1 \<le> b_refcnt kb" "brep (w_heap w) nk key ks"
    and "bufs (w_heap w) val = Some vb" "b_data vb \<noteq> 0" "1 \<le> b_refcnt vb" "brep (w_heap w) nv val vs"
    and "8 + length ks + length vs < 65536" "Suc (log_count (log_file (w_conn w) (w_os w))) < 65536"
    and "list_all (\<lambda>S. length S + (8 + length ks + length vs) \<noteq> 65536) (sections_of w)"
  shows "\<exists>w'. logdb_put (Suc f) dbg tid conn key val w = Done (0, w') \<and> ready w' \<and>
     extends (sections_of w) (record_bytes ks vs) (sections_of w') \<and>
     mem (w_heap w') = mem (w_heap w) \<and> bufs (w_heap w') = bufs (w_heap w) \<and> txns (w_heap w') = txns (w_heap w) \<and>
     logdb_txn_current tid w' = 0 \<and>
     (sections_of w \<noteq> [] \<and> length (last (sections_of w)) + (8 + length ks + length vs) < 65536 \<longrightarrow>
        sections_of w' = butlast (sections_of w) @ [last (sections_of w) @ record_bytes ks vs])"
  using put_correct [OF assms] by blast

theorem put_appends_record_witness:
  "\<exists>w'. logdb_put 1 True 0 1 3 4 (ex_world logdb_header logdb_log_header [Full, Short 3]) = Done (0, w') \<and>
     sections_of w' = [[3, 0, 0, 0, 3, 0, 0, 0, 102, 111, 111, 98, 97, 114]]"
proof -
  let ?w = "ex_world logdb_header logdb_log_header [Full, Short 3]"
  let ?kb = "\<lparr>b_data = 1, b_len = 3, b_disposer = None, b_orig = 0, b_next = 0, b_refcnt = 1\<rparr>"
  let ?vb = "\<lparr>b_data = 2, b_len = 3, b_disposer = None, b_orig = 0, b_next = 0, b_refcnt = 1\<rparr>"
  have cnt: "log_count logdb_log_header = 0" by (simp add: log_count_def size_defs)
  have ready: "ready ?w" by (rule ex_ready) (simp_all add: cnt data_present_def)
  have calm: "calm (w_os ?w)" by (simp add: calm_def quiet_def)
  have plenty: "plenty (w_heap ?w)" by (simp add: two_buffers_eq plenty_def)
  have key: "bufs (w_heap ?w) 3 = Some ?kb" and val: "bufs (w_heap ?w) 4 = Some ?vb"
    by (simp_all add: two_buffers_eq)
  have S: "sections_of ?w = []" by (simp add: sections_of_def db_sections_def cnt)
  have rec: "record_bytes [102, 111, 111] [98, 97, 114] = [3, 0, 0, 0, 3, 0, 0, 0, 102, 111, 111, 98, 97, 114]"
    by code_simp
  have heap: "heap_ok (w_heap ?w)" "brep (w_heap ?w) 1 3 [102, 111, 111]" "brep (w_heap ?w) 1 4 [98, 97, 114]"
    using heap_ok_two brep_two by simp_all
  have conn: "c_alive (w_conn ?w)" "c_version (w_conn ?w) = LOGDB_VERSION" "logdb_txn_current 0 ?w = 0"
    by (simp_all add: ex_conn_def logdb_txn_current_def)
  obtain w' where w': "logdb_put (Suc 0) True 0 1 3 4 ?w = Done (0, w')"
    "extends (sections_of ?w) (record_bytes [102, 111, 111] [98, 97, 114]) (sections_of w')"
    using put_appends_record [OF ready calm _ heap(1) plenty _ conn key _ _ heap(2) val _ _ heap(3), of 1 0 True]
    by (auto simp: S cnt)
  then show ?thesis by (auto simp: S rec extends_def)
qed

lemma set_current_files: "logdb_txn_set_current tid t w = (r, w') \<Longrightarrow> same_data (w_os w) (w_os w')"
  using sys_pthread_same [of "w_os w"] by (auto simp: logdb_txn_set_current_def split: prod.splits if_splits)

lemma txn_close_files: "txn_close n c t w = Done w' \<Longrightarrow> same_data (w_os w) (w_os w')"
proof (induction n c t w arbitrary: w' rule: txn_close.induct)
  case (2 n c t w)
  from "2.prems" obtain x w1 x1 h where g: "get_txn w t = Done x"
    "(case c of Some tid \<Rightarrow> Done (snd (logdb_txn_set_current tid (t_outer x) w))
       | None \<Rightarrow> if t_outer x \<noteq> 0 then txn_close n None (t_outer x) w else Done w) = Done w1"
    "w' = put_txn (w1\<lparr>w_heap := h\<rparr>) t None"
    by (auto simp: obind_eq_Done)
  have "same_data (w_os w) (w_os w1)"
  proof (cases c)
    case None
    with g(1,2) "2.IH" show ?thesis by (auto split: if_splits)
  next
    case (Some tid)
    with g(2) set_current_files [of tid "t_outer x" w] show ?thesis
      by (cases "logdb_txn_set_current tid (t_outer x) w") auto
  qed
  with g(3) show ?case by (simp add: put_txn_def)
qed simp


text \<open>The example connection after \<open>logdb_begin\<close>.\<close>

definition begun_world :: world where
  "begun_world = \<lparr>w_os = ex_os logdb_header logdb_log_header [],
     w_heap = two_buffers\<lparr>txns := (\<lambda>_. None)(5 := Some \<lparr>t_outer = 0, t_buf = 0\<rparr>), brk := 5\<rparr>,
     w_conn = ex_conn\<lparr>c_current_txn := (\<lambda>_. 0)(0 := 5)\<rparr>\<rparr>"

lemma begun_run: "logdb_begin dbg 0 1 (ex_world logdb_header logdb_log_header []) = Done (0, begun_world)"
proof -
  have q: "quiet (ex_os logdb_header logdb_log_header [])" by (simp add: quiet_def)
  have "popped (ex_os logdb_header logdb_log_header []) = ex_os logdb_header logdb_log_header []"
    by (simp add: popped_def ex_os_def)
  with q set_current_quiet [of "\<lparr>w_os = ex_os logdb_header logdb_log_header [], w_heap = h, w_conn = ex_conn\<rparr>" 0 5 for h]
  show ?thesis
    by (simp add: logdb_begin_def verify_connection_def ex_conn_def begun_world_def logdb_txn_begin_implicit_def
        ex_world_def two_buffers_eq h_malloc_def put_txn_def logdb_txn_current_def)
qed

lemma begun_facts:
  "heap_ok (w_heap begun_world)" "plenty (w_heap begun_world)" "quiet (w_os begun_world)"
  "c_alive (w_conn begun_world)" "c_version (w_conn begun_world) = LOGDB_VERSION" "logdb_txn_current 0 begun_world = 5"
  "txns (w_heap begun_world) 5 = Some \<lparr>t_outer = 0, t_buf = 0\<rparr>" "inode (w_os begun_world) 0 = logdb_header"
  "bufs (w_heap begun_world) 3 = Some \<lparr>b_data = 1, b_len = 3, b_disposer = None, b_orig = 0, b_next = 0, b_refcnt = 1\<rparr>"
  "bufs (w_heap begun_world) 4 = Some \<lparr>b_data = 2, b_len = 3, b_disposer = None, b_orig = 0, b_next = 0, b_refcnt = 1\<rparr>"
  "brep (w_heap begun_world) 1 3 [102, 111, 111]" "brep (w_heap begun_world) 1 4 [98, 97, 114]"
proof -
  show "heap_ok (w_heap begun_world)" using heap_ok_two by (auto simp: heap_ok_def begun_world_def two_buffers_eq)
  show "plenty (w_heap begun_world)" "quiet (w_os begun_world)" "c_alive (w_conn begun_world)"
    "c_version (w_conn begun_world) = LOGDB_VERSION" "logdb_txn_current 0 begun_world = 5"
    "txns (w_heap begun_world) 5 = Some \<lparr>t_outer = 0, t_buf = 0\<rparr>" "inode (w_os begun_world) 0 = logdb_header"
    by (simp_all add: begun_world_def plenty_def two_buffers_eq quiet_def ex_conn_def logdb_txn_current_def) (simp add: ex_os_def)
  show "bufs (w_heap begun_world) 3 = Some \<lparr>b_data = 1, b_len = 3, b_disposer = None, b_orig = 0, b_next = 0, b_refcnt = 1\<rparr>"
    "bufs (w_heap begun_world) 4 = Some \<lparr>b_data = 2, b_len = 3, b_disposer = None, b_orig = 0, b_next = 0, b_refcnt = 1\<rparr>"
    by (simp_all add: begun_world_def two_buffers_eq)
  have "same_view two_buffers (w_heap begun_world) q" "mem_kept two_buffers (w_heap begun_world)" for q
    by (simp_all add: same_view_def mem_kept_def begun_world_def)
  then show "brep (w_heap begun_world) 1 3 [102, 111, 111]" "brep (w_heap begun_world) 1 4 [98, 97, 114]"
    using brep_frame brep_two by blast+
qed


text \<open>C34: A put inside a transaction that has no data yet reports success, but hands the buffer to the outer
  transaction without keeping a reference to it: closing the inner transaction frees it. Nothing is
  written, and the commit of the outer transaction uses freed memory.\<close>

theorem nested_put_uses_freed_memory:
  assumes "quiet (w_os w)" "heap_ok (w_heap w)" "plenty (w_heap w)"
    and "conn \<noteq> 0" "c_alive (w_conn w)" "c_version (w_conn w) = LOGDB_VERSION"
    and "logdb_txn_current tid w = t" "t \<noteq> 0" "txns (w_heap w) t = Some ot" "t_buf ot = 0"
    and "bufs (w_heap w) key = Some kb" "b_data kb \<noteq> 0" "1 \<le> b_refcnt kb" "brep (w_heap w) nk key ks"
    and "bufs (w_heap w) val = Some vb" "b_data vb \<noteq> 0" "1 \<le> b_refcnt vb" "brep (w_heap w) nv val vs"
    and "8 + length ks + length vs < 4294967296"
  shows "\<exists>w' p. logdb_put f dbg tid conn key val w = Done (0, w') \<and> inode (w_os w') = inode (w_os w) \<and>
     txns (w_heap w') t = Some (ot\<lparr>t_buf := p\<rparr>) \<and> bufs (w_heap w') p = None \<and> p \<noteq> 0 \<and>
     logdb_commit f dbg tid conn w' = Fault (BadPtr p)"
  using put_nested [OF assms] .

theorem nested_put_uses_freed_memory_witness:
  "\<exists>w' p. logdb_begin True 0 1 (ex_world logdb_header logdb_log_header []) = Done (0, begun_world) \<and>
     logdb_put 1 True 0 1 3 4 begun_world = Done (0, w') \<and> logdb_commit 1 True 0 1 w' = Fault (BadPtr p)"
proof -
  note f = begun_facts
  from nested_put_uses_freed_memory [OF f(3,1,2) _ f(4-6) _ f(7) _ f(9) _ _ f(11) f(10) _ _ f(12), of 1 1 True] begun_run
  show ?thesis by auto
qed

end
