(* ===== verification/Iter.thy ===== *)
theory Iter
  imports Commit
begin

text \<open>\<^verbatim>\<open>src/logdb_iter.c\<close>: iterating over all records of the database.\<close>

section \<open>State\<close>

text \<open>\<open>it_connection\<close> says whether the pointer to the connection is not null.\<close>

record logdb_iter_t =
  it_connection :: bool
  it_lease :: logdb_lease_t
  it_record :: logdb_data_header_t
  it_key :: ptr
  it_value :: ptr

section \<open>Operations\<close>

text \<open>Reading the next \<open>len\<close> bytes of the lease into a new buffer; 0 is the null pointer.\<close>

definition logdb_iter_read_buf :: "bool \<Rightarrow> logdb_iter_t \<Rightarrow> 32 word \<Rightarrow> world \<Rightarrow> (ptr \<times> logdb_iter_t \<times> world) outcome" where
  "logdb_iter_read_buf dbg iter len w =
     (case h_malloc (w_heap w) of (buf, h) \<Rightarrow>
      if buf = 0 then Done (0, iter, w\<lparr>w_heap := h\<rparr>)
      else obind (logdb_lease_read (it_lease iter) (w_conn w) len (w_os w)) (\<lambda>(notread, bytes, lease, s).
        let iter = iter\<lparr>it_lease := lease\<rparr> in
        if notread \<noteq> 0 then Done (0, iter, w\<lparr>w_heap := h, w_os := s\<rparr>)
        else case logdb_buffer_new_direct dbg buf len (Some C_free) (h\<lparr>mem := (mem h)(buf := Some bytes)\<rparr>) of (p, h) \<Rightarrow>
          Done (p, iter, w\<lparr>w_heap := h, w_os := s\<rparr>)))"

definition logdb_iter_all :: "bool \<Rightarrow> ptr \<Rightarrow> world \<Rightarrow> (logdb_iter_t option \<times> world) outcome" where
  "logdb_iter_all dbg conn w =
     (if dbg \<and> conn = 0 then Done (None, w)
      else if dbg \<and> \<not> c_alive (w_conn w) then Fault (BadPtr conn)
      else if dbg \<and> c_version (w_conn w) \<noteq> LOGDB_VERSION then Done (None, w)
      else case h_malloc (w_heap w) of (p, h) \<Rightarrow>
        let w = w\<lparr>w_heap := h\<rparr> in
        if p = 0 then Done (None, w)
        else Done (Some \<lparr>it_connection = (conn \<noteq> 0), it_lease = zero_lease,
                         it_record = \<lparr>keylen = 0, valuelen = 0\<rparr>, it_key = 0, it_value = 0\<rparr>, w))"

text \<open>The check that \<open>LOGDB_VERIFY_ITER\<close> puts before each entry point.\<close>

definition verify_iter :: "bool \<Rightarrow> logdb_iter_t \<Rightarrow> world \<Rightarrow> bool outcome" where
  "verify_iter dbg iter w =
     (if \<not> it_connection iter then (if dbg then Done False else Fault (BadPtr 0))
      else if \<not> c_alive (w_conn w) then Fault (BadPtr 1)
      else Done (\<not> (dbg \<and> c_version (w_conn w) \<noteq> LOGDB_VERSION)))"

text \<open>
  The loop that looks for the next entry that is not empty; None when an entry cannot be read. The
  log has no more entries than bytes, which bounds the rounds.
\<close>

fun next_entry :: "nat \<Rightarrow> logdb_log_t \<Rightarrow> 32 word \<Rightarrow> os \<Rightarrow> (32 word option \<times> os) outcome" where
  "next_entry 0 log index s = Fault Diverges"
| "next_entry (Suc n) log index s =
     (case logdb_log_read_entry log index s of (offset, len, s) \<Rightarrow>
      if offset = -1 then Done (None, s)
      else if len \<noteq> 0 then Done (Some index, s)
      else next_entry n log (index + 1) s)"

text \<open>The first part of \<open>logdb_iter_next\<close>: to the next section, or past the current record.\<close>

definition iter_advance :: "bool \<Rightarrow> logdb_iter_t \<Rightarrow> world \<Rightarrow> (bool \<times> logdb_iter_t \<times> world) outcome" where
  "iter_advance dbg iter w =
     (if ls_len (it_lease iter) < of_nat sizeof_data_header then
        obind (if ls_connection (it_lease iter)
               then obind (logdb_lease_release dbg (it_lease iter) (w_conn w) (w_os w)) (\<lambda>(lease, c, s).
                      Done (ls_index (it_lease iter) + 1, iter\<lparr>it_lease := lease\<rparr>, w\<lparr>w_conn := c, w_os := s\<rparr>))
               else Done (0, iter, w)) (\<lambda>(index, iter, w).
        let log = c_log (w_conn w) in
        obind (next_entry (Suc (length (file_of (w_os w) (l_fd log)))) log index (w_os w)) (\<lambda>(found, s).
        let w = w\<lparr>w_os := s\<rparr> in
        case found of
          None \<Rightarrow> Done (False, iter, w)
        | Some index \<Rightarrow>
            (case logdb_lease_acqire_read (it_lease iter) (w_conn w) index 0 (w_os w) of (r, lease, c, s) \<Rightarrow>
               Done (r = 0, iter\<lparr>it_lease := lease\<rparr>, w\<lparr>w_conn := c, w_os := s\<rparr>))))
      else
        (case (if it_key iter = 0 then logdb_lease_seek dbg (it_lease iter) (uint (keylen (it_record iter)))
               else (0, it_lease iter)) of (r, lease) \<Rightarrow>
         if r = -1 then Done (False, iter\<lparr>it_lease := lease\<rparr>, w)
         else case (if it_value iter = 0 then logdb_lease_seek dbg lease (uint (valuelen (it_record iter)))
                    else (0, lease)) of (r, lease) \<Rightarrow>
         Done (r \<noteq> -1, iter\<lparr>it_lease := lease\<rparr>, w)))"

text \<open>The bytes of a record header that could only be read in part stay as they were.\<close>

definition logdb_iter_next :: "bool \<Rightarrow> logdb_iter_t \<Rightarrow> world \<Rightarrow> (int \<times> logdb_iter_t \<times> world) outcome" where
  "logdb_iter_next dbg iter w =
     obind (verify_iter dbg iter w) (\<lambda>ok.
     if \<not> ok then Done (0, iter, w)
     else obind (iter_advance dbg iter w) (\<lambda>(go, iter, w).
     if \<not> go then Done (0, iter, w)
     else obind (logdb_buffer_free (it_key iter) (w_heap w)) (\<lambda>h.
          obind (logdb_buffer_free (it_value iter) h) (\<lambda>h.
          let iter = iter\<lparr>it_key := 0, it_value := 0\<rparr>; w = w\<lparr>w_heap := h\<rparr> in
          obind (logdb_lease_read (it_lease iter) (w_conn w) (of_nat sizeof_data_header) (w_os w))
            (\<lambda>(notread, bytes, lease, s).
            let old = encode_data_header (it_record iter);
                record' = decode_data_header (bytes @ drop (length bytes) old);
                iter = iter\<lparr>it_lease := lease, it_record := record'\<rparr>; w = w\<lparr>w_os := s\<rparr> in
            Done (if notread \<noteq> 0 then 0 else 1, iter, w))))))"

definition logdb_iter_current_key :: "bool \<Rightarrow> logdb_iter_t \<Rightarrow> world \<Rightarrow> (ptr \<times> logdb_iter_t \<times> world) outcome" where
  "logdb_iter_current_key dbg iter w =
     obind (verify_iter dbg iter w) (\<lambda>ok.
     if \<not> ok then Done (0, iter, w)
     else if it_key iter \<noteq> 0 then Done (it_key iter, iter, w)
     else if dbg \<and> \<not> ls_connection (it_lease iter) then Done (0, iter, w)
     else obind (logdb_iter_read_buf dbg iter (keylen (it_record iter)) w) (\<lambda>(p, iter, w).
          Done (p, iter\<lparr>it_key := p\<rparr>, w)))"

definition logdb_iter_current_value :: "bool \<Rightarrow> logdb_iter_t \<Rightarrow> world \<Rightarrow> (ptr \<times> logdb_iter_t \<times> world) outcome" where
  "logdb_iter_current_value dbg iter w =
     obind (verify_iter dbg iter w) (\<lambda>ok.
     if \<not> ok then Done (0, iter, w)
     else if it_value iter \<noteq> 0 then Done (it_value iter, iter, w)
     else if dbg \<and> \<not> ls_connection (it_lease iter) then Done (0, iter, w)
     else obind (if it_key iter = 0
                 then obind (logdb_iter_current_key dbg iter w) (\<lambda>(_, iter, w). Done (iter, w))
                 else Done (iter, w)) (\<lambda>(iter, w).
          obind (logdb_iter_read_buf dbg iter (valuelen (it_record iter)) w) (\<lambda>(p, iter, w).
          Done (p, iter\<lparr>it_value := p\<rparr>, w))))"

definition logdb_iter_free :: "bool \<Rightarrow> logdb_iter_t \<Rightarrow> world \<Rightarrow> world outcome" where
  "logdb_iter_free dbg iter w =
     (if dbg \<and> \<not> it_connection iter then Done w
      else obind (logdb_buffer_free (it_key iter) (w_heap w)) (\<lambda>h.
           obind (logdb_buffer_free (it_value iter) h) (\<lambda>h.
           let w = w\<lparr>w_heap := h\<rparr> in
           if ls_connection (it_lease iter)
           then obind (logdb_lease_release dbg (it_lease iter) (w_conn w) (w_os w)) (\<lambda>(_, c, s).
                  Done (w\<lparr>w_conn := c, w_os := s\<rparr>))
           else Done w)))"

end
