(* ===== verification/Scan.thy ===== *)
theory Scan
  imports Iter
begin

text \<open>
  The verification of the iteration: from outside, the calls \<open>logdb_iter_next\<close>,
  \<open>logdb_iter_current_key\<close> and \<open>logdb_iter_current_value\<close> walk through the list of all records, section
  by section. \<open>scanning\<close> is the invariant between two records, \<open>at_record\<close> the one after
  \<open>logdb_iter_next\<close> has returned 1.
\<close>

section \<open>Reading through a lease\<close>

lemma pread_whole:
  assumes "quiet s" "fds s fd \<noteq> None" "0 \<le> offs" "nat offs + n \<le> length (file_of s fd)" "n \<noteq> 0 \<or> stack_junk s \<noteq> 0"
  shows "\<exists>s'. logdb_io_pread fd n offs s = (0, seg (file_of s fd) (nat offs) n, s') \<and> same_data s s' \<and> quiet s'"
proof (cases "n = 0")
  case True
  with assms(1,5) show ?thesis
    by (intro exI [of _ s]) (simp add: logdb_io_pread_def io_pread_loop.simps [of fd 0])
next
  case False
  obtain f where f: "fds s fd = Some f" using assms(2) by auto
  from logdb_io_pread_quiet [OF assms(1) f assms(3) _ assms(4)] False obtain s' where
    s': "logdb_io_pread fd n offs s = (0, seg (file_of s fd) (nat offs) n, s')" "s' = resched s (sched s')" "quiet s'"
    by blast
  then have "same_data s s'"
    using logdb_io_sched(3) [of fd n offs s] same_data_steps(4) [of "sched s'" s] by simp
  with s' show ?thesis by blast
qed

lemma lease_read_ok:
  assumes "quiet s" "fds s (c_fd c) \<noteq> None" "lease_usable lease" "unat len \<le> unat (ls_len lease)"
    and "lease_pos lease + unat len \<le> length (db_file c s)" "len \<noteq> 0 \<or> stack_junk s \<noteq> 0"
  shows "\<exists>s'. logdb_lease_read lease c len s =
            Done (0, seg (db_file c s) (lease_pos lease) (unat len), advance lease (int (unat len)), s') \<and>
          same_data s s' \<and> quiet s'"
proof -
  let ?off = "logdb_connection_offset (ls_index lease) + ls_offset lease"
  have off: "nat ?off = lease_pos lease" "0 \<le> ?off" using lease_pos_offset [OF assms(3)] by simp_all
  have "unat len \<noteq> 0 \<or> stack_junk s \<noteq> 0" using assms(6) by (simp add: unat_eq_zero)
  with pread_whole [OF assms(1,2) off(2), of "unat len"] assms(5) off(1) obtain s' where
    r: "logdb_io_pread (c_fd c) (unat len) ?off s = (0, seg (db_file c s) (lease_pos lease) (unat len), s')"
      "same_data s s'" "quiet s'"
    by (auto simp: db_file_def)
  have "\<not> len > ls_len lease" using assms(4) by (simp add: word_less_nat_alt)
  moreover have "transferred len 0 = int (unat len)" using transferred_nat [of 0 len] by simp
  moreover have "ls_connection lease" using assms(3) by (simp add: lease_usable_def)
  ultimately show ?thesis using r by (simp add: logdb_lease_read_def)
qed

section \<open>The next entry that is not empty\<close>

lemma next_entry_ok:
  assumes "quiet s" "fds s (l_fd log) \<noteq> None" "file_of s (l_fd log) = F" "log_count F < n + unat i"
    and "log_count F < 65536" "unat i \<le> log_count F"
  shows "\<exists>s'. next_entry n log i s = Done (map_option of_nat (find (\<lambda>j. entry_at F j \<noteq> 0) [unat i..<log_count F]), s') \<and>
              same_data s s' \<and> quiet s'"
  using assms
proof (induction n arbitrary: i s)
  case 0
  then show ?case by simp
next
  case (Suc n)
  obtain off len t where e: "logdb_log_read_entry log i s = (off, len, t)"
    by (cases "logdb_log_read_entry log i s")
  obtain f where f: "fds s (l_fd log) = Some f" using Suc.prems(2) by auto
  note sp = read_entry_spec [OF e f]
  have t: "same_data s t" "quiet t" using read_entry_same [OF e] sp(2) f Suc.prems(1) by auto
  show ?case
  proof (cases "unat i < log_count F")
    case False
    then have "off = -1" using sp(4) Suc.prems(1,3) by auto
    moreover have "[unat i..<log_count F] = []" using False by simp
    ultimately show ?thesis using e t by (intro exI [of _ t]) (simp only: next_entry.simps prod.case if_True find.simps option.map simp_thms if_P refl)

  next
    case True
    then have off: "off \<noteq> -1" and len: "len = entry_at F (unat i)" using sp(3,4) Suc.prems(1,3) by auto
    have upt: "[unat i..<log_count F] = unat i # [Suc (unat i)..<log_count F]" using True by (rule upt_conv_Cons)
    show ?thesis
    proof (cases "len = 0")
      case False
      with e t off len upt show ?thesis by (intro exI [of _ t]) simp
    next
      case zero: True
      have "unat (i + 1) = Suc (unat i)" using True Suc.prems(5) by (simp add: unat_word_ariths unat_32_less)
      moreover have "fds t (l_fd log) \<noteq> None" using frame_fd [of s t] t(1) f by (auto simp: same_data_def)
      ultimately obtain s' where "next_entry n log (i + 1) t =
          Done (map_option of_nat (find (\<lambda>j. entry_at F j \<noteq> 0) [Suc (unat i)..<log_count F]), s')" "same_data t s'" "quiet s'"
        using Suc.IH [of t "i + 1"] t same_data_file [OF t(1)] Suc.prems(3-5) True by auto
      with e off len zero upt t show ?thesis by (auto intro: same_data_trans)
    qed
  qed
qed


lemma acquire_read_ok:
  assumes "quiet s" "fds s (l_fd (c_log c)) \<noteq> None" "unat i < log_count (log_file c s)"
    and "entry_at (log_file c s) (unat i) \<noteq> 0"
  shows "\<exists>s'. logdb_lease_acqire_read lease c i 0 s =
      (0, \<lparr>ls_connection = True, ls_index = i, ls_offset = 0,
           ls_len = of_nat (unat (entry_at (log_file c s) (unat i))), ls_type = LOCK_NONE\<rparr>,
       c\<lparr>c_readers := c_readers c + 1\<rparr>, s') \<and> same_data s s' \<and> quiet s'"
proof -
  let ?len = "entry_at (log_file c s) (unat i)"
  obtain ok t where p: "sys_pthread s = (ok, t)" by fastforce
  note pt = calls_quiet(2) [OF p assms(1)] sys_pthread_same [OF p]
  obtain f where f: "fds t (l_fd (c_log c)) = Some f"
    using frame_fd [of s t] pt(2) assms(2) by (auto simp: same_data_def)
  have "file_of t (l_fd (c_log c)) = log_file c s" using same_data_file [OF pt(2)] by (simp add: log_file_def)
  with read_entry_quiet [of t "c_log c" f i] f pt(1) assms(3) obtain u where
    e: "logdb_log_read_entry (c_log c) i t = (logdb_log_offset i, ?len, u)" and u: "u = resched t (sched u)" "quiet u"
    by auto
  have tu: "same_data t u" using read_entry_same [OF e] f by simp
  define l where "l = entry_at (log_file c s) (unat i)"
  have "l \<noteq> 0" using assms(4) by (simp add: l_def)
  then have pos: "\<not> (0 < (0 :: int) \<or> uint l \<le> 0)" by (simp add: order_le_less unsigned_eq_0_iff)
  have len: "(word_of_int (uint l - 0) :: 32 word) = of_nat (unat l)" by simp
  have off: "logdb_log_offset i \<noteq> -1" using log_offset_ge [of i] by linarith
  have "logdb_lease_acqire_read lease c i 0 s =
      (0, \<lparr>ls_connection = True, ls_index = i, ls_offset = 0, ls_len = of_nat (unat l), ls_type = LOCK_NONE\<rparr>,
       c\<lparr>c_readers := c_readers c + 1\<rparr>, u)"
    unfolding logdb_lease_acqire_read_def logdb_lease_acquire_prelude_def Let_def p
    using pt(1) e pos off len by (simp add: l_def [symmetric])
  then show ?thesis using same_data_trans [OF pt(2) tu] u(2) unfolding l_def by blast
qed

section \<open>The heap of an iterator\<close>

text \<open>The same cells, with later addresses used up.\<close>

definition same_cells :: "heap \<Rightarrow> heap \<Rightarrow> bool" where
  "same_cells h h' \<longleftrightarrow> mem h' = mem h \<and> bufs h' = bufs h \<and> txns h' = txns h \<and> brk h \<le> brk h' \<and> plenty h'"

text \<open>One later buffer, which owns its data.\<close>

definition adds_buf :: "heap \<Rightarrow> ptr \<Rightarrow> byte list \<Rightarrow> heap \<Rightarrow> bool" where
  "adds_buf h p bs h' \<longleftrightarrow>
     (\<exists>d. d \<noteq> 0 \<and> p \<noteq> 0 \<and> mem h d = None \<and> bufs h p = None \<and> mem h' = (mem h)(d := Some bs) \<and>
        bufs h' = (bufs h)(p := Some \<lparr>b_data = d, b_len = of_nat (length bs), b_disposer = Some C_free,
                                      b_orig = 0, b_next = 0, b_refcnt = 1\<rparr>) \<and>
        txns h' = txns h \<and> plenty h' \<and> heap_ok h' \<and> brk h \<le> brk h')"

lemma same_cells_ok: "same_cells h h' \<Longrightarrow> heap_ok h \<Longrightarrow> heap_ok h'"
  by (fastforce simp: same_cells_def heap_ok_def)

lemma read_buf_ok:
  assumes "quiet (w_os w)" "fds (w_os w) (c_fd (w_conn w)) \<noteq> None" "lease_usable (it_lease iter)"
    and "unat len \<le> unat (ls_len (it_lease iter))"
    and "lease_pos (it_lease iter) + unat len \<le> length (db_file (w_conn w) (w_os w))"
    and "len \<noteq> 0 \<or> stack_junk (w_os w) \<noteq> 0" "heap_ok (w_heap w)" "plenty (w_heap w)"
  shows "\<exists>p h s. logdb_iter_read_buf dbg iter len w =
           Done (p, iter\<lparr>it_lease := advance (it_lease iter) (int (unat len))\<rparr>, w\<lparr>w_heap := h, w_os := s\<rparr>) \<and>
         adds_buf (w_heap w) p (seg (db_file (w_conn w) (w_os w)) (lease_pos (it_lease iter)) (unat len)) h \<and>
         same_data (w_os w) s \<and> quiet s"
proof -
  let ?h = "w_heap w" and ?bs = "seg (db_file (w_conn w) (w_os w)) (lease_pos (it_lease iter)) (unat len)"
  let ?d = "Suc (brk ?h)" and ?p = "Suc (Suc (brk ?h))"
  obtain s where r: "logdb_lease_read (it_lease iter) (w_conn w) len (w_os w) =
      Done (0, ?bs, advance (it_lease iter) (int (unat len)), s)" "same_data (w_os w) s" "quiet s"
    using lease_read_ok [OF assms(1-6)] by blast
  let ?h1 = "(h_bump ?h)\<lparr>mem := (mem (h_bump ?h))(?d := Some ?bs)\<rparr>"
  have p1: "plenty ?h1" using plenty_bump [OF assms(8)] by (simp add: plenty_def)
  let ?h2 = "put_buf (h_bump ?h1) ?p \<lparr>b_data = ?d, b_len = len, b_disposer = Some C_free, b_orig = 0, b_next = 0, b_refcnt = 1\<rparr>"
  have nd: "logdb_buffer_new_direct dbg ?d len (Some C_free) ?h1 = (?p, ?h2)"
    using new_direct_plenty [OF p1, of dbg ?d len "Some C_free"] by simp
  have "heap_ok ?h2" using assms(7) by (fastforce simp: heap_ok_def)
  moreover have "mem ?h ?d = None" "bufs ?h ?p = None" using heap_ok_none [OF assms(7)] by auto
  moreover have "(of_nat (length ?bs) :: 32 word) = len" using assms(5) by simp
  moreover have "plenty ?h2" using plenty_bump [OF p1] by simp
  ultimately have "adds_buf ?h ?p ?bs ?h2" unfolding adds_buf_def by (intro exI [of _ ?d]) simp
  moreover have "logdb_iter_read_buf dbg iter len w =
      Done (?p, iter\<lparr>it_lease := advance (it_lease iter) (int (unat len))\<rparr>, w\<lparr>w_heap := ?h2, w_os := s\<rparr>)"
    using h_malloc_plenty [OF assms(8)] r(1) nd by (simp add: logdb_iter_read_buf_def)
  ultimately show ?thesis using r by blast
qed

definition holds :: "heap \<Rightarrow> ptr \<Rightarrow> ptr \<Rightarrow> heap \<Rightarrow> bool" where
  "holds h0 kp vp h \<longleftrightarrow>
     kp = 0 \<and> vp = 0 \<and> same_cells h0 h \<or>
     (\<exists>h1 h2 ks vs. same_cells h0 h1 \<and> adds_buf h1 kp ks h2 \<and> adds_buf h2 vp vs h)"

lemma free_owned:
  assumes "bufs g p = Some \<lparr>b_data = d, b_len = n, b_disposer = Some C_free, b_orig = 0, b_next = 0, b_refcnt = 1\<rparr>"
    and "mem g d \<noteq> None" "p \<noteq> 0" "d \<noteq> 0"
  shows "\<exists>g'. logdb_buffer_free p g = Done g' \<and> mem g' = (mem g)(d := None) \<and> bufs g' = (bufs g)(p := None) \<and>
              txns g' = txns g \<and> brk g' = brk g \<and> oom g' = oom g"
proof -
  let ?b = "\<lparr>b_data = d, b_len = n, b_disposer = Some C_free, b_orig = 0, b_next = 0, b_refcnt = 1\<rparr>"
  let ?g = "put_buf g p (?b\<lparr>b_refcnt := b_refcnt ?b - 1\<rparr>)"
  have "dispose (b_disposer ?b) (b_data ?b) ?g =
      Done (?g\<lparr>mem := (mem g)(d := None), disposed := disposed g @ [(C_free, d)]\<rparr>)"
    using assms(2,4) by (simp add: dispose_def)
  from logdb_buffer_free_single [OF assms(1,3) _ _ _ this] show ?thesis by simp
qed

lemma frees_held:
  assumes "holds h0 kp vp h"
  shows "\<exists>h1 h2. logdb_buffer_free kp h = Done h1 \<and> logdb_buffer_free vp h1 = Done h2 \<and> same_cells h0 h2"
proof (cases "kp = 0 \<and> vp = 0 \<and> same_cells h0 h")
  case False
  then obtain h1 h2 ks vs where h: "same_cells h0 h1" "adds_buf h1 kp ks h2" "adds_buf h2 vp vs h"
    using assms unfolding holds_def by blast
  let ?b = "\<lambda>d n. \<lparr>b_data = d, b_len = n, b_disposer = Some C_free, b_orig = 0, b_next = 0, b_refcnt = 1\<rparr>"
  obtain d where d: "d \<noteq> 0" "kp \<noteq> 0" "mem h1 d = None" "bufs h1 kp = None" "mem h2 = (mem h1)(d := Some ks)"
    "bufs h2 = (bufs h1)(kp := Some (?b d (of_nat (length ks))))" "txns h2 = txns h1" "brk h1 \<le> brk h2"
    using h(2) unfolding adds_buf_def by blast
  obtain e where e: "e \<noteq> 0" "vp \<noteq> 0" "mem h2 e = None" "bufs h2 vp = None" "mem h = (mem h2)(e := Some vs)"
    "bufs h = (bufs h2)(vp := Some (?b e (of_nat (length vs))))" "txns h = txns h2" "brk h2 \<le> brk h" "plenty h"
    using h(3) unfolding adds_buf_def by blast
  have ne: "kp \<noteq> vp" "d \<noteq> e" using d(5,6) e(3,4) by auto
  obtain g where g: "logdb_buffer_free kp h = Done g" "mem g = (mem h)(d := None)" "bufs g = (bufs h)(kp := None)"
    "txns g = txns h" "brk g = brk h" "oom g = oom h"
    using free_owned [of h kp d "of_nat (length ks)"] d e ne by auto
  obtain g' where g': "logdb_buffer_free vp g = Done g'" "mem g' = (mem g)(e := None)" "bufs g' = (bufs g)(vp := None)"
    "txns g' = txns g" "brk g' = brk g" "oom g' = oom g"
    using free_owned [of g vp e "of_nat (length vs)"] e ne g by auto
  have "mem g' = mem h1" using g'(2) g(2) d(3,5) e(3,5) ne by (auto simp: fun_eq_iff)
  moreover have "bufs g' = bufs h1" using g'(3) g(3) d(4,6) e(4,6) ne by (auto simp: fun_eq_iff)
  ultimately have "same_cells h0 g'"
    using h(1) g g' d e by (simp add: same_cells_def plenty_def)
  with g(1) g'(1) show ?thesis by blast
qed (simp add: logdb_buffer_free_null)

section \<open>The records of a section\<close>

type_synonym kv = "byte list \<times> byte list"

definition records_bytes :: "kv list \<Rightarrow> byte list" where
  "records_bytes rs = concat (map (\<lambda>(k, v). record_bytes k v) rs)"

lemma records_bytes_simps [simp]:
  "records_bytes [] = []" "records_bytes ((k, v) # rs) = record_bytes k v @ records_bytes rs"
  by (simp_all add: records_bytes_def)

lemma record_bytes_not_Nil [simp]: "record_bytes k v \<noteq> []"
  using record_length [of k v] by fastforce

lemma records_bytes_Nil [simp]: "records_bytes rs = [] \<longleftrightarrow> rs = []"
  by (cases rs) auto

text \<open>A lease that has the bytes \<open>xs\<close> of section \<open>i\<close> of the database \<open>D\<close> in front of it.\<close>

definition lease_at :: "byte list \<Rightarrow> nat \<Rightarrow> byte list \<Rightarrow> logdb_lease_t \<Rightarrow> bool" where
  "lease_at D i xs l \<longleftrightarrow>
     lease_usable l \<and> unat (ls_index l) = i \<and> ls_type l = LOCK_NONE \<and> unat (ls_len l) = length xs \<and>
     lease_pos l + length xs \<le> length D \<and> seg D (lease_pos l) (length xs) = xs"

lemma lease_at_split:
  assumes "lease_at D i (xs @ ys) l"
  shows "seg D (lease_pos l) (length xs) = xs" "lease_at D i ys (advance l (int (length xs)))"
proof -
  have s: "seg D (lease_pos l) (length xs) @ seg D (lease_pos l + length xs) (length ys) = xs @ ys"
    using assms by (simp add: lease_at_def seg_append_join)
  have "length (seg D (lease_pos l) (length xs)) = length xs" using assms by (auto simp: lease_at_def)
  with s show x: "seg D (lease_pos l) (length xs) = xs" by simp
  have len: "length xs \<le> unat (ls_len l)" using assms by (simp add: lease_at_def)
  then have "unat (ls_len l - of_nat (length xs)) = length ys"
    using unat_word_sub [OF len] assms by (simp add: lease_at_def)
  with x s assms show "lease_at D i ys (advance l (int (length xs)))"
    by (simp add: lease_at_def lease_pos_advance)
qed

lemma lease_at_read:
  assumes "lease_at (db_file c s) i (xs @ ys) l" "quiet s" "fds s (c_fd c) \<noteq> None" "unat len = length xs"
    and "xs \<noteq> [] \<or> stack_junk s \<noteq> 0"
  shows "\<exists>l' s'. logdb_lease_read l c len s = Done (0, xs, l', s') \<and> lease_at (db_file c s) i ys l' \<and>
           same_data s s' \<and> quiet s'"
proof -
  have "len \<noteq> 0 \<or> stack_junk s \<noteq> 0" using assms(4,5) by (auto simp: unat_eq_0)
  with lease_read_ok [OF assms(2,3), of l len] assms(1,4) lease_at_split [OF assms(1)] show ?thesis
    by (auto simp: lease_at_def)
qed

lemma lease_at_read_buf:
  assumes "lease_at (db_file (w_conn w) (w_os w)) i (xs @ ys) (it_lease iter)" "quiet (w_os w)"
    and "fds (w_os w) (c_fd (w_conn w)) \<noteq> None" "unat len = length xs" "xs \<noteq> [] \<or> stack_junk (w_os w) \<noteq> 0"
    and "heap_ok (w_heap w)" "plenty (w_heap w)"
  shows "\<exists>p l h s. logdb_iter_read_buf dbg iter len w = Done (p, iter\<lparr>it_lease := l\<rparr>, w\<lparr>w_heap := h, w_os := s\<rparr>) \<and>
           adds_buf (w_heap w) p xs h \<and> lease_at (db_file (w_conn w) (w_os w)) i ys l \<and> same_data (w_os w) s \<and> quiet s"
proof -
  have "len \<noteq> 0 \<or> stack_junk (w_os w) \<noteq> 0" using assms(4,5) by (auto simp: unat_eq_0)
  moreover have "lease_usable (it_lease iter)" "unat len \<le> unat (ls_len (it_lease iter))"
    "lease_pos (it_lease iter) + unat len \<le> length (db_file (w_conn w) (w_os w))"
    using assms(1,4) by (simp_all add: lease_at_def)
  ultimately show ?thesis
    using read_buf_ok [OF assms(2,3), of iter len dbg] assms(4,6,7) lease_at_split [OF assms(1)] by metis
qed


section \<open>Scanning a database\<close>

text \<open>
  What the iteration needs of a connection: nothing fails, the sections are lists of records, and
  no part that is read is empty, unless the uninitialised variable of \<open>logdb_io_pread\<close> helps.
\<close>

definition scannable :: "kv list list \<Rightarrow> world \<Rightarrow> bool" where
  "scannable R w \<longleftrightarrow>
     conn_ok (w_conn w) (w_os w) \<and> data_present (log_file (w_conn w) (w_os w)) (db_file (w_conn w) (w_os w)) \<and>
     quiet (w_os w) \<and> c_alive (w_conn w) \<and> c_version (w_conn w) = LOGDB_VERSION \<and>
     heap_ok (w_heap w) \<and> plenty (w_heap w) \<and> sections_of w = map records_bytes R \<and>
     (stack_junk (w_os w) \<noteq> 0 \<or> list_all (list_all (\<lambda>(k, v). k \<noteq> [] \<and> v \<noteq> [])) R)"

text \<open>
  Between two records: the lease is in section \<open>j - 1\<close> with the records \<open>rs\<close> in front of it, or
  there is no lease and \<open>j\<close> is 0.
\<close>

definition scanning :: "world \<Rightarrow> nat \<Rightarrow> kv list \<Rightarrow> logdb_iter_t \<Rightarrow> world \<Rightarrow> bool" where
  "scanning w0 j rs it w \<longleftrightarrow>
     it_connection it \<and> holds (w_heap w0) (it_key it) (it_value it) (w_heap w) \<and>
     same_data (w_os w0) (w_os w) \<and> quiet (w_os w) \<and> (rs \<noteq> [] \<longrightarrow> it_key it \<noteq> 0 \<and> it_value it \<noteq> 0) \<and>
     (if ls_connection (it_lease it) then
        w_conn w = (w_conn w0)\<lparr>c_readers := c_readers (w_conn w0) + 1\<rparr> \<and> 0 < j \<and>
        lease_at (db_file (w_conn w0) (w_os w0)) (j - 1) (records_bytes rs) (it_lease it)
      else w_conn w = w_conn w0 \<and> j = 0 \<and> rs = [] \<and> ls_len (it_lease it) = 0)"

text \<open>At a record whose header has been read: its key, its value and the records \<open>rs\<close> are in front.\<close>

definition at_record :: "world \<Rightarrow> nat \<Rightarrow> byte list \<Rightarrow> byte list \<Rightarrow> kv list \<Rightarrow> logdb_iter_t \<Rightarrow> world \<Rightarrow> bool" where
  "at_record w0 j k v rs it w \<longleftrightarrow>
     it_connection it \<and> it_key it = 0 \<and> it_value it = 0 \<and> same_cells (w_heap w0) (w_heap w) \<and>
     same_data (w_os w0) (w_os w) \<and> quiet (w_os w) \<and> 0 < j \<and>
     w_conn w = (w_conn w0)\<lparr>c_readers := c_readers (w_conn w0) + 1\<rparr> \<and>
     it_record it = \<lparr>keylen = of_nat (length k), valuelen = of_nat (length v)\<rparr> \<and>
     lease_at (db_file (w_conn w0) (w_os w0)) (j - 1) (k @ v @ records_bytes rs) (it_lease it)"

lemma file_readers [simp]:
  "log_file (c\<lparr>c_readers := n\<rparr>) s = log_file c s" "db_file (c\<lparr>c_readers := n\<rparr>) s = db_file c s"
  by (simp_all add: log_file_def db_file_def)

lemma files_same: "same_data s s' \<Longrightarrow> log_file c s' = log_file c s \<and> db_file c s' = db_file c s"
  by (simp add: log_file_def db_file_def same_data_file)

lemma same_data_open: "same_data s s' \<Longrightarrow> fds s fd \<noteq> None \<Longrightarrow> fds s' fd \<noteq> None"
  using frame_fd [of s s' fd] by (auto simp: same_data_def)

lemma same_data_junk: "same_data s s' \<Longrightarrow> stack_junk s' = stack_junk s"
  by (simp add: same_data_def frame_def)

lemma conn_ok_open:
  assumes "conn_ok c s"
  shows "fds s (c_fd c) \<noteq> None" "fds s (l_fd (c_log c)) \<noteq> None" "log_count (log_file c s) < 65536"
  using assms conn_okE [OF assms] by (auto simp: conn_ok_def)

lemma scannableD:
  assumes "scannable R w"
  shows "log_count (log_file (w_conn w) (w_os w)) = length R"
    "i < length R \<Longrightarrow> section_of (log_file (w_conn w) (w_os w)) (db_file (w_conn w) (w_os w)) i = records_bytes (R ! i)"
    "i < length R \<Longrightarrow> unat (entry_at (log_file (w_conn w) (w_os w)) i) = length (records_bytes (R ! i))"
    "i < length R \<Longrightarrow> entry_at (log_file (w_conn w) (w_os w)) i = 0 \<longleftrightarrow> R ! i = []"
proof -
  let ?L = "log_file (w_conn w) (w_os w)" and ?D = "db_file (w_conn w) (w_os w)"
  have S: "db_sections ?L ?D = map records_bytes R" using assms by (simp add: scannable_def sections_of_def)
  show n: "log_count ?L = length R" using arg_cong [OF S, of length] by simp
  show s: "section_of ?L ?D i = records_bytes (R ! i)" if "i < length R" for i
    using arg_cong [OF S, of "\<lambda>S. S ! i"] that n by (simp add: nth_db_sections)
  show l: "unat (entry_at ?L i) = length (records_bytes (R ! i))" if "i < length R" for i
  proof -
    have "6 + 65536 * i + unat (entry_at ?L i) \<le> length ?D \<or> entry_at ?L i = 0"
      using assms that n by (intro data_presentD) (auto simp: scannable_def)
    then have "length (section_of ?L ?D i) = unat (entry_at ?L i)" by (auto simp: section_of_def)
    with s [OF that] show ?thesis by simp
  qed
  show "entry_at ?L i = 0 \<longleftrightarrow> R ! i = []" if "i < length R"
    using l [OF that] by (metis length_0_conv records_bytes_Nil unsigned_eq_0_iff)
qed


lemma verify_iter_ok:
  "it_connection it \<Longrightarrow> c_alive (w_conn w) \<Longrightarrow> c_version (w_conn w) = LOGDB_VERSION \<Longrightarrow> verify_iter dbg it w = Done True"
  by (simp add: verify_iter_def)

lemma unat_small: "n < 4294967296 \<Longrightarrow> unat (of_nat n :: 32 word) = n"
  by (simp add: unat_of_nat)

lemma next_reads_header:
  assumes sc: "scannable R w0" and adv: "iter_advance dbg it0 wx = Done (True, it, w)"
    and ver: "verify_iter dbg it0 wx = Done True"
    and it: "it_connection it" "holds (w_heap w0) (it_key it) (it_value it) (w_heap w)"
    and w: "same_data (w_os w0) (w_os w)" "quiet (w_os w)" "0 < j"
      "w_conn w = (w_conn w0)\<lparr>c_readers := c_readers (w_conn w0) + 1\<rparr>"
    and at: "lease_at (db_file (w_conn w0) (w_os w0)) (j - 1) (records_bytes ((k, v) # rs)) (it_lease it)"
  shows "\<exists>it' w'. logdb_iter_next dbg it0 wx = Done (1, it', w') \<and> at_record w0 j k v rs it' w'"
proof -
  let ?hdr = "\<lparr>keylen = of_nat (length k), valuelen = of_nat (length v)\<rparr>"
  obtain h1 h2 where h: "logdb_buffer_free (it_key it) (w_heap w) = Done h1"
    "logdb_buffer_free (it_value it) h1 = Done h2" "same_cells (w_heap w0) h2"
    using frees_held [OF it(2)] by blast
  have open_w0: "fds (w_os w0) (c_fd (w_conn w0)) \<noteq> None" using sc conn_ok_open by (auto simp: scannable_def)
  have fds: "fds (w_os w) (c_fd (w_conn w)) \<noteq> None" using same_data_open [OF w(1) open_w0] w(4) by simp
  have db: "db_file (w_conn w) (w_os w) = db_file (w_conn w0) (w_os w0)" using files_same [OF w(1)] w(4) by simp
  have at': "lease_at (db_file (w_conn w) (w_os w)) (j - 1) (encode_data_header ?hdr @ (k @ v @ records_bytes rs)) (it_lease it)"
    using at db by (simp add: record_bytes_def)
  have "(of_nat sizeof_data_header :: 32 word) = 8" by (simp add: size_defs)
  moreover have "encode_data_header ?hdr \<noteq> []" by (metis length_encode_data_header length_0_conv zero_neq_numeral)
  ultimately have "(of_nat sizeof_data_header :: 32 word) = 8" "encode_data_header ?hdr \<noteq> []" .
  with lease_at_read [OF at' w(2) fds, of 8] obtain l s where
    r: "logdb_lease_read (it_lease it) (w_conn w) (of_nat sizeof_data_header) (w_os w) = Done (0, encode_data_header ?hdr, l, s)"
      "lease_at (db_file (w_conn w) (w_os w)) (j - 1) (k @ v @ records_bytes rs) l" "same_data (w_os w) s" "quiet s"
    by auto
  have "drop 8 (encode_data_header x) = []" for x by simp
  then have "logdb_iter_next dbg it0 wx = Done (1, it\<lparr>it_key := 0, it_value := 0, it_lease := l, it_record := ?hdr\<rparr>,
      w\<lparr>w_heap := h2, w_os := s\<rparr>)"
    using adv ver h r(1) by (simp add: logdb_iter_next_def Let_def)
  moreover have "at_record w0 j k v rs (it\<lparr>it_key := 0, it_value := 0, it_lease := l, it_record := ?hdr\<rparr>) (w\<lparr>w_heap := h2, w_os := s\<rparr>)"
    using it(1) h(3) w r db same_data_trans [OF w(1) r(3)] by (simp add: at_record_def)
  ultimately show ?thesis by blast
qed

lemma next_in_section:
  assumes sc: "scannable R w0" and st: "scanning w0 j ((k, v) # rs) it w"
  shows "\<exists>it' w'. logdb_iter_next dbg it w = Done (1, it', w') \<and> at_record w0 j k v rs it' w'"
proof -
  have con: "ls_connection (it_lease it)" using st by (auto simp: scanning_def split: if_splits)
  then have w: "w_conn w = (w_conn w0)\<lparr>c_readers := c_readers (w_conn w0) + 1\<rparr>" "0 < j"
    and at: "lease_at (db_file (w_conn w0) (w_os w0)) (j - 1) (records_bytes ((k, v) # rs)) (it_lease it)"
    and it: "it_connection it" "holds (w_heap w0) (it_key it) (it_value it) (w_heap w)" "it_key it \<noteq> 0" "it_value it \<noteq> 0"
      "same_data (w_os w0) (w_os w)" "quiet (w_os w)"
    using st by (simp_all add: scanning_def)
  have "8 \<le> unat (ls_len (it_lease it))" using at by (simp add: lease_at_def record_length)
  then have "\<not> ls_len (it_lease it) < of_nat sizeof_data_header" by (simp add: size_defs word_less_nat_alt)
  then have "iter_advance dbg it w = Done (True, it, w)" using it by (simp add: iter_advance_def)
  moreover have "verify_iter dbg it w = Done True" using it w sc by (intro verify_iter_ok) (simp_all add: scannable_def)
  ultimately show ?thesis using next_reads_header [OF sc _ _ it(1,2,5,6) w(2,1) at] by blast
qed


lemma find_nonempty:
  assumes "j \<le> length R"
  shows "case find (\<lambda>i. R ! i \<noteq> []) [j..<length R] of
           None \<Rightarrow> concat (drop j R) = []
         | Some i \<Rightarrow> j \<le> i \<and> i < length R \<and> R ! i \<noteq> [] \<and> concat (drop j R) = R ! i @ concat (drop (Suc i) R)"
  using assms
proof (induction rule: inc_induct)
  case (step j)
  have "[j..<length R] = j # [Suc j..<length R]" using step.hyps by (simp add: upt_conv_Cons)
  moreover have "drop j R = R ! j # drop (Suc j) R" using step.hyps by (simp add: Cons_nth_drop_Suc)
  ultimately show ?case using step.IH step.hyps by (auto split: option.splits)
qed simp

lemma release_read_lease:
  assumes st: "scanning w0 j [] it w" and j: "j < 65537"
  shows "\<exists>idx l. (if ls_connection (it_lease it)
               then obind (logdb_lease_release dbg (it_lease it) (w_conn w) (w_os w)) (\<lambda>(lease, c, s).
                      Done (ls_index (it_lease it) + 1, it\<lparr>it_lease := lease\<rparr>, w\<lparr>w_conn := c, w_os := s\<rparr>))
               else Done (0, it, w)) = Done (idx, it\<lparr>it_lease := l\<rparr>, w\<lparr>w_conn := w_conn w0\<rparr>) \<and>
           unat idx = j \<and> \<not> ls_connection l \<and> ls_len l = 0"
proof (cases "ls_connection (it_lease it)")
  case False
  then have "w\<lparr>w_conn := w_conn w0\<rparr> = w" "j = 0" "ls_len (it_lease it) = 0" using st by (auto simp: scanning_def)
  with False show ?thesis by (intro exI [of _ 0] exI [of _ "it_lease it"]) simp
next
  case True
  let ?l = "it_lease it"
  have c: "w_conn w = (w_conn w0)\<lparr>c_readers := c_readers (w_conn w0) + 1\<rparr>" "0 < j"
    and at: "lease_at (db_file (w_conn w0) (w_os w0)) (j - 1) [] ?l"
    using st True by (simp_all add: scanning_def)
  have "rwlock_unlock (w_conn w) = w_conn w0" using c(1) by (simp add: rwlock_unlock_def)
  moreover have "unat (ls_index ?l + 1) = j" using at c(2) j by (simp add: lease_at_def unat_word_ariths)
  moreover have "ls_len ?l = 0" "ls_type ?l = LOCK_NONE" using at by (simp_all add: lease_at_def unat_eq_0)
  ultimately show ?thesis using True
    by (intro exI [of _ "ls_index ?l + 1"] exI [of _ "?l\<lparr>ls_connection := False\<rparr>"]) (simp add: logdb_lease_release_def)
qed

text \<open>At the end of a section: on to the next one that is not empty, or to the end.\<close>

text \<open>The read lease of a section that holds records.\<close>

lemma acquire_section:
  assumes sc: "scannable R w0" and i: "i < length R" "R ! i \<noteq> []" and s: "same_data (w_os w0) s" "quiet s"
  shows "\<exists>l' s'. logdb_lease_acqire_read l (w_conn w0) (of_nat i) 0 s =
      (0, l', (w_conn w0)\<lparr>c_readers := c_readers (w_conn w0) + 1\<rparr>, s') \<and> ls_connection l' \<and>
      lease_at (db_file (w_conn w0) (w_os w0)) i (records_bytes (R ! i)) l' \<and> same_data s s' \<and> quiet s'"
proof -
  let ?L = "log_file (w_conn w0) (w_os w0)" and ?D = "db_file (w_conn w0) (w_os w0)" and ?xs = "records_bytes (R ! i)"
  have n: "length R < 65536" and open_log: "fds (w_os w0) (l_fd (c_log (w_conn w0))) \<noteq> None"
    using sc scannableD(1) [OF sc] conn_ok_open [of "w_conn w0" "w_os w0"] by (auto simp: scannable_def)
  have ui: "unat (of_nat i :: 32 word) = i" using i(1) n by (intro unat_small) simp
  have L: "log_file (w_conn w0) s = ?L" using files_same [OF s(1)] by simp
  have e: "entry_at ?L i \<noteq> 0" "unat (entry_at ?L i) = length ?xs"
    using scannableD(3,4) [OF sc i(1)] i(2) by auto
  let ?l = "\<lparr>ls_connection = True, ls_index = of_nat i, ls_offset = 0, ls_len = of_nat (length ?xs), ls_type = LOCK_NONE\<rparr>"
  from acquire_read_ok [OF s(2) same_data_open [OF s(1) open_log], of "of_nat i" l] ui L e scannableD(1) [OF sc] i(1) obtain s' where
    aq: "logdb_lease_acqire_read l (w_conn w0) (of_nat i) 0 s =
      (0, ?l, (w_conn w0)\<lparr>c_readers := c_readers (w_conn w0) + 1\<rparr>, s')" "same_data s s'" "quiet s'"
    by auto
  have "length ?xs < 65536" using e(2) unat_16_less [of "entry_at ?L i"] by simp
  then have len_l: "unat (of_nat (length ?xs) :: 32 word) = length ?xs" by (intro unat_small) simp
  have sec: "seg ?D (6 + 65536 * i) (length ?xs) = ?xs"
    using scannableD(2) [OF sc i(1)] e(2) by (simp add: section_of_def)
  have "0 < length ?xs" using i(2) by simp
  then have "6 + 65536 * i + length ?xs \<le> length ?D"
    using arg_cong [OF sec, of length] unfolding length_seg by linarith
  with sec len_l ui i(1) n have "lease_at ?D i ?xs ?l"
    by (simp add: lease_at_def lease_usable_def lease_pos_def)
  then show ?thesis using aq by (intro exI [of _ ?l] exI [of _ s']) simp
qed

lemma advance_to_next:
  assumes sc: "scannable R w0" and st: "scanning w0 j [] it w" and j: "j \<le> length R"
  shows "case find (\<lambda>i. R ! i \<noteq> []) [j..<length R] of
     None \<Rightarrow> (\<exists>l s. iter_advance dbg it w = Done (False, it\<lparr>it_lease := l\<rparr>, w\<lparr>w_conn := w_conn w0, w_os := s\<rparr>) \<and>
                \<not> ls_connection l \<and> ls_len l = 0 \<and> same_data (w_os w) s \<and> quiet s)
   | Some i \<Rightarrow> (\<exists>l s. iter_advance dbg it w =
                Done (True, it\<lparr>it_lease := l\<rparr>, w\<lparr>w_conn := (w_conn w0)\<lparr>c_readers := c_readers (w_conn w0) + 1\<rparr>, w_os := s\<rparr>) \<and>
                ls_connection l \<and> lease_at (db_file (w_conn w0) (w_os w0)) i (records_bytes (R ! i)) l \<and>
                same_data (w_os w) s \<and> quiet s)"
proof -
  let ?L = "log_file (w_conn w0) (w_os w0)" and ?log = "c_log (w_conn w0)"
  have n: "length R < 65536" and open_log: "fds (w_os w0) (l_fd ?log) \<noteq> None"
    using sc scannableD(1) [OF sc] conn_ok_open [of "w_conn w0" "w_os w0"] by (auto simp: scannable_def)
  have w: "same_data (w_os w0) (w_os w)" "quiet (w_os w)" using st by (simp_all add: scanning_def)
  obtain idx l where rel: "(if ls_connection (it_lease it)
               then obind (logdb_lease_release dbg (it_lease it) (w_conn w) (w_os w)) (\<lambda>(lease, c, s).
                      Done (ls_index (it_lease it) + 1, it\<lparr>it_lease := lease\<rparr>, w\<lparr>w_conn := c, w_os := s\<rparr>))
               else Done (0, it, w)) = Done (idx, it\<lparr>it_lease := l\<rparr>, w\<lparr>w_conn := w_conn w0\<rparr>)"
      "unat idx = j" "\<not> ls_connection l" "ls_len l = 0"
    using release_read_lease [OF st, of dbg] j n by auto
  have len0: "ls_len (it_lease it) = 0"
    using st by (auto simp: scanning_def lease_at_def unat_eq_0 split: if_splits)
  then have len: "ls_len (it_lease it) < of_nat sizeof_data_header" by (simp add: size_defs)
  have F: "file_of (w_os w) (l_fd ?log) = ?L" using same_data_file [OF w(1)] by (simp add: log_file_def)
  have "log_count ?L \<le> length ?L"
    unfolding log_count_def by (rule order_trans [OF div_le_dividend diff_le_self])
  then have "log_count ?L < Suc (length ?L) + unat idx" by simp
  from next_entry_ok [OF w(2) same_data_open [OF w(1) open_log] F this] scannableD(1) [OF sc] n rel(2) j obtain s where
    ne: "next_entry (Suc (length ?L)) ?log idx (w_os w) =
          Done (map_option of_nat (find (\<lambda>i. entry_at ?L i \<noteq> 0) [j..<length R]), s)"
      "same_data (w_os w) s" "quiet s"
    by auto
  have "find (\<lambda>i. entry_at ?L i \<noteq> 0) [j..<length R] = find (\<lambda>i. R ! i \<noteq> []) [j..<length R]"
    using scannableD(4) [OF sc] by (intro find_cong) auto
  note ne = ne [unfolded this]
  show ?thesis
  proof (cases "find (\<lambda>i. R ! i \<noteq> []) [j..<length R]")
    case None
    have "iter_advance dbg it w = Done (False, it\<lparr>it_lease := l\<rparr>, w\<lparr>w_conn := w_conn w0, w_os := s\<rparr>)"
      unfolding iter_advance_def rel(1) if_P [OF len] using ne(1) F None by (simp add: Let_def del: next_entry.simps)
    with None ne rel(3,4) show ?thesis by auto
  next
    case (Some i)
    with find_nonempty [OF j] have i: "j \<le> i" "i < length R" "R ! i \<noteq> []" by simp_all
    from acquire_section [OF sc i(2,3) same_data_trans [OF w(1) ne(2)] ne(3), of l] obtain l' s' where
      aq: "logdb_lease_acqire_read l (w_conn w0) (of_nat i) 0 s =
        (0, l', (w_conn w0)\<lparr>c_readers := c_readers (w_conn w0) + 1\<rparr>, s')" "ls_connection l'"
      "lease_at (db_file (w_conn w0) (w_os w0)) i (records_bytes (R ! i)) l'" "same_data s s'" "quiet s'"
      by blast
    have "iter_advance dbg it w =
        Done (True, it\<lparr>it_lease := l'\<rparr>, w\<lparr>w_conn := (w_conn w0)\<lparr>c_readers := c_readers (w_conn w0) + 1\<rparr>, w_os := s'\<rparr>)"
      unfolding iter_advance_def rel(1) if_P [OF len] using ne(1) F Some aq(1) by (simp add: Let_def del: next_entry.simps)
    then show ?thesis
      unfolding Some option.case using aq(2,3,5) same_data_trans [OF ne(2) aq(4)]
      by (intro exI [of _ l'] exI [of _ s']) simp
  qed
qed


text \<open>One call of \<open>logdb_iter_next\<close>, as it looks from outside.\<close>

lemma next_in_later_section:
  assumes sc: "scannable R w0" and st: "scanning w0 j [] it w" and j: "j \<le> length R"
    and i: "find (\<lambda>i. R ! i \<noteq> []) [j..<length R] = Some i" "R ! i = (k, v) # rs"
  shows "\<exists>it' w'. logdb_iter_next dbg it w = Done (1, it', w') \<and> at_record w0 (Suc i) k v rs it' w'"
proof -
  from advance_to_next [OF sc st j, of dbg] i(1) obtain l s where
    adv: "iter_advance dbg it w =
        Done (True, it\<lparr>it_lease := l\<rparr>, w\<lparr>w_conn := (w_conn w0)\<lparr>c_readers := c_readers (w_conn w0) + 1\<rparr>, w_os := s\<rparr>)"
      "lease_at (db_file (w_conn w0) (w_os w0)) i (records_bytes (R ! i)) l" "same_data (w_os w) s" "quiet s"
    by auto
  have it: "it_connection it" "holds (w_heap w0) (it_key it) (it_value it) (w_heap w)" "same_data (w_os w0) (w_os w)"
    using st by (simp_all add: scanning_def)
  have "c_alive (w_conn w) \<and> c_version (w_conn w) = LOGDB_VERSION"
    using st sc by (auto simp: scanning_def scannable_def split: if_splits)
  then have "verify_iter dbg it w = Done True" using it(1) by (simp add: verify_iter_ok)
  with next_reads_header [OF sc adv(1), of "Suc i" k v rs] it adv(2-4) i(2) same_data_trans [OF it(3) adv(3)]
  show ?thesis by simp
qed

lemma next_record:
  assumes sc: "scannable R w0" and st: "scanning w0 j rs it w" and j: "j \<le> length R"
    and todo: "rs @ concat (drop j R) = (k, v) # later"
  shows "\<exists>it' w' j' rs'. logdb_iter_next dbg it w = Done (1, it', w') \<and> at_record w0 j' k v rs' it' w' \<and>
           j' \<le> length R \<and> rs' @ concat (drop j' R) = later"
proof (cases rs)
  case (Cons x rs')
  then have "x = (k, v)" "rs' @ concat (drop j R) = later" using todo by simp_all
  with next_in_section [OF sc, of j k v rs' it w dbg] st j Cons show ?thesis by blast
next
  case Nil
  with find_nonempty [OF j] todo obtain i where
    i: "find (\<lambda>i. R ! i \<noteq> []) [j..<length R] = Some i" "i < length R" "R ! i \<noteq> []"
      "concat (drop j R) = R ! i @ concat (drop (Suc i) R)"
    by (auto split: option.splits)
  then obtain rs' where rs': "R ! i = (k, v) # rs'" "rs' @ concat (drop (Suc i) R) = later"
    using todo Nil by (cases "R ! i") auto
  with next_in_later_section [OF sc st [unfolded Nil] j i(1) rs'(1), of dbg] i(2) show ?thesis by (metis Suc_leI)
qed

text \<open>After the last record the call returns 0; the lease has been given back.\<close>

lemma next_at_end:
  assumes sc: "scannable R w0" and st: "scanning w0 j rs it w" and j: "j \<le> length R"
    and todo: "rs @ concat (drop j R) = []"
  shows "\<exists>l s. logdb_iter_next dbg it w = Done (0, it\<lparr>it_lease := l\<rparr>, w\<lparr>w_conn := w_conn w0, w_os := s\<rparr>) \<and>
           \<not> ls_connection l \<and> ls_len l = 0 \<and> same_data (w_os w0) s \<and> quiet s"
proof -
  have rs: "rs = []" and rest: "concat (drop j R) = []" using todo append_is_Nil_conv by blast+
  have "find (\<lambda>i. R ! i \<noteq> []) [j..<length R] = None"
    using find_nonempty [OF j, unfolded rest] by (cases "find (\<lambda>i. R ! i \<noteq> []) [j..<length R]") auto
  with advance_to_next [OF sc st [unfolded rs] j, of dbg] obtain l s where
    adv: "iter_advance dbg it w = Done (False, it\<lparr>it_lease := l\<rparr>, w\<lparr>w_conn := w_conn w0, w_os := s\<rparr>)"
      "\<not> ls_connection l" "ls_len l = 0" "same_data (w_os w) s" "quiet s"
    by auto
  have "c_alive (w_conn w) \<and> c_version (w_conn w) = LOGDB_VERSION" "it_connection it" "same_data (w_os w0) (w_os w)"
    using st sc by (auto simp: scanning_def scannable_def split: if_splits)
  then have "logdb_iter_next dbg it w = Done (0, it\<lparr>it_lease := l\<rparr>, w\<lparr>w_conn := w_conn w0, w_os := s\<rparr>)"
    and "same_data (w_os w0) s"
    using adv same_data_trans by (simp_all add: logdb_iter_next_def verify_iter_ok)
  with adv(2,3,5) show ?thesis by blast
qed

text \<open>Key and value of the record, each in a buffer of its own.\<close>

lemma key_and_value:
  assumes sc: "scannable R w0" and at: "at_record w0 j k v rs it w"
    and j: "j \<le> length R" and kv: "(k, v) \<in> set (concat R)"
  shows "\<exists>p q it1 w1 it2 w2 h1. logdb_iter_current_key dbg it w = Done (p, it1, w1) \<and>
           logdb_iter_current_value dbg it1 w1 = Done (q, it2, w2) \<and> scanning w0 j rs it2 w2 \<and>
           same_cells (w_heap w0) h1 \<and> adds_buf h1 p k (w_heap w1) \<and> adds_buf (w_heap w1) q v (w_heap w2)"
proof -
  let ?D = "db_file (w_conn w0) (w_os w0)" and ?l = "it_lease it"
  have it: "it_connection it" "it_key it = 0" "it_value it = 0" "same_cells (w_heap w0) (w_heap w)" "0 < j"
    and os: "same_data (w_os w0) (w_os w)" "quiet (w_os w)"
    and c: "w_conn w = (w_conn w0)\<lparr>c_readers := c_readers (w_conn w0) + 1\<rparr>"
    and r: "it_record it = \<lparr>keylen = of_nat (length k), valuelen = of_nat (length v)\<rparr>"
    and la: "lease_at ?D (j - 1) (k @ v @ records_bytes rs) ?l"
    using at by (simp_all add: at_record_def)
  have con: "ls_connection ?l" using la by (simp add: lease_at_def lease_usable_def)
  have "length (k @ v @ records_bytes rs) < 4294967296" using la unat_32_less [of "ls_len ?l"] by (simp add: lease_at_def)
  then have len: "unat (of_nat (length k) :: 32 word) = length k" "unat (of_nat (length v) :: 32 word) = length v"
    by (simp_all add: unat_small)
  have ne: "k \<noteq> [] \<and> v \<noteq> [] \<or> stack_junk (w_os w0) \<noteq> 0" using sc kv by (fastforce simp: scannable_def list_all_iff)
  have open_db: "fds (w_os w0) (c_fd (w_conn w0)) \<noteq> None" using sc conn_ok_open by (auto simp: scannable_def)
  have h0: "heap_ok (w_heap w0)" using sc by (simp add: scannable_def)
  have alive: "c_alive (w_conn w0)" "c_version (w_conn w0) = LOGDB_VERSION" using sc by (simp_all add: scannable_def)
  have db: "db_file (w_conn w) (w_os w) = ?D" using files_same [OF os(1)] c by simp
  have ne1: "k \<noteq> [] \<or> stack_junk (w_os w) \<noteq> 0" using ne same_data_junk [OF os(1)] by auto
  have fd: "fds (w_os w) (c_fd (w_conn w)) \<noteq> None" using same_data_open [OF os(1) open_db] c by simp
  have hw: "heap_ok (w_heap w)" "plenty (w_heap w)" using same_cells_ok [OF it(4) h0] it(4) by (simp_all add: same_cells_def)
  from lease_at_read_buf [OF la [folded db] os(2) fd len(1) ne1 hw, of dbg] obtain p l1 h1 s1 where
    rk: "logdb_iter_read_buf dbg it (of_nat (length k)) w = Done (p, it\<lparr>it_lease := l1\<rparr>, w\<lparr>w_heap := h1, w_os := s1\<rparr>)"
      "adds_buf (w_heap w) p k h1" "lease_at ?D (j - 1) (v @ records_bytes rs) l1" "same_data (w_os w) s1" "quiet s1"
    unfolding db by blast
  let ?it1 = "it\<lparr>it_lease := l1, it_key := p\<rparr>" and ?w1 = "w\<lparr>w_heap := h1, w_os := s1\<rparr>"
  have p: "p \<noteq> 0" "heap_ok h1" "plenty h1" using rk(2) by (auto simp: adds_buf_def)
  have key: "logdb_iter_current_key dbg it w = Done (p, ?it1, ?w1)"
    using it con rk(1) r c alive by (simp add: logdb_iter_current_key_def verify_iter_ok)
  have s1: "same_data (w_os w0) s1" by (rule same_data_trans [OF os(1) rk(4)])
  have con1: "ls_connection l1" using rk(3) by (simp add: lease_at_def lease_usable_def)
  have db1: "db_file (w_conn ?w1) (w_os ?w1) = ?D" using files_same [OF s1] c by simp
  have "lease_at (db_file (w_conn ?w1) (w_os ?w1)) (j - 1) (v @ records_bytes rs) (it_lease ?it1)"
    "quiet (w_os ?w1)" "fds (w_os ?w1) (c_fd (w_conn ?w1)) \<noteq> None" "v \<noteq> [] \<or> stack_junk (w_os ?w1) \<noteq> 0"
    "heap_ok (w_heap ?w1)" "plenty (w_heap ?w1)"
    using rk(3,5) db1 same_data_open [OF s1 open_db] c ne same_data_junk [OF s1] p by auto
  from lease_at_read_buf [OF this(1-3) len(2) this(4-6), of dbg] obtain q l2 h2 s2 where
    rv: "logdb_iter_read_buf dbg ?it1 (of_nat (length v)) ?w1 = Done (q, ?it1\<lparr>it_lease := l2\<rparr>, ?w1\<lparr>w_heap := h2, w_os := s2\<rparr>)"
      "adds_buf h1 q v h2" "lease_at ?D (j - 1) (records_bytes rs) l2" "same_data s1 s2" "quiet s2"
    unfolding db1 by auto
  let ?it2 = "it\<lparr>it_lease := l2, it_key := p, it_value := q\<rparr>" and ?w2 = "w\<lparr>w_heap := h2, w_os := s2\<rparr>"
  have q: "q \<noteq> 0" using rv(2) by (auto simp: adds_buf_def)
  have val: "logdb_iter_current_value dbg ?it1 ?w1 = Done (q, ?it2, ?w2)"
    using it con1 p rv(1) r c alive by (simp add: logdb_iter_current_value_def verify_iter_ok)
  have con2: "ls_connection l2" using rv(3) by (simp add: lease_at_def lease_usable_def)
  have "holds (w_heap w0) p q h2" unfolding holds_def using it(4) rk(2) rv(2) by blast
  then have "scanning w0 j rs ?it2 ?w2"
    using it(1,5) same_data_trans [OF s1 rv(4)] rv(3,5) p q c con2 by (simp add: scanning_def)
  with key val it(4) rk(2) rv(2) show ?thesis by fastforce
qed

text \<open>The three calls with which a client visits the next record.\<close>

lemma visit_record:
  assumes "scannable R w0" "scanning w0 j rs it w" "j \<le> length R" "rs @ concat (drop j R) = (k, v) # later" "(k, v) \<in> set (concat R)"
  shows "\<exists>it1 w1 p q it2 w2 it3 w3 h1 j' rs'. logdb_iter_next dbg it w = Done (1, it1, w1) \<and>
     logdb_iter_current_key dbg it1 w1 = Done (p, it2, w2) \<and> logdb_iter_current_value dbg it2 w2 = Done (q, it3, w3) \<and>
     scanning w0 j' rs' it3 w3 \<and> j' \<le> length R \<and> rs' @ concat (drop j' R) = later \<and>
     adds_buf h1 p k (w_heap w2) \<and> adds_buf (w_heap w2) q v (w_heap w3)"
proof -
  from next_record [OF assms(1-4), of dbg] obtain it1 w1 j' rs' where
    nx: "logdb_iter_next dbg it w = Done (1, it1, w1)" "at_record w0 j' k v rs' it1 w1" "j' \<le> length R"
      "rs' @ concat (drop j' R) = later"
    by blast
  from key_and_value [OF assms(1) nx(2,3) assms(5), of dbg] nx(1,3,4) show ?thesis by blast
qed

text \<open>The start of an iteration.\<close>

lemma iter_all_starts:
  assumes "scannable R w" "conn \<noteq> 0"
  shows "\<exists>it w1. logdb_iter_all dbg conn w = Done (Some it, w1) \<and> scannable R w1 \<and> scanning w1 0 [] it w1 \<and>
           w_conn w1 = w_conn w \<and> w_os w1 = w_os w \<and> w_heap w1 = h_bump (w_heap w) \<and> same_cells (w_heap w) (w_heap w1)"
proof -
  let ?w = "w\<lparr>w_heap := h_bump (w_heap w)\<rparr>"
  let ?it = "\<lparr>it_connection = True, it_lease = zero_lease, it_record = \<lparr>keylen = 0, valuelen = 0\<rparr>, it_key = 0, it_value = 0\<rparr>"
  have h: "heap_ok (w_heap w)" "plenty (w_heap w)" "c_alive (w_conn w)" "c_version (w_conn w) = LOGDB_VERSION"
    using assms(1) by (simp_all add: scannable_def)
  have "logdb_iter_all dbg conn w = Done (Some ?it, ?w)"
    using h assms(2) by (simp add: logdb_iter_all_def h_malloc_plenty)
  moreover have "same_cells (w_heap w) (h_bump (w_heap w))" using h(2) by (simp add: same_cells_def)
  moreover have "scannable R ?w" using assms(1) by (simp add: scannable_def sections_of_def)
  moreover have "scanning ?w 0 [] ?it ?w"
    using assms(1) by (simp add: scanning_def holds_def same_cells_def scannable_def zero_lease_def)
  ultimately show ?thesis by (intro exI [of _ ?it] exI [of _ ?w]) simp
qed

end
