(* ===== verification/Client.thy ===== *)
theory Client
  imports Scan
begin

text \<open>
  What a client of the library sees: the state between two calls, the buffers it owns, and a put as a
  change of the multiset of records.
\<close>

section \<open>A client between two calls\<close>

text \<open>Nothing is held, no transaction is open in the thread, nothing fails, no other process.\<close>

definition client_ok :: "nat \<Rightarrow> world \<Rightarrow> bool" where
  "client_ok tid w \<longleftrightarrow>
     ready w \<and> calm (w_os w) \<and> other_locks (w_os w) = [] \<and> heap_ok (w_heap w) \<and> plenty (w_heap w) \<and>
     c_alive (w_conn w) \<and> c_version (w_conn w) = LOGDB_VERSION \<and> logdb_txn_current tid w = 0"

text \<open>What a put leaves alone besides the contents: names, descriptors, headers, and the connection up to its locks.\<close>

definition stays :: "world \<Rightarrow> world \<Rightarrow> bool" where
  "stays w w' \<longleftrightarrow>
     frame (w_os w) (w_os w') \<and> same_headers (w_conn w) (w_os w) (w_os w') \<and>
     (\<exists>bs. w_conn w' = (w_conn w)\<lparr>c_log := (c_log (w_conn w))\<lparr>l_lock := bs\<rparr>\<rparr>)"

lemma conn_locks_triv: "(c :: logdb_connection_t)\<lparr>c_log := (c_log c)\<lparr>l_lock := l_lock (c_log c)\<rparr>\<rparr> = c"
  by simp

lemma stays_refl [simp]: "stays w (w\<lparr>w_heap := h\<rparr>)" "stays w w"
  unfolding stays_def same_headers_def by (auto intro!: exI [of _ "l_lock (c_log (w_conn w))"])

lemma stays_heap [simp]: "stays (w\<lparr>w_heap := h\<rparr>) w' = stays w w'" "stays w (w'\<lparr>w_heap := h\<rparr>) = stays w w'"
  by (simp_all add: stays_def)

lemma stays_trans [trans]:
  assumes "stays u v" "stays v w"
  shows "stays u w"
proof -
  obtain bs bs' where c: "w_conn v = (w_conn u)\<lparr>c_log := (c_log (w_conn u))\<lparr>l_lock := bs\<rparr>\<rparr>"
    "w_conn w = (w_conn v)\<lparr>c_log := (c_log (w_conn v))\<lparr>l_lock := bs'\<rparr>\<rparr>"
    using assms by (auto simp: stays_def)
  have h: "same_headers (w_conn u) (w_os u) (w_os v)" "same_headers (w_conn v) (w_os v) (w_os w)"
    "frame (w_os u) (w_os w)"
    using assms frame_trans by (auto simp: stays_def)
  have "6 \<le> length (db_file (w_conn u) (w_os v))" if "6 \<le> length (db_file (w_conn u) (w_os u))"
    using h(1) that take_eq_length [of 6 "db_file (w_conn u) (w_os v)"] by (simp add: same_headers_def)
  then have "same_headers (w_conn u) (w_os u) (w_os w)"
    using h(1,2) unfolding c(1) by (auto simp: same_headers_def)
  with h(3) c show ?thesis by (auto simp: stays_def)
qed

section \<open>Steps that change no file\<close>

lemma quiet_step:
  assumes "same_data (w_os w) s"
  shows "stays w (w\<lparr>w_heap := h, w_os := s\<rparr>)" "sections_of (w\<lparr>w_heap := h, w_os := s\<rparr>) = sections_of w"
    "client_ok tid w \<Longrightarrow> heap_ok h \<Longrightarrow> plenty h \<Longrightarrow> client_ok tid (w\<lparr>w_heap := h, w_os := s\<rparr>)"
proof -
  let ?c = "w_conn w" let ?w = "w\<lparr>w_heap := h, w_os := s\<rparr>"
  have fr: "frame (w_os w) s" using assms by (simp add: same_data_def)
  show "stays w ?w"
    using fr files_same [OF assms] by (auto simp: stays_def same_headers_def intro!: exI [of _ "l_lock (c_log ?c)"])
  show "sections_of ?w = sections_of w" using files_same [OF assms] by (simp add: sections_of_def)
  assume c: "client_ok tid w" and h: "heap_ok h" "plenty h"
  have ok: "conn_ok ?c (w_os w)" "blocks_sorted (l_lock (c_log ?c))" using c by (simp_all add: client_ok_def ready_def conn_ok_def)
  have "conn_ok (?c\<lparr>c_readers := c_readers ?c, c_log := (c_log ?c)\<lparr>l_lock := l_lock (c_log ?c)\<rparr>\<rparr>) s"
    by (rule conn_ok_frame [OF ok(1) fr _ _ _ ok(2)]) (use ok(1) files_same [OF assms] in \<open>simp_all add: conn_ok_def\<close>)
  then have "conn_ok ?c s" by simp
  with c h frame_calm [OF fr] fr files_same [OF assms] show "client_ok tid ?w"
    by (simp add: client_ok_def ready_def logdb_txn_current_def frame_def)
qed

section \<open>A put\<close>

text \<open>A live buffer with these contents.\<close>

definition buffer_has :: "heap \<Rightarrow> ptr \<Rightarrow> byte list \<Rightarrow> bool" where
  "buffer_has h p xs \<longleftrightarrow> (\<exists>b n. bufs h p = Some b \<and> b_data b \<noteq> 0 \<and> 1 \<le> b_refcnt b \<and> brep h n p xs)"

lemma put_client:
  assumes "client_ok tid w" "conn \<noteq> 0" "buffer_has (w_heap w) key ks" "buffer_has (w_heap w) val vs"
    and "8 + length ks + length vs < 65536" "Suc (log_count (log_file (w_conn w) (w_os w))) < 65536"
    and "list_all (\<lambda>S. length S + (8 + length ks + length vs) \<noteq> 65536) (sections_of w)"
  shows "\<exists>w'. logdb_put (Suc f) dbg tid conn key val w = Done (0, w') \<and> client_ok tid w' \<and>
     extends (sections_of w) (record_bytes ks vs) (sections_of w') \<and> stays w w' \<and>
     mem (w_heap w') = mem (w_heap w) \<and> bufs (w_heap w') = bufs (w_heap w) \<and> txns (w_heap w') = txns (w_heap w) \<and>
     log_count (log_file (w_conn w') (w_os w')) \<le> Suc (log_count (log_file (w_conn w) (w_os w))) \<and>
     (sections_of w \<noteq> [] \<and> length (last (sections_of w)) + (8 + length ks + length vs) < 65536 \<longrightarrow>
        sections_of w' = butlast (sections_of w) @ [last (sections_of w) @ record_bytes ks vs])"
proof -
  obtain kb nk where k: "bufs (w_heap w) key = Some kb" "b_data kb \<noteq> 0" "1 \<le> b_refcnt kb" "brep (w_heap w) nk key ks"
    using assms(3) unfolding buffer_has_def by blast
  obtain vb nv where v: "bufs (w_heap w) val = Some vb" "b_data vb \<noteq> 0" "1 \<le> b_refcnt vb" "brep (w_heap w) nv val vs"
    using assms(4) unfolding buffer_has_def by blast
  have c: "ready w" "calm (w_os w)" "other_locks (w_os w) = []" "heap_ok (w_heap w)" "plenty (w_heap w)"
    "c_alive (w_conn w)" "c_version (w_conn w) = LOGDB_VERSION" "logdb_txn_current tid w = 0"
    using assms(1) by (simp_all add: client_ok_def)
  from put_correct [OF c(1-5) assms(2) c(6-8) k v assms(5-7), of f dbg] obtain w' where
    w': "logdb_put (Suc f) dbg tid conn key val w = Done (0, w')" "ready w'"
      "extends (sections_of w) (record_bytes ks vs) (sections_of w')" "frame (w_os w) (w_os w')"
      "mem (w_heap w') = mem (w_heap w)" "bufs (w_heap w') = bufs (w_heap w)" "txns (w_heap w') = txns (w_heap w)"
      "logdb_txn_current tid w' = 0" "heap_ok (w_heap w')" "plenty (w_heap w')" "c_alive (w_conn w')"
      "c_version (w_conn w') = LOGDB_VERSION"
      "log_count (log_file (w_conn w') (w_os w')) \<le> Suc (log_count (log_file (w_conn w) (w_os w)))"
      "same_headers (w_conn w) (w_os w) (w_os w')"
      "\<exists>bs. w_conn w' = (w_conn w)\<lparr>c_log := (c_log (w_conn w))\<lparr>l_lock := bs\<rparr>\<rparr>"
      "sections_of w \<noteq> [] \<and> length (last (sections_of w)) + (8 + length ks + length vs) < 65536 \<longrightarrow>
        sections_of w' = butlast (sections_of w) @ [last (sections_of w) @ record_bytes ks vs]"
    by blast
  have "calm (w_os w')" "other_locks (w_os w') = []"
    using frame_calm [OF w'(4) c(2)] w'(4) c(3) by (simp_all add: frame_def)
  moreover have "stays w w'" using w'(4,14,15) by (simp add: stays_def)
  ultimately show ?thesis using w' by (auto simp: client_ok_def)
qed

section \<open>Records and sections\<close>

lemma records_bytes_append: "records_bytes (rs @ rs') = records_bytes rs @ records_bytes rs'"
  by (simp add: records_bytes_def)

lemma mset_concat_snoc:
  assumes "i < length R"
  shows "mset (concat (R[i := R ! i @ [x]])) = add_mset x (mset (concat R))"
  using mset_concat_update [OF assms, of "\<lambda>rs. rs" "R ! i @ [x]"] by simp

lemma extends_records:
  assumes "extends (map records_bytes R) (record_bytes k v) S"
  shows "\<exists>R'. S = map records_bytes R' \<and> mset (concat R') = add_mset (k, v) (mset (concat R))"
  using assms unfolding extends_def
proof
  assume "list_ex (\<lambda>i. S = (map records_bytes R)[i := map records_bytes R ! i @ record_bytes k v]) [0..<length (map records_bytes R)]"
  then obtain i where i: "i < length R" "S = (map records_bytes R)[i := map records_bytes R ! i @ record_bytes k v]"
    by (auto simp: list_ex_iff)
  then have "S = map records_bytes (R[i := R ! i @ [(k, v)]])"
    by (simp add: map_update records_bytes_append)
  then show ?thesis using mset_concat_snoc [OF i(1)] by blast
next
  assume "S = map records_bytes R @ [record_bytes k v]"
  then show ?thesis by (intro exI [of _ "R @ [[(k, v)]]"]) simp
qed

lemma list_all_mset: "mset xs = mset ys \<Longrightarrow> list_all P xs = list_all P ys"
  by (metis list_all_iff mset_eq_setD)

lemma extends_dvd:
  assumes "extends S xs S'" "list_all (\<lambda>s. L dvd length s) S" "length xs = L"
  shows "list_all (\<lambda>s. L dvd length s) S'"
  using assms(1) unfolding extends_def
proof
  assume "list_ex (\<lambda>i. S' = S[i := S ! i @ xs]) [0..<length S]"
  then obtain i where "i < length S" "S' = S[i := S ! i @ xs]" by (auto simp: list_ex_iff)
  with assms(2,3) show ?thesis
    unfolding list_all_iff by (auto dest!: set_update_subset_insert [THEN subsetD])
qed (use assms in simp)

lemma heap_upd_facts [simp]:
  "sections_of (w\<lparr>w_heap := h\<rparr>) = sections_of w" "ready (w\<lparr>w_heap := h\<rparr>) = ready w"
  "logdb_txn_current tid (w\<lparr>w_heap := h\<rparr>) = logdb_txn_current tid w"
  by (simp_all add: sections_of_def ready_def logdb_txn_current_def)

section \<open>Buffers of the client\<close>

lemma brep_same: "brep h n p xs \<Longrightarrow> mem h' = mem h \<Longrightarrow> bufs h' = bufs h \<Longrightarrow> brep h' n p xs"
  by (rule brep_frame) (auto simp: same_view_def mem_kept_def)

lemma buffer_has_same: "buffer_has h p xs \<Longrightarrow> mem h' = mem h \<Longrightarrow> bufs h' = bufs h \<Longrightarrow> buffer_has h' p xs"
  unfolding buffer_has_def using brep_same by metis

lemma buffer_has_added:
  assumes "buffer_has h p xs" "adds_buf h q ys h'" "heap_ok h"
  shows "buffer_has h' p xs"
proof -
  obtain b n where b: "bufs h p = Some b" "b_data b \<noteq> 0" "1 \<le> b_refcnt b" "brep h n p xs"
    using assms(1) unfolding buffer_has_def by blast
  obtain d where d: "mem h d = None" "bufs h q = None" "mem h' = (mem h)(d := Some ys)"
    "\<And>r. r \<noteq> q \<Longrightarrow> bufs h' r = bufs h r"
    using assms(2) unfolding adds_buf_def by auto
  have "brep h' n p xs"
  proof (rule brep_frame [OF b(4)])
    show "same_view h h' r" if "breach h p r" for r
      using brep_reach_live [OF b(4) assms(3) that] d(2,4) by (cases "r = q") (auto simp: same_view_def)
    show "mem_kept h h'" using d(1,3) by (auto simp: mem_kept_def)
  qed
  with b(1-3) d(2,4) show ?thesis unfolding buffer_has_def by (metis option.distinct(1))
qed

lemma added_has: "adds_buf h p xs h' \<Longrightarrow> length xs < 4294967296 \<Longrightarrow> buffer_has h' p xs"
proof -
  assume a: "adds_buf h p xs h'" and len: "length xs < 4294967296"
  obtain d where d: "bufs h' p = Some \<lparr>b_data = d, b_len = of_nat (length xs), b_disposer = Some C_free,
      b_orig = 0, b_next = 0, b_refcnt = 1\<rparr>" "mem h' d = Some xs" "d \<noteq> 0" "p \<noteq> 0"
    using a unfolding adds_buf_def by auto
  have "brep h' 1 p xs" by (rule plain_brep [OF d(1,4)]) (use d(2) len in \<open>simp_all add: load_bytes_def unat_small\<close>)
  with d show ?thesis by (auto simp: buffer_has_def)
qed

lemma free_added:
  assumes "adds_buf h p xs h'" "mem g = mem h'" "bufs g = bufs h'"
  shows "\<exists>g'. logdb_buffer_free p g = Done g' \<and> mem g' = mem h \<and> bufs g' = bufs h \<and> txns g' = txns g \<and>
              brk g' = brk g \<and> (heap_ok g \<longrightarrow> heap_ok g') \<and> (plenty g \<longrightarrow> plenty g')"
proof -
  obtain d where d: "bufs h' p = Some \<lparr>b_data = d, b_len = of_nat (length xs), b_disposer = Some C_free,
      b_orig = 0, b_next = 0, b_refcnt = 1\<rparr>" "mem h' d = Some xs" "d \<noteq> 0" "p \<noteq> 0" "mem h d = None" "bufs h p = None"
    "mem h' = (mem h)(d := Some xs)" "\<And>r. r \<noteq> p \<Longrightarrow> bufs h' r = bufs h r"
    using assms(1) unfolding adds_buf_def by auto
  obtain g' where g': "logdb_buffer_free p g = Done g'" "mem g' = (mem g)(d := None)" "bufs g' = (bufs g)(p := None)"
    "txns g' = txns g" "brk g' = brk g" "oom g' = oom g"
    using free_owned [of g p d "of_nat (length xs)"] d(1-4) assms(2,3) by auto
  moreover have "mem g' = mem h" using g'(2) assms(2) d(5,7) by (auto simp: fun_eq_iff)
  moreover have "bufs g' = bufs h" using g'(3) assms(3) d(6,8) by (auto simp: fun_eq_iff)
  moreover have "heap_ok g \<longrightarrow> heap_ok g'" using g'(2-5) by (simp add: heap_ok_def)
  moreover have "plenty g \<longrightarrow> plenty g'" using g'(6) by (simp add: plenty_def)
  ultimately show ?thesis by blast
qed

section \<open>A buffer with a copy of some bytes\<close>

text \<open>What a caller of \<open>logdb_buffer_new_copy\<close> does whose bytes lie in a block of its own.\<close>

definition new_bytes :: "bool \<Rightarrow> byte list \<Rightarrow> heap \<Rightarrow> (ptr \<times> heap) outcome" where
  "new_bytes dbg bs h =
     (let a = Suc (brk h); h = h\<lparr>brk := a, mem := (mem h)(a := Some bs)\<rparr>
      in obind (logdb_buffer_new_copy dbg a (of_nat (length bs)) h) (\<lambda>(p, h). Done (p, h\<lparr>mem := (mem h)(a := None)\<rparr>)))"

lemma new_bytes_ok:
  assumes "heap_ok h" "plenty h" "length bs < 4294967296"
  shows "\<exists>q h'. new_bytes dbg bs h = Done (q, h') \<and> adds_buf h q bs h' \<and> txns h' = txns h"
proof -
  let ?a = "Suc (brk h)" and ?d = "Suc (Suc (brk h))" and ?q = "Suc (Suc (Suc (brk h)))" and ?n = "of_nat (length bs) :: 32 word"
  let ?h1 = "h\<lparr>brk := ?a, mem := (mem h)(?a := Some bs)\<rparr>"
  let ?h2 = "(h_bump ?h1)\<lparr>mem := (mem ?h1)(?d := Some bs)\<rparr>"
  let ?h3 = "put_buf (h_bump ?h2) ?q \<lparr>b_data = ?d, b_len = ?n, b_disposer = Some C_free, b_orig = 0, b_next = 0, b_refcnt = 1\<rparr>"
  have p1: "plenty ?h1" using assms(2) by (simp add: plenty_def)
  have p2: "plenty ?h2" using plenty_bump [OF p1] by (simp add: plenty_def)
  have nd: "logdb_buffer_new_direct dbg ?d ?n (Some C_free) ?h2 = (?q, ?h3)"
    using new_direct_plenty [OF p2, of dbg ?d ?n "Some C_free"] by simp
  have "logdb_buffer_new_copy dbg ?a ?n ?h1 = Done (?q, ?h3)"
    using h_malloc_plenty [OF p1] nd unat_small [OF assms(3)] by (simp add: logdb_buffer_new_copy_def load_bytes_def)
  then have "new_bytes dbg bs h = Done (?q, ?h3\<lparr>mem := (mem ?h3)(?a := None)\<rparr>)" by (simp add: new_bytes_def Let_def)
  moreover have none: "mem h ?a = None" "mem h ?d = None" "bufs h ?q = None" using heap_ok_none [OF assms(1)] by auto
  have "adds_buf h ?q bs (?h3\<lparr>mem := (mem ?h3)(?a := None)\<rparr>)"
    unfolding adds_buf_def
  proof (intro exI [of _ ?d] conjI)
    show "heap_ok (?h3\<lparr>mem := (mem ?h3)(?a := None)\<rparr>)" using assms(1) by (fastforce simp: heap_ok_def)
    show "plenty (?h3\<lparr>mem := (mem ?h3)(?a := None)\<rparr>)" using plenty_bump [OF p2] by (simp add: plenty_def)
  qed (use none in \<open>auto simp: fun_eq_iff\<close>)
  ultimately show ?thesis by auto
qed

end
