(* ===== verification/Close.thy ===== *)
theory Close
  imports Iter
begin

text \<open>
  \<open>logdb_close\<close> of \<^verbatim>\<open>src/logdb_connection.c\<close>: roll back, merge the log into the database when no
  other process has it open, and free the connection.
\<close>

text \<open>
  The writer side of the read-write lock waits for every reader. A reader that never gives the lock
  back, such as an iterator of the same thread, makes the call wait for ever.
\<close>

definition close_files :: "logdb_connection_t \<Rightarrow> os \<Rightarrow> (int \<times> os) outcome" where
  "close_files c s =
     (case sys_flock_ex_nb (c_fd c) s of (r, s) \<Rightarrow>
      obind (if r = 0 then logdb_log_close_merge (c_log c) (c_fd c) s else Done (-1, s)) (\<lambda>(r, s).
      case (if r = 0 then (0, s) else logdb_log_close (c_log c) s) of (r, s) \<Rightarrow>
      let s = sys_flock_un (c_fd c) s in
      if r \<noteq> 0 then Done (-1, s) else Done (0, sys_close (c_fd c) s)))"

definition logdb_close :: "bool \<Rightarrow> nat \<Rightarrow> ptr \<Rightarrow> world \<Rightarrow> (int \<times> world) outcome" where
  "logdb_close dbg tid conn w =
     obind (verify_connection dbg conn w) (\<lambda>ok.
     if \<not> ok then Done (-1, w)
     else case sys_pthread (w_os w) of (ok, s) \<Rightarrow>
     let w = w\<lparr>w_os := s\<rparr> in
     if \<not> ok then Done (-1, w)
     else if c_readers (w_conn w) \<noteq> 0 then Fault Blocked
     else obind (logdb_txn_rollback_all tid w) (\<lambda>w.
          obind (close_files (w_conn w) (w_os w)) (\<lambda>(r, s).
          let w = w\<lparr>w_os := s\<rparr> in
          if r \<noteq> 0 then Done (-1, w)
          else Done (0, w\<lparr>w_conn := (w_conn w)\<lparr>c_version := 0, c_alive := False\<rparr>\<rparr>))))"

end
