(* ===== verification/Reopen.thy ===== *)
theory Reopen
  imports Client Close
begin

text \<open>
  The life of the two files across connections: \<open>logdb_close\<close> appends the log to the database and deletes
  it, \<open>logdb_open\<close> makes the log file of that copy again. What the sections hold survives the round trip.
\<close>

section \<open>Trimming the log\<close>

text \<open>A list without the elements at its end that satisfy the predicate.\<close>

definition strip :: "('a \<Rightarrow> bool) \<Rightarrow> 'a list \<Rightarrow> 'a list" where
  "strip P xs = rev (dropWhile P (rev xs))"

lemma strip_simps [simp]: "strip P [] = []" "strip P (xs @ [x]) = (if P x then strip P xs else xs @ [x])"
  by (simp_all add: strip_def)

lemma strip_prefix: "\<exists>ys. xs = strip P xs @ ys \<and> list_all P ys"
proof (induction xs rule: rev_induct)
  case (snoc x xs)
  then obtain ys where "xs = strip P xs @ ys" "list_all P ys" by blast
  then show ?case by (cases "P x") (auto intro: exI [of _ "ys @ [x]"] exI [of _ "[]"])
qed simp

lemma strip_last: "strip P xs = [] \<or> \<not> P (last (strip P xs))"
  by (induction xs rule: rev_induct) simp_all

lemma length_strip: "length (strip P xs) \<le> length xs"
  using strip_prefix [of xs P] by (metis length_append le_add1)

lemma strip_map: "strip P (map f xs) = map f (strip (\<lambda>x. P (f x)) xs)"
  by (induction xs rule: rev_induct) simp_all

lemma concat_strip: "concat (strip (\<lambda>r. r = []) R) = concat R"
  by (induction R rule: rev_induct) simp_all

lemma strip_cong: "(\<And>x. x \<in> set xs \<Longrightarrow> P x = Q x) \<Longrightarrow> strip P xs = strip Q xs"
  by (induction xs rule: rev_induct) simp_all

text \<open>The loop over the entries from the end, in one formula.\<close>

lemma trim_sections_strip:
  "trim_sections (rev es) (6 + 65536 * int (length es)) (6 + 2 * int (length es)) =
     (let us = strip (\<lambda>e. e = 0) es
      in (if us = [] then 6 else 6 + 65536 * int (length us - 1) + uint (last us), 6 + 2 * int (length us)))"
proof (induction es rule: rev_induct)
  case (snoc e es)
  have "6 + 65536 * int (length (es @ [e])) - (65536 - uint e) = 6 + 65536 * int (length es) + uint e" by simp
  moreover have "6 + 2 * int (length (es @ [e])) - 2 = 6 + 2 * int (length es)" by simp
  ultimately show ?case using snoc by (simp add: Let_def size_defs)
qed simp

lemma decode_entries_log:
  assumes "length f = 6 + 2 * n"
  shows "decode_entries (drop 6 f) = map (entry_at f) [0..<n]"
proof -
  have "decode_entries xs = map (\<lambda>i. of_le16 (take 2 (drop (2 * i) xs))) [0..<n]" if "length xs = 2 * n" for xs n
    using that
  proof (induction n arbitrary: xs)
    case (Suc n)
    then obtain a b ys where xs: "xs = a # b # ys" "length ys = 2 * n"
      by (cases xs; cases "tl xs") auto
    have "drop (2 * Suc i) xs = drop (2 * i) ys" for i using xs(1) by simp
    moreover have "of_le16 (take 2 (drop (2 * 0) xs)) = of_le16 [a, b]" using xs(1) by (simp add: of_le16_def numeral_2_eq_2)
    ultimately show ?case
      unfolding map_upt_Suc by (simp only: xs(1) decode_entries.simps Suc.IH [OF xs(2)])
  qed simp
  from this [of "drop 6 f" n] assms show ?thesis by (simp add: entry_at_def seg_def of_le16_def add.commute)
qed

section \<open>Reading a log from a position\<close>

lemma read_quiet_same:
  assumes "quiet s" "fds s fd = Some f" "0 < sz" "f_pos f + sz \<le> length (file_of s fd)"
  shows "\<exists>s'. logdb_io_read fd sz s = (0, seg (file_of s fd) (f_pos f) sz, s') \<and> quiet s' \<and> same_data s s' \<and>
              fds s' fd = Some (f\<lparr>f_pos := f_pos f + sz\<rparr>)"
proof -
  from logdb_io_read_quiet [OF assms] obtain s' where
    r: "logdb_io_read fd sz s = (0, seg (file_of s fd) (f_pos f) sz, s')" "quiet s'"
      "s' = set_pos (resched s (sched s')) fd (f_pos f + sz)"
    by blast
  have sub: "set (sched s') \<subseteq> set (sched s)" using logdb_io_sched(1) [of fd sz s] r(1) by simp
  have "same_data s (set_pos (resched s (sched s')) fd (f_pos f + sz))"
    using same_data_trans [OF same_data_steps(4) [OF sub] same_data_steps(3)] .
  moreover have "fds (set_pos (resched s (sched s')) fd (f_pos f + sz)) fd = Some (f\<lparr>f_pos := f_pos f + sz\<rparr>)"
    using assms(2) by (simp add: fds_set_pos)
  ultimately show ?thesis using r by metis
qed

lemma lseek_ok:
  assumes "fds s fd = Some f" "0 \<le> base + offs"
    "base = (case wh of SEEK_SET \<Rightarrow> 0 | SEEK_CUR \<Rightarrow> int (f_pos f) | SEEK_END \<Rightarrow> int (length (file_of s fd)))"
  shows "sys_lseek fd offs wh s = (base + offs, set_pos s fd (nat (base + offs)))"
  using assms by (auto simp: sys_lseek_def file_of_def Let_def split: whence.splits)

lemma set_pos_fd: "fds s fd = Some f \<Longrightarrow> fds (set_pos s fd p) fd = Some (f\<lparr>f_pos := p\<rparr>)"
  by (simp add: fds_set_pos)

lemma log_read_quiet:
  assumes "quiet s" "fds s fd = Some f" "length (file_of s fd) = f_pos f + 6 + m + t" "m + t < 2 ^ 62"
    and "take 6 (drop (f_pos f) (file_of s fd)) = logdb_log_header"
    and "mode = LOGDB_READ_NO_TRAILER \<and> t = 0 \<or> mode = LOGDB_READ_HAS_TRAILER \<and> t = 4"
  shows "\<exists>s'. logdb_log_read fd mode s = Done (LB_Block (seg (file_of s fd) (f_pos f) (6 + m)), s') \<and>
              same_data s s' \<and> quiet s'"
proof -
  let ?F = "file_of s fd" and ?p = "f_pos f"
  obtain s1 where s1: "logdb_io_read fd 6 s = (0, seg ?F ?p 6, s1)" "quiet s1" "same_data s s1"
      "fds s1 fd = Some (f\<lparr>f_pos := ?p + 6\<rparr>)"
    using read_quiet_same [OF assms(1,2), of 6] assms(3) by auto
  have F1: "file_of s1 fd = ?F" by (rule same_data_file [OF s1(3)])
  have hdr: "seg ?F ?p 6 = logdb_log_header" using assms(5) by (simp add: seg_def)
  let ?s2 = "set_pos s1 fd (?p + 6)"
  have l1: "sys_lseek fd 0 SEEK_CUR s1 = (int (?p + 6), ?s2)" using lseek_ok [OF s1(4), of "int (?p + 6)" 0 SEEK_CUR] by (simp add: nat_add_distrib)
  have fd2: "fds ?s2 fd = Some (f\<lparr>f_pos := ?p + 6\<rparr>)" using set_pos_fd [OF s1(4)] by simp
  let ?s3 = "set_pos ?s2 fd (length ?F)"
  have F2: "file_of ?s2 fd = ?F" unfolding file_of_set_pos by (rule F1)
  have "sys_lseek fd 0 SEEK_END ?s2 = (int (length ?F) + 0, set_pos ?s2 fd (nat (int (length ?F) + 0)))"
    by (rule lseek_ok [OF fd2]) (simp_all only: F2 whence.case)
  then have l2: "sys_lseek fd 0 SEEK_END ?s2 = (int (length ?F), ?s3)" by (simp only: add_0_right nat_int)
  have fd3: "fds ?s3 fd = Some (f\<lparr>f_pos := length ?F\<rparr>)" using set_pos_fd [OF fd2] by simp
  obtain s4 where m: "sys_malloc ?s3 = (True, s4)" "quiet s4" "same_data ?s3 s4"
    using calls_quiet(3) [of ?s3] sys_malloc_same [of ?s3] s1(2) by (cases "sys_malloc ?s3") auto
  have fd4: "fds s4 fd = Some (f\<lparr>f_pos := length ?F\<rparr>)"
    using m(1) fd3 by (auto simp: sys_malloc_def pop_eq Let_def)
  have same4: "same_data s s4"
    using same_data_trans [OF same_data_trans [OF same_data_trans [OF s1(3) same_data_steps(3)] same_data_steps(3)] m(3)] .
  have F4: "file_of s4 fd = ?F" by (rule same_data_file [OF same4])
  have es: "((if mode = LOGDB_READ_HAS_TRAILER then int (length ?F) - int sizeof_trailer else int (length ?F)) - int (?p + 6)) mod 2 ^ 64 = int m"
  proof -
    have "(if mode = LOGDB_READ_HAS_TRAILER then int (length ?F) - int sizeof_trailer else int (length ?F)) - int (?p + 6) = int m"
      using assms(3,6) by (auto simp: size_defs)
    moreover have "int m mod 2 ^ 64 = int m" using assms(4) by (intro mod_pos_pos_trivial) (simp_all, linarith?)
    ultimately show ?thesis by (simp only:)
  qed
  have "(int sizeof_log_header + int m) mod 2 ^ 64 = int sizeof_log_header + int m"
    by (rule mod_pos_pos_trivial) (use assms(4) in \<open>simp_all add: size_defs\<close>)
  then have fit: "\<not> (int sizeof_log_header + int m) mod 2 ^ 64 < int sizeof_log_header" by simp
  have nv: "mode \<noteq> LOGDB_VALIDATE_ONLY" using assms(6) by auto
  have pos: "int (?p + 6) \<noteq> -1" "int (length ?F) \<noteq> -1" by simp_all
  show ?thesis
  proof (cases "m = 0")
    case True
    have "logdb_log_read fd mode s = Done (LB_Block logdb_log_header, s4)"
      unfolding logdb_log_read_def size_defs(3) using s1(1) hdr nv l1 l2 m(1) es fit True
      by (simp add: Let_def size_defs)
    with hdr True same4 m(2) show ?thesis by (intro exI [of _ s4]) simp
  next
    case False
    let ?s5 = "set_pos s4 fd (?p + 6)"
    have l3: "sys_lseek fd (int (?p + 6)) SEEK_SET s4 = (int (?p + 6), ?s5)"
      using lseek_ok [OF fd4, of 0 "int (?p + 6)" SEEK_SET] by (simp add: nat_add_distrib)
    have fd5: "fds ?s5 fd = Some (f\<lparr>f_pos := ?p + 6\<rparr>)" using set_pos_fd [OF fd4] by simp
    have F5: "file_of ?s5 fd = ?F" using F4 by simp
    obtain s6 where s6: "logdb_io_read fd m ?s5 = (0, seg ?F (?p + 6) m, s6)" "quiet s6" "same_data ?s5 s6"
      using read_quiet_same [OF _ fd5, of m] m(2) F5 False assms(3) by auto
    have "seg ?F ?p 6 @ seg ?F (?p + 6) m = seg ?F ?p (6 + m)" by (simp add: seg_append_join)
    then have "logdb_log_read fd mode s = Done (LB_Block (seg ?F ?p (6 + m)), s6)"
      unfolding logdb_log_read_def using s1(1) hdr nv l1 l2 l3 m(1) es fit False s6(1)
      by (simp add: Let_def size_defs)
    with s6 same_data_trans [OF same_data_trans [OF same4 same_data_steps(3)] s6(3)] show ?thesis by blast
  qed
qed


section \<open>Merging the log into the database\<close>

lemma write_end_quiet:
  assumes "quiet s" "fds s fd = Some f" "f_pos f = length (file_of s fd)"
  shows "\<exists>s'. logdb_io_write fd buf s = (0, s') \<and> quiet s' \<and> frame s s' \<and>
              inode s' = (inode s)(f_ino f := file_of s fd @ buf) \<and>
              fds s' fd = Some (f\<lparr>f_pos := length (file_of s fd @ buf)\<rparr>)"
proof -
  obtain left s' where w: "logdb_io_write fd buf s = (left, s')" by fastforce
  note sp = logdb_io_write_spec [OF w assms(2)]
  have q: "quiet s'" "left = 0" using sp(3) assms(1) by simp_all
  have pos: "write_pos s fd = length (file_of s fd)" using assms(2,3) by (simp add: write_pos_def)
  obtain p where p: "p = length (file_of s fd) + length buf \<or> length buf = 0 \<and> p = f_pos f"
    "s' = set_pos (set_file (resched s (sched s')) (f_ino f) (write_at (file_of s fd) (length (file_of s fd)) buf)) fd p"
    using sp(2) q(2) pos by auto
  have p': "p = length (file_of s fd @ buf)" using p(1) assms(3) by auto
  note s' = p(2) [unfolded write_at_end p']
  have sub: "set (sched s') \<subseteq> set (sched s)" using logdb_io_sched(2) [of fd buf s] w by simp
  have "frame s (set_pos (set_file (resched s (sched s')) (f_ino f) (file_of s fd @ buf)) fd (length (file_of s fd @ buf)))"
    using frame_trans [OF frame_trans [OF frame_resched [OF sub] frame_steps(2)] frame_steps(4)] .
  then have "frame s s'" using s' by simp
  moreover have "inode s' = (inode s)(f_ino f := file_of s fd @ buf)" by (subst s') simp
  moreover have "fds s' fd = Some (f\<lparr>f_pos := length (file_of s fd @ buf)\<rparr>)"
    by (subst s') (simp add: fds_set_pos assms(2))
  ultimately show ?thesis using w q by blast
qed

text \<open>
  What closing with a merge leaves in the database file: the data up to the end of the last section
  that is not empty, the log without its empty entries at the end, and the trailer.
\<close>

definition used_entries :: "byte list \<Rightarrow> 16 word list" where
  "used_entries L = strip (\<lambda>e. e = 0) (map (entry_at L) [0..<log_count L])"

definition merged_log :: "byte list \<Rightarrow> byte list" where
  "merged_log L = take (6 + 2 * length (used_entries L)) L"

definition merged_size :: "byte list \<Rightarrow> nat" where
  "merged_size L = (let us = used_entries L in
     if us = [] then 6 else 6 + 65536 * (length us - 1) + unat (last us))"

definition resize :: "nat \<Rightarrow> byte list \<Rightarrow> byte list" where
  "resize n D = take n D @ replicate (n - length D) 0"

definition merged_db :: "byte list \<Rightarrow> byte list \<Rightarrow> byte list" where
  "merged_db L D = resize (merged_size L) D @ merged_log L @ le32 (of_nat (length (merged_log L) + 4))"

lemma used_length: "length (used_entries L) \<le> log_count L"
  using length_strip [of "\<lambda>e. e = 0" "map (entry_at L) [0..<log_count L]"] by (simp add: used_entries_def)

lemma merged_log_length: "length L = 6 + 2 * log_count L \<Longrightarrow> length (merged_log L) = 6 + 2 * length (used_entries L)"
  using used_length [of L] by (simp add: merged_log_def)

lemma setlkw_ok:
  assumes "quiet s" "fds s fd = Some f" "other_locks s = []"
  shows "sys_fcntl_setlkw fd m 0 0 s = Done (0, set_locks (popped s) (f_ino f) m 0 0)"
  using quiet_event [OF assms(1)] assms(2,3) by (simp add: sys_fcntl_setlkw_def pop_eq Let_def fcntl_conflict_def)

lemma ftruncate_ok:
  assumes "quiet s" "fds s fd = Some f"
  shows "sys_ftruncate fd (int n) s = (0, set_file (popped s) (f_ino f) (resize n (file_of s fd)))"
  using quiet_event [OF assms(1)] assms(2) by (simp add: sys_ftruncate_def pop_eq Let_def resize_def file_of_def)

lemma merge_write_quiet:
  assumes "quiet s" "fds s dbfd = Some f" "l_path log = Some path" "nat logsz \<le> length hdr" "0 \<le> logsz"
  shows "\<exists>s'. log_merge_write log dbfd hdr (int n) logsz s = Done (0, sys_close (l_fd log) (snd (sys_unlink path s'))) \<and>
           quiet s' \<and> frame s s' \<and>
           inode s' = (inode s)(f_ino f := resize n (file_of s dbfd) @ take (nat logsz) hdr @ le32 (word_of_int (logsz + 4)))"
proof -
  let ?D = "resize n (file_of s dbfd)"
  let ?s1 = "set_file (popped s) (f_ino f) ?D"
  have t: "sys_ftruncate dbfd (int n) s = (0, ?s1)" by (rule ftruncate_ok [OF assms(1,2)])
  have fd1: "fds ?s1 dbfd = Some f" using assms(2) by simp
  have D1: "file_of ?s1 dbfd = ?D" using assms(2) by (simp add: file_of_def)
  let ?s2 = "set_pos ?s1 dbfd (length ?D)"
  have "sys_lseek dbfd 0 SEEK_END ?s1 = (int (length ?D) + 0, set_pos ?s1 dbfd (nat (int (length ?D) + 0)))"
    by (rule lseek_ok [OF fd1]) (simp_all only: D1 whence.case)
  then have l: "sys_lseek dbfd 0 SEEK_END ?s1 = (int (length ?D), ?s2)" by (simp only: add_0_right nat_int)
  have fd2: "fds ?s2 dbfd = Some (f\<lparr>f_pos := length ?D\<rparr>)" by (rule set_pos_fd [OF fd1])
  have D2: "file_of ?s2 dbfd = ?D" unfolding file_of_set_pos by (rule D1)
  have q2: "quiet ?s2" using assms(1) by simp
  from write_end_quiet [OF q2 fd2, of "take (nat logsz) hdr"] D2 obtain s3 where
    s3: "logdb_io_write dbfd (take (nat logsz) hdr) ?s2 = (0, s3)" "quiet s3" "frame ?s2 s3"
      "inode s3 = (inode ?s2)(f_ino f := ?D @ take (nat logsz) hdr)"
      "fds s3 dbfd = Some (f\<lparr>f_pos := length (?D @ take (nat logsz) hdr)\<rparr>)"
    by auto
  have D3: "file_of s3 dbfd = ?D @ take (nat logsz) hdr" using s3(4,5) by (simp add: file_of_def)
  from write_end_quiet [OF s3(2,5), of "le32 (word_of_int (logsz + 4))"] D3 obtain s4 where
    s4: "logdb_io_write dbfd (le32 (word_of_int (logsz + 4))) s3 = (0, s4)" "quiet s4" "frame s3 s4"
      "inode s4 = (inode s3)(f_ino f := (?D @ take (nat logsz) hdr) @ le32 (word_of_int (logsz + 4)))"
    by auto
  have nn: "int (length ?D) \<noteq> -1" "\<not> int (length hdr) < logsz" using assms(4,5) by simp_all
  have "log_merge_write log dbfd hdr (int n) logsz s = Done (0, sys_close (l_fd log) (snd (sys_unlink path s4)))"
    using t l nn s3(1) s4(1) assms(3) by (simp add: log_merge_write_def Let_def size_defs logdb_log_close_def)
  moreover have "frame s s4"
    using frame_trans [OF frame_trans [OF frame_trans [OF frame_trans [OF frame_steps(1) frame_steps(2)] frame_steps(4)] s3(3)] s4(3)] .
  moreover have "inode s4 = (inode s)(f_ino f := ?D @ take (nat logsz) hdr @ le32 (word_of_int (logsz + 4)))"
    using s4(4) s3(4) by simp
  ultimately show ?thesis using s4(2) by blast
qed


lemma unat_last_used:
  "used_entries L \<noteq> [] \<Longrightarrow> last (used_entries L) = entry_at L (length (used_entries L) - 1)"
proof -
  assume ne: "used_entries L \<noteq> []"
  obtain ys where "map (entry_at L) [0..<log_count L] = used_entries L @ ys"
    using strip_prefix unfolding used_entries_def by metis
  moreover have "length (used_entries L) - 1 < log_count L" using used_length [of L] ne
    by (metis One_nat_def diff_less le_less_trans length_greater_0_conv lessI less_imp_le less_le_trans zero_less_one)
  ultimately have "entry_at L (length (used_entries L) - 1) = (used_entries L @ ys) ! (length (used_entries L) - 1)"
    by (metis add_0 diff_zero length_upt nth_map nth_upt)
  with ne show ?thesis by (simp add: last_conv_nth nth_append)
qed

lemma close_merge_quiet:
  assumes "quiet s" "fds s dbfd = Some df" "fds s (l_fd log) = Some lf" "f_ino df \<noteq> f_ino lf" "other_locks s = []"
    and "l_path log = Some path" "length L = 6 + 2 * log_count L" "log_count L < 65536"
    and "take 6 L = logdb_log_header" "file_of s (l_fd log) = L"
  shows "\<exists>s'. logdb_log_close_merge log dbfd s = Done (0, sys_close (l_fd log) (snd (sys_unlink path s'))) \<and>
           quiet s' \<and> frame s s' \<and> inode s' = (inode s)(f_ino df := merged_db L (file_of s dbfd))"
proof -
  let ?n = "log_count L" and ?lfd = "l_fd log"
  let ?s1 = "set_locks (popped s) (f_ino lf) L_Exclusive 0 0" let ?s2 = "set_pos ?s1 ?lfd 0"
  have k: "sys_fcntl_setlkw ?lfd L_Exclusive 0 0 s = Done (0, ?s1)" by (rule setlkw_ok [OF assms(1,3,5)])
  have "sys_lseek ?lfd 0 SEEK_SET ?s1 = (0 + 0, set_pos ?s1 ?lfd (nat (0 + 0)))"
    by (rule lseek_ok [of _ _ lf]) (simp_all add: assms(3))
  then have l1: "sys_lseek ?lfd 0 SEEK_SET ?s1 = (0, ?s2)" by simp
  have fd2: "fds ?s2 ?lfd = Some (lf\<lparr>f_pos := 0\<rparr>)" using assms(3) by (simp add: fds_set_pos)
  have L2: "file_of ?s2 ?lfd = L" using assms(10) by simp
  have q2: "quiet ?s2" using assms(1) by simp
  have same2: "same_data s ?s2"
    using same_data_trans [OF same_data_trans [OF same_data_steps(1) same_data_steps(2)] same_data_steps(3)] .
  obtain s3 where s3: "logdb_log_read ?lfd LOGDB_READ_NO_TRAILER ?s2 = Done (LB_Block L, s3)" "same_data ?s2 s3" "quiet s3"
    using log_read_quiet [OF q2 fd2, of "2 * ?n" 0 LOGDB_READ_NO_TRAILER] L2 assms(7-9) by (auto simp: seg_def)
  have same3: "same_data s s3" by (rule same_data_trans [OF same2 s3(2)])
  have L3: "file_of s3 ?lfd = L" using same_data_file [OF same3] assms(10) by simp
  obtain lf3 where lf3: "fds s3 ?lfd = Some lf3" using same_data_open [OF same3, of ?lfd] assms(3) by auto
  let ?s4 = "set_pos s3 ?lfd (length L)"
  have "sys_lseek ?lfd 0 SEEK_END s3 = (int (length L) + 0, set_pos s3 ?lfd (nat (int (length L) + 0)))"
    by (rule lseek_ok [OF lf3]) (simp_all only: L3 whence.case)
  then have l4: "sys_lseek ?lfd 0 SEEK_END s3 = (int (length L), ?s4)" by (simp only: add_0_right nat_int)
  have same4: "same_data s ?s4" by (rule same_data_trans [OF same3 same_data_steps(3)])
  obtain df4 where df4: "fds ?s4 dbfd = Some df4" "f_ino df4 = f_ino df"
    using frame_fd [of s ?s4 dbfd] same4 assms(2) by (auto simp: same_data_def)
  have D4: "file_of ?s4 dbfd = file_of s dbfd" by (rule same_data_file [OF same4])
  have un: "unat (logdb_log_index_from_offset (int (length L))) = ?n"
    unfolding assms(7) using assms(8) by (subst index_from_offset_nat) simp_all
  have "nat (logdb_connection_offset (logdb_log_index_from_offset (int (length L)))) = 6 + 65536 * ?n"
    using connection_offset_nat [of "logdb_log_index_from_offset (int (length L))"] un assms(8) by simp
  then have off: "logdb_connection_offset (logdb_log_index_from_offset (int (length L))) = 6 + 65536 * int ?n"
    using connection_offset_ge [of "logdb_log_index_from_offset (int (length L))"] by linarith
  have dec: "decode_entries (drop sizeof_log_header L) = map (entry_at L) [0..<?n]"
    using decode_entries_log [OF assms(7)] by (simp add: size_defs)
  let ?us = "used_entries L"
  have "int (merged_size L) = (if ?us = [] then 6 else 6 + 65536 * int (length ?us - 1) + uint (last ?us))"
    by (simp add: merged_size_def Let_def)
  then have tr: "trim_sections (rev (map (entry_at L) [0..<?n])) (6 + 65536 * int ?n) (int (length L)) =
      (int (merged_size L), int (6 + 2 * length ?us))"
    using trim_sections_strip [of "map (entry_at L) [0..<?n]"] assms(7) by (simp add: used_entries_def Let_def)
  have fits: "nat (int (6 + 2 * length ?us)) \<le> length L" using used_length [of L] assms(7) by simp
  have q4: "quiet ?s4" using s3(3) by simp
  obtain s5 where s5: "log_merge_write log dbfd L (int (merged_size L)) (int (6 + 2 * length ?us)) ?s4 =
        Done (0, sys_close ?lfd (snd (sys_unlink path s5)))" "quiet s5" "frame ?s4 s5"
      "inode s5 = (inode ?s4)(f_ino df4 := resize (merged_size L) (file_of ?s4 dbfd) @
         take (nat (int (6 + 2 * length ?us))) L @ le32 (word_of_int (int (6 + 2 * length ?us) + 4)))"
    using merge_write_quiet [OF q4 df4(1) assms(6) fits, of "merged_size L"] by auto
  have ml: "take (nat (int (6 + 2 * length ?us))) L = merged_log L" by (simp only: nat_int merged_log_def)
  have wd: "(word_of_int (int (6 + 2 * length ?us) + 4) :: 32 word) = of_nat (length (merged_log L) + 4)"
    using merged_log_length [OF assms(7)] by simp
  have md: "inode s5 = (inode s)(f_ino df := merged_db L (file_of s dbfd))"
    unfolding s5(4) [unfolded ml wd] merged_db_def using same4 D4 df4(2) by (simp add: same_data_def)
  have "logdb_log_close_merge log dbfd s = log_merge_write log dbfd L (int (merged_size L)) (int (6 + 2 * length ?us)) ?s4"
    using assms(6) k l1 s3(1) l4 un off dec tr by (simp add: logdb_log_close_merge_def Let_def)
  with s5(1,2) md frame_trans [OF _ s5(3), of s] same4 show ?thesis by (auto simp: same_data_def)
qed


section \<open>The sections after a merge\<close>

lemma strip_upt: "strip P [0..<n] = [0..<length (strip P [0..<n])]"
proof -
  obtain ys where "[0..<n] = strip P [0..<n] @ ys" using strip_prefix by metis
  then have "strip P [0..<n] = take (length (strip P [0..<n])) [0..<n]" by (metis append_eq_conv_conj)
  with length_strip [of P "[0..<n]"] show ?thesis by (metis add_0 length_upt diff_zero take_upt)
qed

lemma merged_size_fits:
  assumes "data_present L D" "6 \<le> length D"
  shows "merged_size L \<le> length D"
proof (cases "used_entries L = []")
  case False
  let ?k = "length (used_entries L)"
  have "last (used_entries L) \<noteq> 0" using False strip_last [of "\<lambda>e. e = 0" "map (entry_at L) [0..<log_count L]"] by (simp add: used_entries_def)
  moreover have "?k - 1 < log_count L" using used_length [of L] False by (cases "used_entries L") auto
  ultimately show ?thesis
    using data_presentD [OF assms(1), of "?k - 1"] unat_last_used [OF False] False by (simp add: merged_size_def Let_def)
qed (use assms in \<open>simp add: merged_size_def\<close>)

lemma section_empty:
  assumes "data_present L D" "i < log_count L"
  shows "section_of L D i = [] \<longleftrightarrow> entry_at L i = 0"
proof -
  have "length (section_of L D i) = unat (entry_at L i)"
    using data_presentD [OF assms] by (auto simp: section_of_def)
  then show ?thesis by (metis length_0_conv unsigned_eq_0_iff)
qed

lemma merged_sections:
  assumes "data_present L D" "6 \<le> length D" "length L = 6 + 2 * log_count L"
  shows "db_sections (merged_log L) (merged_db L D) = strip (\<lambda>x. x = []) (db_sections L D)"
    "data_present (merged_log L) (merged_db L D)"
proof -
  let ?us = "used_entries L" and ?M = "merged_log L" and ?E = "merged_db L D" and ?P = "\<lambda>i. entry_at L i = 0"
  let ?k = "length ?us"
  have us: "?us = map (entry_at L) (strip ?P [0..<log_count L])" by (simp add: used_entries_def strip_map)
  have k: "?k = length (strip ?P [0..<log_count L])" using arg_cong [OF us, of length] by simp
  have kn: "?k \<le> log_count L" by (rule used_length)
  have cnt: "log_count ?M = ?k" using merged_log_length [OF assms(3)] by (simp add: log_count_def size_defs)
  have "L = ?M @ drop (6 + 2 * ?k) L" by (simp add: merged_log_def)
  then have e: "entry_at ?M i = entry_at L i" if "i < ?k" for i
    using entry_at_append [of i ?M "drop (6 + 2 * ?k) L"] that cnt by simp
  have fit: "merged_size L \<le> length D" by (rule merged_size_fits [OF assms(1,2)])
  have E: "?E = take (merged_size L) D @ ?M @ le32 (of_nat (length ?M + 4))" using fit by (simp add: merged_db_def resize_def)
  have in_size: "6 + 65536 * i + unat (entry_at L i) \<le> merged_size L" if "i < ?k" for i
  proof (cases "i = ?k - 1")
    case True
    have "?us \<noteq> []" using that by auto
    with True show ?thesis using unat_last_used [of L] by (simp add: merged_size_def Let_def)
  next
    case False
    then have "Suc i \<le> ?k - 1" using that by simp
    then have "65536 * Suc i \<le> 65536 * (?k - 1)" by (rule mult_le_mono2)
    moreover have "?us \<noteq> []" using that by auto
    moreover have "unat (entry_at L i) < 65536" by (rule unat_16_less)
    ultimately show ?thesis by (simp add: merged_size_def Let_def)
  qed
  have s: "section_of ?M ?E i = section_of L D i" if "i < ?k" for i
    using in_size [OF that] fit e [OF that] unfolding section_of_def E
    by (simp add: seg_append_left seg_take)
  have "strip (\<lambda>x. x = []) (db_sections L D) = map (section_of L D) (strip (\<lambda>i. section_of L D i = []) [0..<log_count L])"
    by (simp add: db_sections_def strip_map)
  also have "strip (\<lambda>i. section_of L D i = []) [0..<log_count L] = strip ?P [0..<log_count L]"
    by (rule strip_cong) (simp add: section_empty [OF assms(1)])
  also have "\<dots> = [0..<?k]" using strip_upt [of ?P "log_count L"] k by simp
  finally show "db_sections ?M ?E = strip (\<lambda>x. x = []) (db_sections L D)"
    using s by (simp add: db_sections_def cnt)
  have "6 + 65536 * i + unat (entry_at ?M i) \<le> length ?E" if "i < ?k" for i
    using in_size [OF that] e [OF that] fit by (simp add: E)
  then show "data_present ?M ?E" unfolding data_present_iff cnt by blast
qed


section \<open>Making a log file from the end of the database\<close>

lemma open_new_quiet:
  assumes "quiet s" "dir s path = None" "o_creat fl"
  shows "sys_open path fl s =
     (next_fd s, (popped s)\<lparr>fds := (fds s)(next_fd s := Some \<lparr>f_ino = next_ino s, f_pos = 0, f_append = o_append fl\<rparr>),
         next_fd := next_fd s + 1, dir := (dir s)(path := Some (next_ino s)),
         inode := (inode s)(next_ino s := []), next_ino := next_ino s + 1\<rparr>)"
  using quiet_event [OF assms(1)] assms(2,3) by (simp add: sys_open_def pop_eq Let_def)

lemma log_new_quiet:
  assumes "quiet s" "dir s path \<noteq> None"
  shows "\<exists>s'. logdb_log_new fd path s = (Some \<lparr>l_fd = fd, l_path = Some path, l_lock = []\<rparr>, s') \<and>
              same_data s s' \<and> quiet s' \<and> my_locks s' = my_locks s"
proof -
  have q: "quiet (popped s)" using assms(1) by simp
  have "logdb_log_new fd path s = (Some \<lparr>l_fd = fd, l_path = Some path, l_lock = []\<rparr>, popped (popped s))"
    using quiet_event [OF assms(1)] quiet_event [OF q] assms(2)
    by (auto simp: logdb_log_new_def sys_malloc_def sys_realpath_def pop_eq Let_def)
  then show ?thesis using same_data_trans [OF same_data_steps(1) same_data_steps(1)] assms(1) by auto
qed

text \<open>A file that is written twice: its entries first, its header last. Before the header it is not a log.\<close>

definition headless :: "byte list \<Rightarrow> byte list" where
  "headless M = write_at [] 6 (drop 6 M)"

lemma headless_no_log: "take 6 (headless M) \<noteq> logdb_log_header"
proof -
  have "logdb_log_header \<noteq> []" "logdb_log_header \<noteq> replicate 6 0" by code_simp+
  moreover have "headless M = [] \<or> take 6 (headless M) = replicate 6 0" by (simp add: headless_def write_at_def)
  ultimately show ?thesis by auto
qed

lemma headless_filled:
  assumes "6 \<le> length M"
  shows "write_at (headless M) 0 (take 6 M) = M"
proof (cases "drop 6 M = []")
  case True
  then have "take 6 M = M" by simp
  with True show ?thesis by (simp add: write_at_def headless_def)
next
  case False
  then have "headless M = replicate 6 0 @ drop 6 M" by (simp add: write_at_def headless_def)
  moreover have "take 6 M \<noteq> []" using assms by auto
  moreover have "length (take 6 M) = 6" using assms by simp
  ultimately show ?thesis by (simp add: write_at_def)
qed

lemma create_entries_quiet:
  assumes "quiet s" "dir s path = None" "\<not> pwrite_appends s" "0 \<le> next_fd s"
  shows "\<exists>s1 t. log_create_write dbg path M (int (length M)) s =
             (if dbg \<and> test_env s then Done (None, sys_close (next_fd s) s1)
              else case logdb_io_pwrite (next_fd s) (take 6 M) 0 s1 of (left, u) \<Rightarrow>
                if left \<noteq> 0 then logwritefail (next_fd s) path u else Done (logdb_log_new (next_fd s) path u)) \<and>
           t = (popped s)\<lparr>fds := (fds s)(next_fd s := Some \<lparr>f_ino = next_ino s, f_pos = 0, f_append = True\<rparr>),
                 next_fd := next_fd s + 1, dir := (dir s)(path := Some (next_ino s)),
                 inode := (inode s)(next_ino s := []), next_ino := next_ino s + 1\<rparr> \<and>
           frame t s1 \<and> inode s1 = (inode s)(next_ino s := headless M) \<and> quiet s1"
proof -
  let ?fd = "next_fd s" and ?i = "next_ino s"
  let ?t = "(popped s)\<lparr>fds := (fds s)(?fd := Some \<lparr>f_ino = ?i, f_pos = 0, f_append = True\<rparr>),
                 next_fd := ?fd + 1, dir := (dir s)(path := Some ?i), inode := (inode s)(?i := []), next_ino := ?i + 1\<rparr>"
  have o: "sys_open path \<lparr>o_creat = True, o_excl = True, o_append = True\<rparr> s = (?fd, ?t)"
    using open_new_quiet [OF assms(1,2), of "\<lparr>o_creat = True, o_excl = True, o_append = True\<rparr>"] by simp
  have t: "fds ?t ?fd = Some \<lparr>f_ino = ?i, f_pos = 0, f_append = True\<rparr>" "\<not> pwrite_appends ?t" "file_of ?t ?fd = []"
    using assms(3) by (simp_all add: file_of_def)
  have qt: "quiet ?t" using assms(1) by (simp add: quiet_def) (metis quiet_def quiet_popped popped_simps(13))
  obtain left1 s1 where w1: "logdb_io_pwrite ?fd (drop 6 M) 6 ?t = (left1, s1)" by fastforce
  note p1 = pwrite_changes [OF w1 t(1)] logdb_io_pwrite_spec [OF w1 t(1)]
  have l1: "left1 = 0" using p1(3) t(2) qt by simp
  have c1: "frame ?t s1" "inode s1 = (inode s)(?i := headless M)" "quiet s1"
    using p1(1) p1(6) t qt l1 by (simp_all add: changes_def headless_def)
  obtain s1' where s1': "(if int (length M) > int sizeof_log_header
         then logdb_io_pwrite ?fd (drop sizeof_log_header (take (nat (int (length M))) M)) (int sizeof_log_header) ?t
         else (0, ?t)) = (0, s1')"
    "frame ?t s1'" "inode s1' = (inode s)(?i := headless M)" "quiet s1'"
  proof (cases "length M > 6")
    case True
    with w1 l1 c1 that [of s1] show ?thesis by (simp add: size_defs)
  next
    case False
    then have "headless M = []" by (simp add: headless_def write_at_def)
    with False qt that [of ?t] show ?thesis by (simp add: size_defs)
  qed
  have tn: "test_env s1' = test_env s" using s1'(2) by (simp add: frame_def)
  have ok: "?fd \<noteq> -1" "\<not> (int (length M) > int sizeof_log_header \<and> int (length M) > int (length M))"
    using assms(4) by simp_all
  have "log_create_write dbg path M (int (length M)) s =
      (if dbg \<and> test_env s then Done (None, sys_close ?fd s1')
       else case logdb_io_pwrite ?fd (take 6 M) 0 s1' of (left, u) \<Rightarrow>
         if left \<noteq> 0 then logwritefail ?fd path u else Done (logdb_log_new ?fd path u))"
    unfolding log_create_write_def o prod.case if_not_P [OF ok(1)] if_not_P [OF ok(2)] s1'(1)
    using tn by (simp add: size_defs)
  then show ?thesis using s1'(2-4) by blast
qed

lemma create_write_quiet:
  assumes "quiet s" "dir s path = None" "\<not> pwrite_appends s" "\<not> (dbg \<and> test_env s)" "6 \<le> length M"
    and "0 \<le> next_fd s"
  shows "\<exists>s' t. log_create_write dbg path M (int (length M)) s =
             Done (Some \<lparr>l_fd = next_fd s, l_path = Some path, l_lock = []\<rparr>, s') \<and>
           t = (popped s)\<lparr>fds := (fds s)(next_fd s := Some \<lparr>f_ino = next_ino s, f_pos = 0, f_append = True\<rparr>),
                 next_fd := next_fd s + 1, dir := (dir s)(path := Some (next_ino s)),
                 inode := (inode s)(next_ino s := []), next_ino := next_ino s + 1\<rparr> \<and>
           frame t s' \<and> inode s' = (inode s)(next_ino s := M) \<and> quiet s'"
proof -
  let ?fd = "next_fd s" and ?i = "next_ino s"
  from create_entries_quiet [OF assms(1-3,6), of dbg M] assms(4) obtain s1 t where
    s1: "log_create_write dbg path M (int (length M)) s =
          (case logdb_io_pwrite ?fd (take 6 M) 0 s1 of (left, u) \<Rightarrow>
             if left \<noteq> 0 then logwritefail ?fd path u else Done (logdb_log_new ?fd path u))"
      "t = (popped s)\<lparr>fds := (fds s)(?fd := Some \<lparr>f_ino = ?i, f_pos = 0, f_append = True\<rparr>),
                 next_fd := ?fd + 1, dir := (dir s)(path := Some ?i), inode := (inode s)(?i := []), next_ino := ?i + 1\<rparr>"
      "frame t s1" "inode s1 = (inode s)(?i := headless M)" "quiet s1"
    by auto
  have t: "fds t ?fd = Some \<lparr>f_ino = ?i, f_pos = 0, f_append = True\<rparr>" "dir t path \<noteq> None"
    "pwrite_appends t = pwrite_appends s" by (simp_all add: s1(2))
  obtain f1 where f1: "fds s1 ?fd = Some f1" "f_ino f1 = ?i" "f_append f1"
    using frame_fd [OF s1(3) t(1)] by auto
  have na: "\<not> pwrite_appends s1" using s1(3) t(3) assms(3) by (simp add: frame_def)
  obtain left2 s2 where w2: "logdb_io_pwrite ?fd (take 6 M) 0 s1 = (left2, s2)" by fastforce
  note p2 = pwrite_changes [OF w2 f1(1)] logdb_io_pwrite_spec [OF w2 f1(1)]
  have l2: "left2 = 0" using p2(3) na s1(5) by simp
  have F1: "file_of s1 ?fd = headless M" using f1(1,2) s1(4) by (simp add: file_of_def)
  have c2: "frame s1 s2" "inode s2 = (inode s)(?i := M)" "quiet s2"
    using p2(1) p2(6) na f1 l2 F1 headless_filled [OF assms(5)] s1(4,5) min_absorb2 [OF assms(5)] by (simp_all add: changes_def)
  have dir2: "dir s2 path \<noteq> None" using frame_trans [OF s1(3) c2(1)] t(2) by (simp add: frame_def)
  obtain s3 where s3: "logdb_log_new ?fd path s2 = (Some \<lparr>l_fd = ?fd, l_path = Some path, l_lock = []\<rparr>, s3)" "same_data s2 s3" "quiet s3"
    using log_new_quiet [OF c2(3) dir2] by blast
  have "log_create_write dbg path M (int (length M)) s = Done (Some \<lparr>l_fd = ?fd, l_path = Some path, l_lock = []\<rparr>, s3)"
    unfolding s1(1) using w2 l2 s3(1) by simp
  moreover have "frame t s3" "inode s3 = (inode s)(?i := M)"
    using frame_trans [OF frame_trans [OF s1(3) c2(1)], of s3] s3(2) c2(2) by (simp_all add: same_data_def)
  ultimately show ?thesis using s1(2) s3(3) by blast
qed

lemma create_find_quiet:
  assumes "quiet s" "fds s fd = Some f" "file_of s fd = X @ M @ le32 (of_nat (length M + 4))" "6 \<le> length X" "6 \<le> length M"
    and "length M + 4 < 4294967296" "take 6 M = logdb_log_header"
  shows "\<exists>s'. log_create_find fd (int (length (file_of s fd))) s = Done (Some (Some M, int (length M)), s') \<and>
              same_data s s' \<and> quiet s'"
proof -
  let ?F = "file_of s fd" and ?n = "length M + 4"
  have lenF: "length ?F = length X + ?n" by (simp add: assms(3))
  have big: "int (length ?F) \<ge> int LOGDB_MIN_SIZE" using lenF assms(4,5) by (simp add: size_defs)
  let ?s1 = "set_pos s fd (length X + length M)"
  have l1: "sys_lseek fd (- int sizeof_trailer) SEEK_END s = (int (length X + length M), ?s1)"
  proof -
    have e: "int (length ?F) + (- int sizeof_trailer) = int (length X + length M)" using lenF by (simp add: size_defs)
    have "sys_lseek fd (- int sizeof_trailer) SEEK_END s =
        (int (length ?F) + (- int sizeof_trailer), set_pos s fd (nat (int (length ?F) + (- int sizeof_trailer))))"
      by (rule lseek_ok [OF assms(2)]) (simp_all only: e whence.case of_nat_0_le_iff)
    then show ?thesis unfolding e nat_int .
  qed
  have fd1: "fds ?s1 fd = Some (f\<lparr>f_pos := length X + length M\<rparr>)" by (rule set_pos_fd [OF assms(2)])
  have F1: "file_of ?s1 fd = ?F" by simp
  have q1: "quiet ?s1" using assms(1) by simp
  obtain s2 where s2: "logdb_io_read fd 4 ?s1 = (0, seg ?F (length X + length M) 4, s2)" "quiet s2" "same_data ?s1 s2"
      "fds s2 fd = Some (f\<lparr>f_pos := length X + length M + 4\<rparr>)"
    using read_quiet_same [OF q1 fd1, of 4] F1 lenF by auto
  have tr: "seg ?F (length X + length M) 4 = le32 (of_nat ?n)" unfolding assms(3) by (simp add: seg_def)
  have un: "uint (of_nat ?n :: 32 word) = int ?n" using assms(6) unat_small [of ?n] by (metis uint_nat)
  have same2: "same_data s s2" by (rule same_data_trans [OF same_data_steps(3) s2(3)])
  have F2: "file_of s2 fd = ?F" by (rule same_data_file [OF same2])
  let ?s3 = "set_pos s2 fd (length X)"
  have l3: "sys_lseek fd (- int ?n) SEEK_END s2 = (int (length X), ?s3)"
  proof -
    have e: "int (length ?F) + (- int ?n) = int (length X)" using lenF by simp
    have "sys_lseek fd (- int ?n) SEEK_END s2 = (int (length ?F) + (- int ?n), set_pos s2 fd (nat (int (length ?F) + (- int ?n))))"
      by (rule lseek_ok [OF s2(4)]) (simp_all only: e F2 whence.case of_nat_0_le_iff)
    then show ?thesis unfolding e nat_int .
  qed
  have fd3: "fds ?s3 fd = Some (f\<lparr>f_pos := length X\<rparr>)" using set_pos_fd [OF s2(4)] by simp
  have F3: "file_of ?s3 fd = ?F" unfolding file_of_set_pos by (rule F2)
  have q3: "quiet ?s3" using s2(2) by simp
  have m: "6 + (length M - 6) = length M" using assms(5) by simp
  have len3: "length (file_of ?s3 fd) = f_pos (f\<lparr>f_pos := length X\<rparr>) + 6 + (length M - 6) + 4"
    unfolding F3 lenF using assms(5) by simp
  have hd3: "take 6 (drop (f_pos (f\<lparr>f_pos := length X\<rparr>)) (file_of ?s3 fd)) = logdb_log_header"
    unfolding F3 assms(3) using assms(5,7) by simp
  have small: "length M - 6 + 4 < (2 :: nat) ^ 62" using assms(6) by simp
  have sM: "seg ?F (length X) (length M) = M" unfolding assms(3) by (simp add: seg_def)
  from log_read_quiet [OF q3 fd3 len3 small hd3, of LOGDB_READ_HAS_TRAILER] obtain s4 where
    s4: "logdb_log_read fd LOGDB_READ_HAS_TRAILER ?s3 = Done (LB_Block M, s4)" "same_data ?s3 s4" "quiet s4"
    unfolding m F3 by (auto simp: sM)
  have lg: "(int ?n - int sizeof_trailer) mod 2 ^ 64 = int (length M)"
  proof -
    have "int ?n - int sizeof_trailer = int (length M)" by (simp add: size_defs)
    moreover have "int (length M) mod 2 ^ 64 = int (length M)" using assms(6) by (intro mod_pos_pos_trivial) simp_all
    ultimately show ?thesis by (simp only:)
  qed
  define w :: "32 word" where "w = of_nat ?n"
  define N where "N = int ?n"
  have st: "sizeof_trailer = 4" by (simp add: size_defs)
  have nn: "int (length X + length M) \<noteq> -1" "int (length X) \<noteq> -1" by simp_all
  have l1': "sys_lseek fd (- 4) SEEK_END s = (int (length X + length M), ?s1)" using l1 by (simp add: st)
  have "log_create_find fd (int (length ?F)) s = Done (Some (Some M, int (length M)), s4)"
    unfolding log_create_find_def if_P [OF big]
    using l1' nn s2(1) tr [folded w_def] l3 [folded N_def] un [folded N_def w_def] s4(1) lg [folded N_def]
    by (simp add: Let_def st)
  moreover have "same_data s s4" using same_data_trans [OF same_data_trans [OF same2 same_data_steps(3)] s4(2)] .
  ultimately show ?thesis using s4(3) by blast
qed


section \<open>What is visible of the file system\<close>

definition keys :: "os \<Rightarrow> int \<Rightarrow> (nat \<times> bool) option" where
  "keys s fd = map_option fd_key (fds s fd)"

definition same_env :: "os \<Rightarrow> os \<Rightarrow> bool" where
  "same_env s s' \<longleftrightarrow>
     pwrite_appends s' = pwrite_appends s \<and> other_locks s' = other_locks s \<and> other_flock s' = other_flock s \<and>
     test_env s' = test_env s \<and> stack_junk s' = stack_junk s \<and> set (sched s') \<subseteq> set (sched s)"

definition same_names :: "os \<Rightarrow> os \<Rightarrow> bool" where
  "same_names s s' \<longleftrightarrow> dir s' = dir s \<and> next_ino s' = next_ino s \<and> next_fd s' = next_fd s \<and> keys s' = keys s"

lemma same_env_trans: "same_env s t \<Longrightarrow> same_env t u \<Longrightarrow> same_env s u"
  by (auto simp: same_env_def)

lemma same_names_trans: "same_names s t \<Longrightarrow> same_names t u \<Longrightarrow> same_names s u"
  by (simp add: same_names_def)

lemma frame_same: "frame s s' \<Longrightarrow> same_env s s' \<and> same_names s s'"
  by (auto simp: frame_def same_env_def same_names_def keys_def)

lemma same_data_same: "same_data s s' \<Longrightarrow> same_env s s' \<and> same_names s s' \<and> inode s' = inode s"
  by (simp add: same_data_def frame_same)

lemma same_env_quiet: "same_env s s' \<Longrightarrow> quiet s \<Longrightarrow> quiet s'"
  by (auto simp: same_env_def quiet_def list_all_iff)

lemma keys_fd: "keys s fd = Some (i, a) \<longleftrightarrow> (\<exists>f. fds s fd = Some f \<and> f_ino f = i \<and> f_append f = a)"
  by (auto simp: keys_def fd_key_def)

lemma file_keys: "keys s fd = Some (i, a) \<Longrightarrow> file_of s fd = inode s i"
  by (auto simp: keys_fd file_of_def)

text \<open>
  The log that creation finds in a database file: the part before the trailer, or just a header when
  the file is too short for one.
\<close>

definition log_in :: "byte list \<Rightarrow> byte list \<Rightarrow> bool" where
  "log_in F M \<longleftrightarrow>
     take 6 M = logdb_log_header \<and> length M + 4 < 4294967296 \<and>
     (M = logdb_log_header \<and> length F < LOGDB_MIN_SIZE \<or>
      length M + 10 \<le> length F \<and> drop (length F - (length M + 4)) F = M @ le32 (of_nat (length M + 4)))"

lemma log_in_end:
  assumes "take 6 M = logdb_log_header" "length M + 4 < 4294967296" "6 \<le> length X"
  shows "log_in (X @ M @ le32 (of_nat (length M + 4))) M"
  using assms by (simp add: log_in_def)

lemma log_create_block:
  assumes "quiet s" "fds s fd = Some f" "log_in (file_of s fd) M"
  shows "\<exists>s'. logdb_log_create dbg path fd s = log_create_write dbg path M (int (length M)) s' \<and> same_data s s' \<and> quiet s'"
proof -
  let ?F = "file_of s fd"
  let ?s1 = "set_pos s fd (length ?F)"
  have "sys_lseek fd 0 SEEK_END s = (int (length ?F) + 0, set_pos s fd (nat (int (length ?F) + 0)))"
    by (rule lseek_ok [OF assms(2)]) simp_all
  then have l1: "sys_lseek fd 0 SEEK_END s = (int (length ?F), ?s1)" by (simp only: add_0_right nat_int)
  have fd1: "fds ?s1 fd = Some (f\<lparr>f_pos := length ?F\<rparr>)" by (rule set_pos_fd [OF assms(2)])
  have q1: "quiet ?s1" using assms(1) by simp
  have nn: "int (length ?F) \<noteq> -1" by simp
  have M: "6 \<le> length M" "take 6 M = logdb_log_header" "length M + 4 < 4294967296"
    using assms(3) take_eq_length [of 6 M logdb_log_header] by (simp_all add: log_in_def)
  show ?thesis
  proof (cases "length ?F < LOGDB_MIN_SIZE \<and> M = logdb_log_header")
    case True
    then have "log_create_find fd (int (length ?F)) ?s1 = Done (Some (None, int sizeof_log_header), ?s1)"
      by (simp add: log_create_find_def)
    moreover have "sys_malloc ?s1 = (True, popped ?s1)"
      using quiet_event [OF q1] by (simp add: sys_malloc_def pop_eq Let_def)
    ultimately have "logdb_log_create dbg path fd s = log_create_write dbg path M (int (length M)) (popped ?s1)"
      using True unfolding logdb_log_create_def l1 prod.case if_not_P [OF nn] by (simp add: size_defs)
    then show ?thesis
      using same_data_trans [OF same_data_steps(3) same_data_steps(1)] q1 by (intro exI [of _ "popped ?s1"]) simp
  next
    case False
    then have D: "length M + 10 \<le> length ?F" "drop (length ?F - (length M + 4)) ?F = M @ le32 (of_nat (length M + 4))"
      using assms(3) by (auto simp: log_in_def)
    let ?X = "take (length ?F - (length M + 4)) ?F"
    have F: "?F = ?X @ M @ le32 (of_nat (length M + 4))" by (metis D(2) append_take_drop_id)
    have X: "6 \<le> length ?X" using D(1) by simp
    from create_find_quiet [OF q1 fd1 _ X M(1,3,2)] F obtain s2 where
      s2: "log_create_find fd (int (length ?F)) ?s1 = Done (Some (Some M, int (length M)), s2)" "same_data ?s1 s2" "quiet s2"
      by (metis file_of_set_pos)
    have "logdb_log_create dbg path fd s = log_create_write dbg path M (int (length M)) s2"
      unfolding logdb_log_create_def l1 prod.case if_not_P [OF nn] s2(1) by simp
    then show ?thesis using same_data_trans [OF same_data_steps(3) s2(2)] s2(3) by blast
  qed
qed

lemma log_create_quiet:
  assumes "quiet s" "fds s fd = Some f" "log_in (file_of s fd) M" "dir s path = None" "\<not> pwrite_appends s"
    and "\<not> (dbg \<and> test_env s)" "0 \<le> next_fd s"
  shows "\<exists>s'. logdb_log_create dbg path fd s = Done (Some \<lparr>l_fd = next_fd s, l_path = Some path, l_lock = []\<rparr>, s') \<and>
           same_env s s' \<and> quiet s' \<and> dir s' = (dir s)(path := Some (next_ino s)) \<and>
           inode s' = (inode s)(next_ino s := M) \<and> next_ino s' = Suc (next_ino s) \<and> next_fd s' = next_fd s + 1 \<and>
           keys s' = (keys s)(next_fd s := Some (next_ino s, True))"
proof -
  obtain s2 where s2: "logdb_log_create dbg path fd s = log_create_write dbg path M (int (length M)) s2" "same_data s s2" "quiet s2"
    using log_create_block [OF assms(1-3)] by blast
  note same2 = s2(2)
  then have f2: "dir s2 = dir s" "next_ino s2 = next_ino s" "next_fd s2 = next_fd s" "pwrite_appends s2 = pwrite_appends s"
    "test_env s2 = test_env s" "inode s2 = inode s" "keys s2 = keys s"
    using same_data_same [OF same2] by (simp_all add: same_env_def same_names_def)
  have M: "6 \<le> length M" using assms(3) take_eq_length [of 6 M logdb_log_header] by (simp add: log_in_def)
  from create_write_quiet [OF s2(3), of path dbg M] M assms(4-7) f2 obtain s3 t where
    s3: "log_create_write dbg path M (int (length M)) s2 = Done (Some \<lparr>l_fd = next_fd s, l_path = Some path, l_lock = []\<rparr>, s3)"
      "t = (popped s2)\<lparr>fds := (fds s2)(next_fd s := Some \<lparr>f_ino = next_ino s, f_pos = 0, f_append = True\<rparr>),
                 next_fd := next_fd s + 1, dir := (dir s)(path := Some (next_ino s)),
                 inode := (inode s)(next_ino s := []), next_ino := next_ino s + 1\<rparr>"
      "frame t s3" "inode s3 = (inode s)(next_ino s := M)" "quiet s3"
    by auto
  have run: "logdb_log_create dbg path fd s = Done (Some \<lparr>l_fd = next_fd s, l_path = Some path, l_lock = []\<rparr>, s3)"
    using s2(1) s3(1) by simp
  have "same_env s2 t" by (auto simp: s3(2) same_env_def dest: tl_subset [THEN subsetD])
  then have "same_env s s3"
    using same_env_trans [OF same_env_trans] same_data_same [OF same2] frame_same [OF s3(3)] by blast
  moreover have "keys t = (keys s)(next_fd s := Some (next_ino s, True))"
    using f2(7) by (auto simp: s3(2) keys_def fd_key_def fun_eq_iff)
  ultimately show ?thesis
    using run s3(3-5) frame_same [OF s3(3)]
    by (intro exI [of _ s3]) (simp add: same_names_def s3(2))
qed

section \<open>Opening\<close>

lemma open_old_quiet:
  assumes "quiet s" "dir s path = Some i" "\<not> (o_creat fl \<and> o_excl fl)"
  shows "sys_open path fl s =
     (next_fd s, (popped s)\<lparr>fds := (fds s)(next_fd s := Some \<lparr>f_ino = i, f_pos = 0, f_append = o_append fl\<rparr>),
         next_fd := next_fd s + 1\<rparr>)"
  using quiet_event [OF assms(1)] assms(2,3) by (auto simp: sys_open_def pop_eq Let_def)

lemma open_header_quiet:
  assumes "quiet s" "fds s fd = Some f" "f_pos f = 0" "\<not> f_append f" "take 6 (file_of s fd) = logdb_header"
  shows "\<exists>s'. open_header fd flags s = (True, s') \<and> same_data s s' \<and> quiet s'"
proof (cases "has_flag flags LOGDB_OPEN_CREATE")
  case False
  have "6 \<le> length (file_of s fd)" using arg_cong [OF assms(5), of length] by simp
  then obtain s1 where s1: "logdb_io_read fd 6 s = (0, seg (file_of s fd) 0 6, s1)" "quiet s1" "same_data s s1"
    using read_quiet_same [OF assms(1,2), of 6] assms(3) by auto
  have "seg (file_of s fd) 0 6 = logdb_header" using assms(5) by (simp add: seg_def)
  with False s1 show ?thesis by (simp add: open_header_def size_defs)
next
  case True
  obtain left s1 where w: "logdb_io_write fd logdb_header s = (left, s1)" by fastforce
  note sp = logdb_io_write_spec [OF w assms(2)]
  have q: "quiet s1" "left = 0" using sp(3) assms(1) by simp_all
  have pos: "write_pos s fd = 0" using assms(2-4) by (simp add: write_pos_def)
  have F: "write_at (file_of s fd) 0 logdb_header = file_of s fd"
  proof -
    have "file_of s fd = logdb_header @ drop 6 (file_of s fd)" using assms(5) by (metis append_take_drop_id)
    moreover have "write_at (logdb_header @ drop 6 (file_of s fd)) 0 logdb_header = logdb_header @ drop 6 (file_of s fd)"
      by (simp add: write_at_def)
    ultimately show ?thesis by metis
  qed
  obtain p where s1: "s1 = set_pos (set_file (resched s (sched s1)) (f_ino f) (write_at (file_of s fd) 0 logdb_header)) fd p"
    using sp(2) q(2) pos by auto
  have same: "set_file (resched s (sched s1)) (f_ino f) (file_of s fd) = resched s (sched s1)"
    using assms(2) by (simp add: file_of_def)
  have sub: "set (sched s1) \<subseteq> set (sched s)" using logdb_io_sched(2) [of fd logdb_header s] w by simp
  have "same_data s (set_pos (resched s (sched s1)) fd p)"
    using same_data_trans [OF same_data_steps(4) [OF sub] same_data_steps(3)] .
  then have "same_data s s1" using s1 [unfolded F same] by simp
  with True w q show ?thesis by (simp add: open_header_def)
qed


lemma quiet_sched: "set (sched t) \<subseteq> set (sched s) \<Longrightarrow> quiet s \<Longrightarrow> quiet t"
  by (auto simp: quiet_def list_all_iff)

lemma pass_calls:
  assumes "quiet s"
  shows "sys_malloc s = (True, popped s)" "sys_pthread s = (True, popped s)"
  using quiet_event [OF assms] by (simp_all add: sys_malloc_def sys_pthread_def pop_eq Let_def)

lemma flock_ok:
  assumes "quiet s" "fds s fd = Some f" "other_flock s (f_ino f) = L_None"
  shows "sys_flock_ex_nb fd s = (0, (popped s)\<lparr>my_flock := (my_flock s)(fd := L_Exclusive)\<rparr>)"
    "sys_flock_sh fd s = Done (0, (popped s)\<lparr>my_flock := (my_flock s)(fd := L_Shared)\<rparr>)"
  using quiet_event [OF assms(1)] assms(2,3)
  by (simp_all add: sys_flock_ex_nb_def sys_flock_sh_def pop_eq Let_def)

lemma flock_same:
  "same_env s ((popped s)\<lparr>my_flock := F\<rparr>)" "same_names s ((popped s)\<lparr>my_flock := F\<rparr>)"
  by (auto simp: same_env_def same_names_def keys_def fun_eq_iff dest: tl_subset [THEN subsetD])

lemma open_log_quiet:
  assumes "quiet s" "fds s fd = Some f" "log_in (file_of s fd) M" "dir s path = None" "\<not> pwrite_appends s"
    and "\<not> (dbg \<and> test_env s)" "0 \<le> next_fd s" "fd < next_fd s" "\<forall>i. other_flock s i = L_None"
  shows "\<exists>s'. open_log 2 dbg path fd nosync True s = Done (Some \<lparr>l_fd = next_fd s, l_path = Some path, l_lock = []\<rparr>, s') \<and>
           same_env s s' \<and> dir s' = (dir s)(path := Some (next_ino s)) \<and>
           inode s' = (inode s)(next_ino s := M) \<and> next_ino s' = Suc (next_ino s) \<and> next_fd s' = next_fd s + 1 \<and>
           keys s' = (keys s)(next_fd s := Some (next_ino s, True))"
proof -
  let ?s1 = "(popped s)\<lparr>my_flock := (my_flock s)(fd := L_Exclusive)\<rparr>" and ?log = "\<lparr>l_fd = next_fd s, l_path = Some path, l_lock = []\<rparr>"
  have fl: "sys_flock_ex_nb fd s = (0, ?s1)" using flock_ok(1) [OF assms(1,2)] assms(9) by simp
  have q1: "quiet ?s1" by (rule same_env_quiet [OF flock_same(1) assms(1)])
  have "fds ?s1 fd = Some f" "file_of ?s1 fd = file_of s fd" using assms(2) by (simp_all add: file_of_def)
  from log_create_quiet [OF q1 this(1), of M path dbg] this(2) assms(3-7) obtain s2 where
    s2: "logdb_log_create dbg path fd ?s1 = Done (Some ?log, s2)" "same_env ?s1 s2" "quiet s2" "dir s2 = (dir s)(path := Some (next_ino s))"
      "inode s2 = (inode s)(next_ino s := M)" "next_ino s2 = Suc (next_ino s)" "next_fd s2 = next_fd s + 1"
      "keys s2 = (keys ?s1)(next_fd s := Some (next_ino s, True))"
    by auto
  have env2: "same_env s s2" by (rule same_env_trans [OF flock_same(1) s2(2)])
  have keys2: "keys s2 = (keys s)(next_fd s := Some (next_ino s, True))"
    using s2(8) by (simp add: keys_def fun_eq_iff)
  have c: "open_create_locked 2 dbg path fd True ?s1 = Done (Some ?log, False, True, s2)"
    using s2(1) by (simp add: numeral_2_eq_2)
  show ?thesis
  proof (cases nosync)
    case True
    then have "open_log 2 dbg path fd nosync True s = Done (Some ?log, s2)"
      using fl c by (simp add: numeral_2_eq_2)
    with env2 s2 keys2 show ?thesis by blast
  next
    case False
    have "keys s2 fd = Some (f_ino f, f_append f)" using keys2 assms(2,8) by (simp add: keys_def fd_key_def)
    then obtain f2 where f2: "fds s2 fd = Some f2" by (auto simp: keys_fd)
    let ?s3 = "(popped s2)\<lparr>my_flock := (my_flock s2)(fd := L_Shared)\<rparr>"
    have "other_flock s2 = other_flock s" using env2 by (simp add: same_env_def)
    then have "sys_flock_sh fd s2 = Done (0, ?s3)" using flock_ok(2) [OF s2(3) f2] assms(9) by simp
    then have "open_log 2 dbg path fd nosync True s = Done (Some ?log, ?s3)"
      using fl c False by (simp add: numeral_2_eq_2)
    moreover have "same_env s ?s3" by (rule same_env_trans [OF env2 flock_same(1)])
    moreover have "keys ?s3 = (keys s)(next_fd s := Some (next_ino s, True))"
      using keys2 by (simp add: keys_def fun_eq_iff)
    ultimately show ?thesis using s2(4-7) by (intro exI [of _ ?s3]) simp
  qed
qed

definition opened :: "os \<Rightarrow> string \<Rightarrow> 32 word \<Rightarrow> logdb_connection_t" where
  "opened s path flags =
     \<lparr>c_version = LOGDB_VERSION, c_readers = 0, c_flags = flags, c_fd = next_fd s,
      c_log = \<lparr>l_fd = next_fd s + 1, l_path = Some (path @ LOGDB_LOG_FILE_SUFFIX), l_lock = []\<rparr>,
      c_current_txn = (\<lambda>_. 0), c_alive = True\<rparr>"

lemma suffix_differs: "path @ LOGDB_LOG_FILE_SUFFIX \<noteq> path"
  by (simp add: LOGDB_LOG_FILE_SUFFIX_def)

text \<open>From the header on, opening an old file and a new one are the same.\<close>

lemma logdb_open_from:
  assumes "quiet s" "sys_open path \<lparr>o_creat = has_flag flags LOGDB_OPEN_CREATE, o_excl = False, o_append = False\<rparr> (popped s) = (next_fd s, s2)"
    and "open_header (next_fd s) flags s2 = (True, s3)" "same_env s s3" "next_fd s3 = next_fd s + 1" "keys s3 (next_fd s) \<noteq> None"
    and "log_in (file_of s3 (next_fd s)) M" "dir s3 (path @ LOGDB_LOG_FILE_SUFFIX) = None" "\<not> pwrite_appends s"
    and "\<not> (dbg \<and> test_env s)" "0 \<le> next_fd s" "\<forall>i. other_flock s i = L_None"
  shows "\<exists>s'. logdb_open dbg (Some path) flags s = Done (Some (opened s path flags), s') \<and>
           same_env s s' \<and> dir s' = (dir s3)(path @ LOGDB_LOG_FILE_SUFFIX := Some (next_ino s3)) \<and>
           inode s' = (inode s3)(next_ino s3 := M) \<and> next_ino s' = Suc (next_ino s3) \<and> next_fd s' = next_fd s + 2 \<and>
           keys s' = (keys s3)(next_fd s + 1 := Some (next_ino s3, True))"
proof -
  let ?fd = "next_fd s" and ?lp = "path @ LOGDB_LOG_FILE_SUFFIX"
  have q3: "quiet s3" by (rule same_env_quiet [OF assms(4,1)])
  obtain f3 where f3: "fds s3 ?fd = Some f3" using assms(6) by (auto simp: keys_def)
  have e3: "\<not> pwrite_appends s3" "\<not> (dbg \<and> test_env s3)" "\<forall>i. other_flock s3 i = L_None" "0 \<le> next_fd s3" "?fd < next_fd s3"
    using assms(4,5,9-12) by (auto simp: same_env_def)
  from open_log_quiet [OF q3 f3 assms(7,8) e3(1,2,4,5,3), of "has_flag flags LOGDB_OPEN_NOSYNC"] assms(5)
  obtain s4 where s4: "open_log 2 dbg ?lp ?fd (has_flag flags LOGDB_OPEN_NOSYNC) True s3 =
        Done (Some \<lparr>l_fd = ?fd + 1, l_path = Some ?lp, l_lock = []\<rparr>, s4)" "same_env s3 s4"
      "dir s4 = (dir s3)(?lp := Some (next_ino s3))" "inode s4 = (inode s3)(next_ino s3 := M)" "next_ino s4 = Suc (next_ino s3)"
      "next_fd s4 = ?fd + 2" "keys s4 = (keys s3)(?fd + 1 := Some (next_ino s3, True))"
    by auto
  have q4: "quiet s4" by (rule same_env_quiet [OF s4(2) q3])
  let ?s7 = "popped (popped (popped s4))"
  have mallocs: "sys_malloc s4 = (True, popped s4)" "sys_malloc (popped s4) = (True, popped (popped s4))"
    "sys_malloc (popped (popped s4)) = (True, ?s7)"
    using pass_calls(1) q4 by simp_all
  have nn: "?fd \<noteq> -1" using assms(11) by simp
  have run: "logdb_open dbg (Some path) flags s = Done (Some (opened s path flags), ?s7)"
    using pass_calls(1) [OF assms(1)] assms(2,3) nn s4(1) mallocs by (simp add: logdb_open_def Let_def opened_def)
  have same7: "same_data s4 ?s7" using same_data_trans [OF same_data_trans [OF same_data_steps(1) same_data_steps(1)] same_data_steps(1)] .
  have "same_env s ?s7" using same_env_trans [OF same_env_trans [OF assms(4) s4(2)]] same_data_same [OF same7] by blast
  moreover have "keys ?s7 = (keys s3)(?fd + 1 := Some (next_ino s3, True))"
    using same_data_same [OF same7] s4(7) by (simp add: same_names_def)
  ultimately show ?thesis using run s4(3-6) by (intro exI [of _ ?s7]) simp
qed

lemma logdb_open_quiet:
  assumes "quiet s" "dir s path = Some i" "log_in (inode s i) M" "take 6 (inode s i) = logdb_header"
    and "dir s (path @ LOGDB_LOG_FILE_SUFFIX) = None" "\<not> pwrite_appends s"
    and "\<not> (dbg \<and> test_env s)" "0 \<le> next_fd s" "\<forall>i. other_flock s i = L_None"
  shows "\<exists>s'. logdb_open dbg (Some path) flags s = Done (Some (opened s path flags), s') \<and>
           same_env s s' \<and> dir s' = (dir s)(path @ LOGDB_LOG_FILE_SUFFIX := Some (next_ino s)) \<and>
           inode s' = (inode s)(next_ino s := M) \<and> next_ino s' = Suc (next_ino s) \<and> next_fd s' = next_fd s + 2 \<and>
           keys s' = (keys s)(next_fd s := Some (i, False), next_fd s + 1 := Some (next_ino s, True))"
proof -
  let ?fd = "next_fd s" and ?f = "\<lparr>f_ino = i, f_pos = 0, f_append = False\<rparr>"
  let ?s1 = "popped s"
  let ?s2 = "(popped ?s1)\<lparr>fds := (fds s)(?fd := Some ?f), next_fd := ?fd + 1\<rparr>"
  have q1: "quiet ?s1" using assms(1) by simp
  have o: "sys_open path \<lparr>o_creat = has_flag flags LOGDB_OPEN_CREATE, o_excl = False, o_append = False\<rparr> ?s1 = (?fd, ?s2)"
    using open_old_quiet [OF q1, of path i "\<lparr>o_creat = has_flag flags LOGDB_OPEN_CREATE, o_excl = False, o_append = False\<rparr>"] assms(2) by simp
  have "set (sched ?s2) \<subseteq> set (sched s)" using tl_subset [of "tl (sched s)"] tl_subset [of "sched s"] by auto
  then have e2: "same_env s ?s2" by (simp add: same_env_def)
  have q2: "quiet ?s2" by (rule same_env_quiet [OF e2 assms(1)])
  have F2: "fds ?s2 ?fd = Some ?f" "file_of ?s2 ?fd = inode s i" by (simp_all add: file_of_def)
  have h2: "take 6 (file_of ?s2 ?fd) = logdb_header" using F2(2) assms(4) by simp
  obtain s3 where s3: "open_header ?fd flags ?s2 = (True, s3)" "same_data ?s2 s3"
    using open_header_quiet [OF q2 F2(1) _ _ h2, of flags] by auto
  have e3: "same_env s s3" "dir s3 = dir s" "inode s3 = inode s" "next_ino s3 = next_ino s" "next_fd s3 = ?fd + 1" "keys s3 = keys ?s2"
    using same_data_same [OF s3(2)] same_env_trans [OF e2] by (simp_all add: same_names_def)
  have k2: "keys ?s2 = (keys s)(?fd := Some (i, False))" by (simp add: keys_def fd_key_def fun_eq_iff)
  have "keys s3 ?fd = Some (i, False)" using k2 e3(6) by simp
  then have "file_of s3 ?fd = inode s i" "keys s3 ?fd \<noteq> None" using file_keys [of s3 ?fd i False] e3(3) by simp_all
  with logdb_open_from [OF assms(1) o s3(1) e3(1,5), of M dbg] assms(3,5-9) e3(2-4) show ?thesis
    by (simp add: e3(6) k2)
qed

text \<open>A file that is not there yet.\<close>

lemma logdb_open_fresh:
  assumes "quiet s" "dir s path = None" "dir s (path @ LOGDB_LOG_FILE_SUFFIX) = None" "has_flag flags LOGDB_OPEN_CREATE"
    and "\<not> pwrite_appends s" "\<not> (dbg \<and> test_env s)" "0 \<le> next_fd s" "\<forall>i. other_flock s i = L_None"
  shows "\<exists>s'. logdb_open dbg (Some path) flags s = Done (Some (opened s path flags), s') \<and>
           same_env s s' \<and> dir s' = (dir s)(path := Some (next_ino s), path @ LOGDB_LOG_FILE_SUFFIX := Some (Suc (next_ino s))) \<and>
           inode s' = (inode s)(next_ino s := logdb_header, Suc (next_ino s) := logdb_log_header) \<and>
           next_ino s' = next_ino s + 2 \<and> next_fd s' = next_fd s + 2 \<and>
           keys s' = (keys s)(next_fd s := Some (next_ino s, False), next_fd s + 1 := Some (Suc (next_ino s), True))"
proof -
  let ?fd = "next_fd s" and ?i = "next_ino s" and ?f = "\<lparr>f_ino = next_ino s, f_pos = 0, f_append = False\<rparr>"
  let ?s1 = "popped s"
  let ?s2 = "(popped ?s1)\<lparr>fds := (fds s)(?fd := Some ?f), next_fd := ?fd + 1, dir := (dir s)(path := Some ?i),
      inode := (inode s)(?i := []), next_ino := ?i + 1\<rparr>"
  have q1: "quiet ?s1" using assms(1) by simp
  have o: "sys_open path \<lparr>o_creat = has_flag flags LOGDB_OPEN_CREATE, o_excl = False, o_append = False\<rparr> ?s1 = (?fd, ?s2)"
    using open_new_quiet [OF q1, of path "\<lparr>o_creat = has_flag flags LOGDB_OPEN_CREATE, o_excl = False, o_append = False\<rparr>"] assms(2,4) by simp
  have "set (sched ?s2) \<subseteq> set (sched s)" using tl_subset [of "tl (sched s)"] tl_subset [of "sched s"] by auto
  then have e2: "same_env s ?s2" by (simp add: same_env_def)
  have q2: "quiet ?s2" by (rule same_env_quiet [OF e2 assms(1)])
  have F2: "fds ?s2 ?fd = Some ?f" "f_pos ?f = length (file_of ?s2 ?fd)" "file_of ?s2 ?fd = []" by (simp_all add: file_of_def)
  obtain s3 where s3: "logdb_io_write ?fd logdb_header ?s2 = (0, s3)" "frame ?s2 s3" "inode s3 = (inode s)(?i := logdb_header)"
    using write_end_quiet [OF q2 F2(1,2), of logdb_header] F2(3) by auto
  have h: "open_header ?fd flags ?s2 = (True, s3)" using s3(1) assms(4) by (simp add: open_header_def)
  have e3: "same_env s s3" "dir s3 = (dir s)(path := Some ?i)" "next_ino s3 = Suc ?i" "next_fd s3 = ?fd + 1" "keys s3 = keys ?s2"
    using frame_same [OF s3(2)] same_env_trans [OF e2] by (simp_all add: same_names_def)
  have k2: "keys ?s2 = (keys s)(?fd := Some (?i, False))" by (simp add: keys_def fd_key_def fun_eq_iff)
  have k3: "keys s3 = (keys s)(?fd := Some (?i, False))" by (simp only: e3(5) k2)
  then have "keys s3 ?fd = Some (?i, False)" by simp
  then have "file_of s3 ?fd = logdb_header" "keys s3 ?fd \<noteq> None" using file_keys [of s3 ?fd ?i False] s3(3) by simp_all
  moreover have "log_in logdb_header logdb_log_header" by (simp add: log_in_def size_defs)
  moreover have "dir s3 (path @ LOGDB_LOG_FILE_SUFFIX) = None" using e3(2) assms(3) suffix_differs [of path] by simp
  ultimately show ?thesis
    using logdb_open_from [OF assms(1) o h e3(1,4), of logdb_log_header dbg] assms(5-8) e3(2,3) s3(3)
    by (simp add: k3)
qed

section \<open>Closing\<close>

lemma keys_frame: "frame s s' \<Longrightarrow> keys s' = keys s"
  using frame_same by (simp add: same_names_def)

lemma sys_close_same:
  "same_env s (sys_close fd s)" "dir (sys_close fd s) = dir s" "inode (sys_close fd s) = inode s"
  "next_ino (sys_close fd s) = next_ino s" "next_fd (sys_close fd s) = next_fd s" "keys (sys_close fd s) = (keys s)(fd := None)"
  by (auto simp: sys_close_def same_env_def keys_def fun_eq_iff split: option.split)

lemma unlink_quiet:
  assumes "quiet s" "dir s path \<noteq> None"
  shows "snd (sys_unlink path s) = (popped s)\<lparr>dir := (dir s)(path := None)\<rparr>"
  using quiet_event [OF assms(1)] assms(2) by (auto simp: sys_unlink_def pop_eq Let_def)

lemma unlink_same:
  "same_env s ((popped s)\<lparr>dir := d\<rparr>)" "keys ((popped s)\<lparr>dir := d\<rparr>) = keys s"
  by (auto simp: same_env_def keys_def fun_eq_iff dest: tl_subset [THEN subsetD])

lemma unlock_same: "same_env s (sys_flock_un fd s)" "keys (sys_flock_un fd s) = keys s"
  "dir (sys_flock_un fd s) = dir s" "inode (sys_flock_un fd s) = inode s"
  "next_ino (sys_flock_un fd s) = next_ino s" "next_fd (sys_flock_un fd s) = next_fd s"
  by (auto simp: same_env_def sys_flock_un_def keys_def fun_eq_iff)

lemma close_files_quiet:
  assumes "quiet s" "conn_ok c s" "other_locks s = []" "\<forall>i. other_flock s i = L_None" "l_path (c_log c) = Some lp"
    and "dir s lp \<noteq> None" "take 6 (log_file c s) = logdb_log_header"
  shows "\<exists>s' i. close_files c s = Done (0, s') \<and> same_env s s' \<and> dir s' = (dir s)(lp := None) \<and>
           keys s (c_fd c) = Some (i, False) \<and>
           inode s' = (inode s)(i := merged_db (log_file c s) (db_file c s)) \<and>
           next_ino s' = next_ino s \<and> next_fd s' = next_fd s \<and>
           keys s' = (keys s)(l_fd (c_log c) := None, c_fd c := None)"
proof -
  obtain df lf where f: "fds s (c_fd c) = Some df" "fds s (l_fd (c_log c)) = Some lf" "\<not> f_append df" "f_ino df \<noteq> f_ino lf"
    by (rule conn_okE [OF assms(2)]) auto
  let ?s1 = "(popped s)\<lparr>my_flock := (my_flock s)(c_fd c := L_Exclusive)\<rparr>"
  have fl: "sys_flock_ex_nb (c_fd c) s = (0, ?s1)" using flock_ok(1) [OF assms(1) f(1)] assms(4) by simp
  have q1: "quiet ?s1" by (rule same_env_quiet [OF flock_same(1) assms(1)])
  have k1: "keys ?s1 = keys s" by (simp add: keys_def fun_eq_iff)
  have f1: "fds ?s1 (c_fd c) = Some df" "fds ?s1 (l_fd (c_log c)) = Some lf" "file_of ?s1 (l_fd (c_log c)) = log_file c s"
    "file_of ?s1 (c_fd c) = db_file c s" "other_locks ?s1 = []"
    using f assms(3) by (simp_all add: file_of_def log_file_def db_file_def)
  have "6 \<le> length (log_file c s)" "even (length (log_file c s))" "log_count (log_file c s) < 65536"
    using assms(2) by (simp_all add: conn_ok_def)
  then have L: "length (log_file c s) = 6 + 2 * log_count (log_file c s)" "log_count (log_file c s) < 65536"
    by (auto simp: log_count_def size_defs)
  from close_merge_quiet [OF q1 f1(1,2) f(4) f1(5) assms(5) L assms(7) f1(3)] obtain s2 where
    s2: "logdb_log_close_merge (c_log c) (c_fd c) ?s1 = Done (0, sys_close (l_fd (c_log c)) (snd (sys_unlink lp s2)))"
      "quiet s2" "frame ?s1 s2" "inode s2 = (inode ?s1)(f_ino df := merged_db (log_file c s) (db_file c s))"
    unfolding f1(4) by blast
  have d2: "dir s2 = dir s" "next_ino s2 = next_ino s" "next_fd s2 = next_fd s" using s2(3) by (simp_all add: frame_def)
  have e2: "same_env s s2" using same_env_trans [OF flock_same(1)] frame_same [OF s2(3)] by blast
  have k2: "keys s2 = keys s" using keys_frame [OF s2(3)] k1 by simp
  let ?s3 = "(popped s2)\<lparr>dir := (dir s2)(lp := None)\<rparr>"
  have u: "snd (sys_unlink lp s2) = ?s3" by (rule unlink_quiet [OF s2(2)]) (simp add: d2 assms(6))
  let ?s4 = "sys_close (l_fd (c_log c)) ?s3" let ?s5 = "sys_flock_un (c_fd c) ?s4" let ?s6 = "sys_close (c_fd c) ?s5"
  have run: "close_files c s = Done (0, ?s6)"
    using fl s2(1) u by (simp add: close_files_def Let_def)
  have "same_env s ?s6"
    using same_env_trans [OF same_env_trans [OF same_env_trans [OF same_env_trans [OF e2 unlink_same(1)] sys_close_same(1)] unlock_same(1)] sys_close_same(1)] .
  moreover have "keys ?s6 = (keys s)(l_fd (c_log c) := None, c_fd c := None)"
    by (simp only: sys_close_same(6) unlock_same(2) unlink_same(2) k2)
  moreover have "dir ?s6 = (dir s)(lp := None)" using d2(1) by (simp add: sys_close_same unlock_same)
  moreover have "inode ?s6 = (inode s)(f_ino df := merged_db (log_file c s) (db_file c s))"
    using s2(4) by (simp add: sys_close_same unlock_same)
  moreover have "keys s (c_fd c) = Some (f_ino df, False)" using f(1,3) by (simp add: keys_def fd_key_def)
  moreover have "next_ino ?s6 = next_ino s" "next_fd ?s6 = next_fd s" using d2 by (simp_all add: sys_close_same unlock_same)
  ultimately show ?thesis using run by blast
qed

text \<open>A connection that can be closed, in a process that is alone with its files.\<close>

definition closable :: "nat \<Rightarrow> world \<Rightarrow> bool" where
  "closable tid w \<longleftrightarrow>
     (let c = w_conn w; s = w_os w in
      ready w \<and> quiet s \<and> other_locks s = [] \<and> (\<forall>i. other_flock s i = L_None) \<and>
      (case l_path (c_log c) of None \<Rightarrow> False | Some lp \<Rightarrow> dir s lp \<noteq> None) \<and>
      take 6 (log_file c s) = logdb_log_header \<and>
      c_readers c = 0 \<and> c_alive c \<and> c_version c = LOGDB_VERSION \<and> logdb_txn_current tid w = 0)"

lemma logdb_close_quiet:
  assumes "closable tid w" "conn \<noteq> 0" "l_path (c_log (w_conn w)) = Some lp"
  shows "\<exists>w' i. logdb_close dbg tid conn w = Done (0, w') \<and> same_env (w_os w) (w_os w') \<and> dir (w_os w') = (dir (w_os w))(lp := None) \<and>
           keys (w_os w) (c_fd (w_conn w)) = Some (i, False) \<and>
           inode (w_os w') = (inode (w_os w))(i := merged_db (log_file (w_conn w) (w_os w)) (db_file (w_conn w) (w_os w))) \<and>
           next_ino (w_os w') = next_ino (w_os w) \<and> next_fd (w_os w') = next_fd (w_os w) \<and>
           keys (w_os w') = (keys (w_os w))(l_fd (c_log (w_conn w)) := None, c_fd (w_conn w) := None) \<and> w_heap w' = w_heap w \<and>
           \<not> c_alive (w_conn w')"
proof -
  let ?c = "w_conn w" and ?s = "w_os w" let ?w1 = "w\<lparr>w_os := popped ?s\<rparr>"
  have c: "ready w" "quiet ?s" "other_locks ?s = []" "\<forall>i. other_flock ?s i = L_None" "dir ?s lp \<noteq> None"
    "take 6 (log_file ?c ?s) = logdb_log_header" "c_readers ?c = 0" "c_alive ?c" "c_version ?c = LOGDB_VERSION" "logdb_txn_current tid w = 0"
    using assms(1,3) by (simp_all add: closable_def Let_def)
  have p: "sys_pthread ?s = (True, popped ?s)" by (rule pass_calls(2) [OF c(2)])
  have F: "log_file ?c (popped ?s) = log_file ?c ?s" "db_file ?c (popped ?s) = db_file ?c ?s"
    by (simp_all add: log_file_def db_file_def file_of_def split: option.split)
  have ck: "conn_ok ?c ?s" using c(1) by (simp add: ready_def)
  have "conn_ok ?c (popped ?s)" using ck unfolding conn_ok_def F by simp
  from close_files_quiet [of "popped ?s" ?c lp] this F c assms(3) obtain s2 i where
    s2: "close_files ?c (popped ?s) = Done (0, s2)" "same_env (popped ?s) s2" "dir s2 = (dir ?s)(lp := None)"
      "keys (popped ?s) (c_fd ?c) = Some (i, False)"
      "inode s2 = (inode ?s)(i := merged_db (log_file ?c ?s) (db_file ?c ?s))" "next_ino s2 = next_ino ?s" "next_fd s2 = next_fd ?s"
      "keys s2 = (keys (popped ?s))(l_fd (c_log ?c) := None, c_fd ?c := None)"
    by auto
  have kp: "keys (popped ?s) = keys ?s" by (simp add: keys_def fun_eq_iff)
  have v: "verify_connection dbg conn w = Done True" using assms(2) c by (simp add: verify_connection_def)
  let ?w2 = "\<lparr>w_os = s2, w_heap = w_heap w, w_conn = ?c\<lparr>c_version := 0, c_alive := False\<rparr>\<rparr>"
  have "logdb_close dbg tid conn w = Done (0, ?w2)"
    using v p c(7,10) s2(1) by (simp add: logdb_close_def Let_def logdb_txn_rollback_all_def logdb_txn_destruct_def logdb_txn_current_def)
  moreover have "same_env ?s s2" using same_env_trans [OF _ s2(2)] frame_same [OF frame_steps(1)] by blast
  ultimately show ?thesis using s2(3-8) unfolding kp by (intro exI [of _ ?w2] exI [of _ i]) simp
qed

section \<open>The round trip\<close>

text \<open>The names and numbers of the two files as the connection and the system keep them.\<close>

definition named :: "string \<Rightarrow> world \<Rightarrow> bool" where
  "named path w \<longleftrightarrow>
     (let s = w_os w; c = w_conn w; lp = path @ LOGDB_LOG_FILE_SUFFIX in
      l_path (c_log c) = Some lp \<and>
      (case (dir s path, dir s lp) of
         (Some i, Some j) \<Rightarrow> keys s (c_fd c) = Some (i, False) \<and> keys s (l_fd (c_log c)) = Some (j, True) \<and>
                            i < next_ino s \<and> j < next_ino s
       | _ \<Rightarrow> False) \<and>
      0 \<le> next_fd s \<and> take 6 (db_file c s) = logdb_header)"

lemma merged_front:
  assumes "take 6 D = h" "length h = 6"
  shows "take 6 (resize (merged_size L) D) = h"
proof -
  have "6 \<le> merged_size L" by (simp add: merged_size_def Let_def)
  moreover have "6 \<le> length D" using arg_cong [OF assms(1), of length] assms(2) by simp
  ultimately have "take 6 (resize (merged_size L) D) = take 6 D" by (simp add: resize_def min_absorb1)
  then show ?thesis using assms(1) by simp
qed

lemma close_then_open_files:
  assumes "closable tid w" "conn \<noteq> 0" "named path w" "\<not> (dbg \<and> test_env (w_os w))" 
  shows "\<exists>w1 s'. logdb_close dbg tid conn w = Done (0, w1) \<and> w_heap w1 = w_heap w \<and>
     logdb_open dbg (Some path) flags (w_os w1) = Done (Some (opened (w_os w) path flags), s') \<and>
     same_env (w_os w) s' \<and>
     (let w' = \<lparr>w_os = s', w_heap = w_heap w, w_conn = opened (w_os w) path flags\<rparr> in
      named path w' \<and> ready w' \<and> log_file (w_conn w') s' = merged_log (log_file (w_conn w) (w_os w)) \<and>
      db_file (w_conn w') s' = merged_db (log_file (w_conn w) (w_os w)) (db_file (w_conn w) (w_os w)))"
proof -
  let ?s = "w_os w" and ?c = "w_conn w" and ?lp = "path @ LOGDB_LOG_FILE_SUFFIX"
  let ?L = "log_file ?c ?s" and ?D = "db_file ?c ?s"
  let ?M = "merged_log ?L"
  obtain i j where ij: "dir ?s path = Some i" "dir ?s ?lp = Some j" "keys ?s (c_fd ?c) = Some (i, False)" "i < next_ino ?s"
    "l_path (c_log ?c) = Some ?lp" "0 \<le> next_fd ?s" "take 6 ?D = logdb_header"
    using assms(3) by (auto simp: named_def Let_def split: option.splits)
  obtain w1 where w1: "logdb_close dbg tid conn w = Done (0, w1)" "same_env ?s (w_os w1)" "dir (w_os w1) = (dir ?s)(?lp := None)"
      "inode (w_os w1) = (inode ?s)(i := merged_db ?L ?D)" "next_ino (w_os w1) = next_ino ?s" "next_fd (w_os w1) = next_fd ?s"
      "w_heap w1 = w_heap w"
    using logdb_close_quiet [OF assms(1,2) ij(5), of dbg] ij(3) by auto
  have c: "ready w" "quiet ?s" "other_locks ?s = []" "\<forall>i. other_flock ?s i = L_None" "take 6 ?L = logdb_log_header"
    using assms(1) by (simp_all add: closable_def Let_def)
  have ck: "conn_ok ?c ?s" "data_present ?L ?D" using c(1) by (simp_all add: ready_def)
  have "6 \<le> length ?L" "even (length ?L)" "log_count ?L < 65536" "\<not> pwrite_appends ?s" using ck(1) by (simp_all add: conn_ok_def)
  then have L: "length ?L = 6 + 2 * log_count ?L" "log_count ?L < 65536" "\<not> pwrite_appends ?s"
    by (auto simp: log_count_def size_defs)
  have lenM: "length ?M = 6 + 2 * length (used_entries ?L)" "length (used_entries ?L) \<le> log_count ?L"
    using merged_log_length [OF L(1)] used_length by simp_all
  have q1: "quiet (w_os w1)" by (rule same_env_quiet [OF w1(2) c(2)])
  have M: "6 \<le> length ?M" "length ?M + 4 < 4294967296" "take 6 ?M = logdb_log_header"
    using lenM L c(5) by (simp_all add: merged_log_def min_absorb1)
  have dir1: "dir (w_os w1) path = Some i" "dir (w_os w1) ?lp = None" using w1(3) ij(1) suffix_differs [of path] by auto
  have ino1: "inode (w_os w1) i = resize (merged_size ?L) ?D @ ?M @ le32 (of_nat (length ?M + 4))"
    using w1(4) by (simp add: merged_db_def)
  have hd: "take 6 (resize (merged_size ?L) ?D) = logdb_header" by (rule merged_front [OF ij(7)]) simp
  have env1: "\<not> pwrite_appends (w_os w1)" "\<not> (dbg \<and> test_env (w_os w1))" "\<forall>i. other_flock (w_os w1) i = L_None" "0 \<le> next_fd (w_os w1)"
    using w1(2,6) L(3) assms(4) c(4) ij(6) by (auto simp: same_env_def)
  have F1: "log_in (inode (w_os w1) i) ?M" "take 6 (inode (w_os w1) i) = logdb_header"
    unfolding ino1 using log_in_end [OF M(3,2), of "resize (merged_size ?L) ?D"] take_eq_length [of 6 "resize (merged_size ?L) ?D" logdb_header] hd
    by simp_all
  obtain s' where s': "logdb_open dbg (Some path) flags (w_os w1) = Done (Some (opened (w_os w1) path flags), s')"
      "same_env (w_os w1) s'" "dir s' = (dir (w_os w1))(?lp := Some (next_ino (w_os w1)))"
      "inode s' = (inode (w_os w1))(next_ino (w_os w1) := ?M)" "next_ino s' = Suc (next_ino (w_os w1))" "next_fd s' = next_fd (w_os w1) + 2"
      "keys s' = (keys (w_os w1))(next_fd (w_os w1) := Some (i, False), next_fd (w_os w1) + 1 := Some (next_ino (w_os w1), True))"
    using logdb_open_quiet [OF q1 dir1(1) F1 dir1(2) env1(1,2,4,3), of flags] by blast
  let ?o = "opened ?s path flags" let ?w' = "\<lparr>w_os = s', w_heap = w_heap w, w_conn = ?o\<rparr>"
  have oo: "opened (w_os w1) path flags = ?o" using w1(6) by (simp add: opened_def)
  have oc: "c_fd ?o = next_fd ?s" "l_fd (c_log ?o) = next_fd ?s + 1" "l_path (c_log ?o) = Some ?lp" "l_lock (c_log ?o) = []"
    by (simp_all add: opened_def)
  have kk: "keys s' (c_fd ?o) = Some (i, False)" "keys s' (l_fd (c_log ?o)) = Some (next_ino ?s, True)"
    using s'(7) by (simp_all add: oc w1(5,6))
  have F: "log_file ?o s' = ?M" "db_file ?o s' = merged_db ?L ?D"
    using file_keys [OF kk(1)] file_keys [OF kk(2)] s'(4) w1(4,5) ij(4) by (simp_all add: log_file_def db_file_def)
  have D6: "6 \<le> length ?D" using arg_cong [OF ij(7), of length] by simp
  have cntM: "log_count ?M = length (used_entries ?L)" using lenM(1) by (simp add: log_count_def size_defs)
  have env: "same_env ?s s'" by (rule same_env_trans [OF w1(2) s'(2)])
  have "conn_ok ?o s'"
  proof -
    obtain f g where "fds s' (c_fd ?o) = Some f" "f_ino f = i" "\<not> f_append f" "fds s' (l_fd (c_log ?o)) = Some g" "f_ino g = next_ino ?s" "f_append g"
      using kk by (auto simp: keys_fd)
    moreover have "even (length ?M)" using lenM(1) by simp
    moreover have "log_count ?M < 65536" using cntM lenM(2) L(2) by simp
    ultimately show ?thesis using ij(4) env L(3) M(1) by (simp add: conn_ok_def F oc(4) same_env_def)
  qed
  then have "ready ?w'" using merged_sections(2) [OF ck(2) D6 L(1)] by (simp add: ready_def F oc(4) idle_def)
  moreover have "take 6 (merged_db ?L ?D) = logdb_header"
  proof -
    have "6 \<le> length (resize (merged_size ?L) ?D)" using arg_cong [OF hd, of length] by simp
    then show ?thesis using hd by (simp add: merged_db_def)
  qed
  then have "named path ?w'"
    using kk s'(3,5,6) w1(3,5,6) ij(1,4,6) suffix_differs [of path] by (simp add: named_def Let_def oc F)
  ultimately show ?thesis
    using w1(1,7) s'(1) oo env F by (intro exI [of _ w1] exI [of _ s']) (simp add: Let_def)
qed

section \<open>A process alone with its database\<close>

text \<open>
  Between two calls of a client that is the only one: what \<open>client_ok\<close> says, both files have their
  headers and the names the connection thinks they have, no lease is out, and nothing can block.
\<close>

definition settled :: "string \<Rightarrow> nat \<Rightarrow> world \<Rightarrow> bool" where
  "settled path tid w \<longleftrightarrow>
     client_ok tid w \<and> named path w \<and> c_readers (w_conn w) = 0 \<and> (\<forall>i. other_flock (w_os w) i = L_None) \<and>
     take 6 (log_file (w_conn w) (w_os w)) = logdb_log_header"

lemma same_env_calm: "same_env s s' \<Longrightarrow> calm s \<Longrightarrow> calm s'"
  using same_env_quiet by (auto simp: calm_def) (auto simp: same_env_def)

lemma named_log: "named path w \<Longrightarrow> l_path (c_log (w_conn w)) = Some (path @ LOGDB_LOG_FILE_SUFFIX) \<and> dir (w_os w) (path @ LOGDB_LOG_FILE_SUFFIX) \<noteq> None"
  by (auto simp: named_def Let_def split: option.splits)

lemma settled_closable: "settled path tid w \<Longrightarrow> closable tid w"
  using named_log [of path w] by (auto simp: settled_def closable_def client_ok_def calm_def)

lemma client_ok_tid: "client_ok tid w \<Longrightarrow> logdb_txn_current tid' w = 0 \<Longrightarrow> client_ok tid' w"
  by (simp add: client_ok_def)

lemma stays_current: "stays w w' \<Longrightarrow> logdb_txn_current tid w' = logdb_txn_current tid w"
  by (auto simp: stays_def logdb_txn_current_def)

text \<open>Every call that stays within its files keeps the process settled.\<close>

lemma settled_stays:
  assumes "settled path tid w" "stays w w'" "client_ok tid w'"
  shows "settled path tid w'"
proof -
  let ?c = "w_conn w"
  have s: "client_ok tid w" "named path w" "c_readers ?c = 0" "\<forall>i. other_flock (w_os w) i = L_None"
    "take 6 (log_file ?c (w_os w)) = logdb_log_header"
    using assms(1) by (simp_all add: settled_def)
  obtain bs where fr: "frame (w_os w) (w_os w')" and h: "same_headers ?c (w_os w) (w_os w')"
    and c': "w_conn w' = ?c\<lparr>c_log := (c_log ?c)\<lparr>l_lock := bs\<rparr>\<rparr>"
    using assms(2) by (auto simp: stays_def)
  have db: "take 6 (db_file ?c (w_os w)) = logdb_header" using s(2) by (simp add: named_def Let_def)
  have "6 \<le> length (db_file ?c (w_os w))" using arg_cong [OF db, of length] by simp
  with h db s(5) have hd: "take 6 (db_file ?c (w_os w')) = logdb_header" "take 6 (log_file ?c (w_os w')) = logdb_log_header"
    by (simp_all add: same_headers_def)
  have k: "keys (w_os w') = keys (w_os w)" by (rule keys_frame [OF fr])
  have "dir (w_os w') = dir (w_os w)" "next_ino (w_os w') = next_ino (w_os w)" "next_fd (w_os w') = next_fd (w_os w)"
    using fr by (simp_all add: frame_def)
  then have "named path w'" using s(2) hd(1) k by (simp add: named_def Let_def c' split: option.splits)
  then show ?thesis using s hd assms(3) fr by (simp add: settled_def c' frame_def)
qed

lemma settled_step:
  assumes "settled path tid w" "same_data (w_os w) s" "heap_ok h" "plenty h"
  shows "settled path tid (w\<lparr>w_heap := h, w_os := s\<rparr>)"
  using settled_stays [OF assms(1) quiet_step(1) [OF assms(2)] quiet_step(3) [OF assms(2) _ assms(3,4)]] assms(1)
  by (simp add: settled_def)

text \<open>However large the file was, what closing leaves has at most 65536 sections and a log of that length.\<close>

lemma merged_db_bound:
  assumes "length L = 6 + 2 * log_count L" "log_count L < 65536"
  shows "length (merged_db L D) \<le> 4295098384"
proof -
  have u: "length (used_entries L) \<le> log_count L" by (rule used_length)
  have "unat (last (used_entries L)) < 65536" using unsigned_less [of "last (used_entries L)"] by simp
  then have "merged_size L \<le> 4294967302" using u assms(2) by (auto simp: merged_size_def Let_def)
  moreover have "length (merged_log L) = 6 + 2 * length (used_entries L)" by (rule merged_log_length [OF assms(1)])
  moreover have "length (resize n D) = n" for n by (simp add: resize_def)
  ultimately show ?thesis using u assms(2) by (simp add: merged_db_def)
qed

text \<open>Closing and opening again.\<close>

lemma close_then_open_sections:
  assumes "settled path tid w" "conn \<noteq> 0" "\<not> (dbg \<and> test_env (w_os w))"
  shows "\<exists>w1 c s'. logdb_close dbg tid conn w = Done (0, w1) \<and> w_heap w1 = w_heap w \<and>
     logdb_open dbg (Some path) flags (w_os w1) = Done (Some c, s') \<and> c_current_txn c = (\<lambda>_. 0) \<and> same_env (w_os w) s' \<and>
     settled path tid \<lparr>w_os = s', w_heap = w_heap w, w_conn = c\<rparr> \<and>
     sections_of \<lparr>w_os = s', w_heap = w_heap w, w_conn = c\<rparr> = strip (\<lambda>S. S = []) (sections_of w) \<and>
     length (db_file c s') \<le> 4295098384"
proof -
  have s: "client_ok tid w" "named path w" "\<forall>i. other_flock (w_os w) i = L_None"
    "take 6 (log_file (w_conn w) (w_os w)) = logdb_log_header"
    using assms(1) by (simp_all add: settled_def)
  let ?c = "opened (w_os w) path flags" and ?L = "log_file (w_conn w) (w_os w)" and ?D = "db_file (w_conn w) (w_os w)"
  from close_then_open_files [OF settled_closable [OF assms(1)] assms(2) s(2) assms(3), of flags] obtain w1 s' where
    r: "logdb_close dbg tid conn w = Done (0, w1)" "w_heap w1 = w_heap w"
      "logdb_open dbg (Some path) flags (w_os w1) = Done (Some ?c, s')" "same_env (w_os w) s'"
      "named path \<lparr>w_os = s', w_heap = w_heap w, w_conn = ?c\<rparr>" "ready \<lparr>w_os = s', w_heap = w_heap w, w_conn = ?c\<rparr>"
      "log_file ?c s' = merged_log ?L" "db_file ?c s' = merged_db ?L ?D"
    unfolding Let_def by auto
  let ?w = "\<lparr>w_os = s', w_heap = w_heap w, w_conn = ?c\<rparr>"
  have L: "length ?L = 6 + 2 * log_count ?L" "data_present ?L ?D" "calm (w_os w)"
    using s(1) by (auto simp: client_ok_def ready_def conn_ok_def log_count_def size_defs)
  have db: "take 6 ?D = logdb_header" using s(2) by (simp add: named_def Let_def)
  have D: "6 \<le> length ?D" using arg_cong [OF db, of length] by simp
  have "6 \<le> length (merged_log ?L)" using merged_log_length [OF L(1)] by simp
  have h: "take 6 (merged_log ?L) = logdb_log_header" using s(4) by (simp add: merged_log_def min_absorb1)
  have c: "c_readers ?c = 0" "c_alive ?c" "c_version ?c = LOGDB_VERSION" "c_current_txn ?c = (\<lambda>_. 0)" by (simp_all add: opened_def)
  have "client_ok tid ?w"
    using s(1) r(6) same_env_calm [OF r(4) L(3)] r(4) c by (simp add: client_ok_def logdb_txn_current_def same_env_def)
  then have "settled path tid ?w" using r(4,5,7) c(1) s(3) h by (simp add: settled_def same_env_def)
  moreover have "sections_of ?w = strip (\<lambda>S. S = []) (sections_of w)"
    using merged_sections(1) [OF L(2) D L(1)] r(7,8) by (simp add: sections_of_def)
  moreover have "length (db_file ?c s') \<le> 4295098384" unfolding r(8) by (rule merged_db_bound) (use s(1) L(1) in \<open>auto simp: client_ok_def ready_def conn_ok_def\<close>)
  ultimately show ?thesis using r(1-4) c(4) by blast
qed

section \<open>A new database\<close>

lemma fresh_world:
  assumes "calm s" "other_locks s = []" "dir s path = None" "dir s (path @ LOGDB_LOG_FILE_SUFFIX) = None"
    and "\<not> pwrite_appends s" "\<not> (dbg \<and> test_env s)" "0 \<le> next_fd s" "\<forall>i. other_flock s i = L_None"
    and "heap_ok h" "plenty h"
  shows "\<exists>c s'. logdb_open dbg (Some path) LOGDB_OPEN_CREATE s = Done (Some c, s') \<and> c_current_txn c = (\<lambda>_. 0) \<and> same_env s s' \<and>
     settled path tid \<lparr>w_os = s', w_heap = h, w_conn = c\<rparr> \<and> sections_of \<lparr>w_os = s', w_heap = h, w_conn = c\<rparr> = [] \<and>
     log_file c s' = logdb_log_header \<and> db_file c s' = logdb_header"
proof -
  let ?c = "opened s path LOGDB_OPEN_CREATE" and ?lp = "path @ LOGDB_LOG_FILE_SUFFIX"
  have "has_flag LOGDB_OPEN_CREATE LOGDB_OPEN_CREATE" by (simp add: has_flag_def)
  from logdb_open_fresh [OF calm_quiet [OF assms(1)] assms(3,4) this assms(5-8)] obtain s' where
    s': "logdb_open dbg (Some path) LOGDB_OPEN_CREATE s = Done (Some ?c, s')" "same_env s s'"
      "dir s' = (dir s)(path := Some (next_ino s), ?lp := Some (Suc (next_ino s)))"
      "inode s' = (inode s)(next_ino s := logdb_header, Suc (next_ino s) := logdb_log_header)" "next_ino s' = next_ino s + 2"
      "next_fd s' = next_fd s + 2"
      "keys s' = (keys s)(next_fd s := Some (next_ino s, False), next_fd s + 1 := Some (Suc (next_ino s), True))"
    by blast
  let ?w = "\<lparr>w_os = s', w_heap = h, w_conn = ?c\<rparr>"
  have c: "c_fd ?c = next_fd s" "l_fd (c_log ?c) = next_fd s + 1" "l_path (c_log ?c) = Some ?lp" "l_lock (c_log ?c) = []"
    "c_readers ?c = 0" "c_alive ?c" "c_version ?c = LOGDB_VERSION" "c_current_txn ?c = (\<lambda>_. 0)"
    by (simp_all add: opened_def)
  have kk: "keys s' (c_fd ?c) = Some (next_ino s, False)" "keys s' (l_fd (c_log ?c)) = Some (Suc (next_ino s), True)"
    by (simp_all add: s'(7) c)
  have F: "db_file ?c s' = logdb_header" "log_file ?c s' = logdb_log_header"
    using file_keys [OF kk(1)] file_keys [OF kk(2)] by (simp_all add: s'(4) db_file_def log_file_def)
  have cnt: "log_count logdb_log_header = 0" by (simp add: log_count_def size_defs)
  obtain f g where "fds s' (c_fd ?c) = Some f" "f_ino f = next_ino s" "\<not> f_append f" "fds s' (l_fd (c_log ?c)) = Some g"
    "f_ino g = Suc (next_ino s)" "f_append g"
    using kk by (auto simp: keys_fd)
  then have ok: "conn_ok ?c s'" using s'(2) assms(5) by (simp add: conn_ok_def F cnt c same_env_def)
  have ready: "ready ?w" using ok by (simp add: ready_def F c idle_def data_present_def cnt)
  have client: "client_ok tid ?w"
    using ready same_env_calm [OF s'(2) assms(1)] s'(2) assms(2,9,10)
    by (simp add: client_ok_def c logdb_txn_current_def same_env_def)
  have "named path ?w"
    using suffix_differs [of path] assms(7) kk s'(3,5,6) by (simp add: named_def Let_def c F)
  then have "settled path tid ?w" using client s'(2) assms(8) by (simp add: settled_def c F same_env_def)
  moreover have "sections_of ?w = []" by (simp add: sections_of_def F db_sections_def cnt)
  ultimately show ?thesis using s'(1,2) F c(8) by blast
qed

section \<open>An example\<close>

lemma ex_settled:
  assumes "even (length L)" "log_count L < 65536" "data_present L D" "take 6 L = logdb_log_header" "take 6 D = logdb_header"
  shows "settled ''t'' 0 (ex_world D L [])"
proof -
  have L: "6 \<le> length L" using take_eq_length [of 6 L logdb_log_header] assms(4) by simp
  have r: "ready (ex_world D L [])" by (rule ex_ready [OF L assms(1-3)])
  have "client_ok 0 (ex_world D L [])"
    using r heap_ok_two by (simp add: client_ok_def) (simp add: ex_conn_def logdb_txn_current_def two_buffers_eq plenty_def)
  moreover have "named ''t'' (ex_world D L [])"
    using assms(5) by (simp add: named_def) (simp add: ex_os_def ex_conn_def LOGDB_LOG_FILE_SUFFIX_def fd_key_def keys_def)
  ultimately show ?thesis
    using assms(4) by (simp add: settled_def) (simp add: ex_conn_def ex_os_def)
qed

end
