(* ===== verification/Dump.thy ===== *)
theory Dump
  imports Scan Close
begin

text \<open>\<^verbatim>\<open>stress/dump.c\<close>: the tool that prints every record of a database as a string and an integer.\<close>

section \<open>The program\<close>

text \<open>
  A line of output is what \<open>printf\<close> shows of the two pointers: the bytes up to a zero byte, which must
  come before the end of the block, and an \<open>int\<close>.
\<close>

definition read_cstring :: "heap \<Rightarrow> ptr \<Rightarrow> byte list outcome" where
  "read_cstring h p =
     (case mem h p of
        None \<Rightarrow> Fault (BadPtr p)
      | Some bs \<Rightarrow> if 0 \<in> set bs then Done (takeWhile (\<lambda>b. b \<noteq> 0) bs) else Fault OutOfBounds)"

definition read_int :: "heap \<Rightarrow> ptr \<Rightarrow> int outcome" where
  "read_int h p = obind (load_bytes h p 4) (\<lambda>bs. Done (sint (of_le32 bs)))"

text \<open>The loop, with the lines printed so far; the result is the exit code, 0 when the loop ends.\<close>

fun dump_loop :: "nat \<Rightarrow> bool \<Rightarrow> logdb_iter_t \<Rightarrow> (byte list \<times> int) list \<Rightarrow> world \<Rightarrow>
    (int \<times> (byte list \<times> int) list \<times> logdb_iter_t \<times> world) outcome" where
  "dump_loop 0 dbg iter out w = Fault Diverges"
| "dump_loop (Suc n) dbg iter out w =
     obind (logdb_iter_next dbg iter w) (\<lambda>(r, iter, w).
     if r = 0 then Done (0, out, iter, w)
     else obind (logdb_iter_current_key dbg iter w) (\<lambda>(key, iter, w).
     obind (logdb_iter_current_value dbg iter w) (\<lambda>(val, iter, w).
     if key = 0 \<or> val = 0 then Done (9, out, iter, w)
     else obind (logdb_buffer_data dbg key (w_heap w)) (\<lambda>(k, h).
     obind (logdb_buffer_data dbg val h) (\<lambda>(v, h).
     let w = w\<lparr>w_heap := h\<rparr> in
     if k = 0 \<or> v = 0 then Done (10, out, iter, w)
     else obind (read_cstring h k) (\<lambda>ks. obind (read_int h v) (\<lambda>i.
          dump_loop n dbg iter (out @ [(ks, i)]) w)))))))"

text \<open>From the creation of the iterator to its end.\<close>

definition dump_records :: "nat \<Rightarrow> bool \<Rightarrow> ptr \<Rightarrow> world \<Rightarrow> (int \<times> (byte list \<times> int) list \<times> world) outcome" where
  "dump_records fuel dbg conn w =
     obind (logdb_iter_all dbg conn w) (\<lambda>(iter, w).
     case iter of
       None \<Rightarrow> Done (8, [], w)
     | Some iter \<Rightarrow>
         obind (dump_loop fuel dbg iter [] w) (\<lambda>(r, out, iter, w).
         if r \<noteq> 0 then Done (r, out, w)
         else obind (logdb_iter_free dbg iter w) (\<lambda>w. Done (0, out, w))))"

text \<open>The whole program after the check of its arguments.\<close>

definition dump_main :: "nat \<Rightarrow> bool \<Rightarrow> nat \<Rightarrow> string \<Rightarrow> heap \<Rightarrow> os \<Rightarrow> (int \<times> (byte list \<times> int) list \<times> os) outcome" where
  "dump_main fuel dbg tid path h s =
     obind (logdb_open dbg (Some path) LOGDB_OPEN_EXISTING s) (\<lambda>(conn, s).
     case conn of
       None \<Rightarrow> Done (2, [], s)
     | Some c \<Rightarrow>
         obind (dump_records fuel dbg 1 \<lparr>w_os = s, w_heap = h, w_conn = c\<rparr>) (\<lambda>(r, out, w).
         if r \<noteq> 0 then Done (r, out, w_os w)
         else obind (logdb_close dbg tid 1 w) (\<lambda>(r, w). Done (r, out, w_os w))))"

section \<open>What it prints\<close>

definition printable :: "kv \<Rightarrow> bool" where
  "printable kv = (0 \<in> set (fst kv) \<and> 4 \<le> length (snd kv))"

definition line :: "kv \<Rightarrow> byte list \<times> int" where
  "line kv = (takeWhile (\<lambda>b. b \<noteq> 0) (fst kv), sint (of_le32 (snd kv)))"

lemma added_data:
  assumes "adds_buf h p xs h'"
  obtains d where "bufs h' p = Some \<lparr>b_data = d, b_len = of_nat (length xs), b_disposer = Some C_free,
                                      b_orig = 0, b_next = 0, b_refcnt = 1\<rparr>" "mem h' d = Some xs" "d \<noteq> 0" "p \<noteq> 0"
    "mem h d = None" "bufs h p = None"
  using assms by (auto simp: adds_buf_def)

lemma added_keeps:
  assumes "adds_buf h p xs h'"
  shows "bufs h q = Some b \<Longrightarrow> bufs h' q = Some b" "mem h d = Some ys \<Longrightarrow> mem h' d = Some ys"
  using assms by (auto simp: adds_buf_def)

lemma dump_one:
  assumes "adds_buf h0 p k h1" "adds_buf h1 q v h2" "printable (k, v)"
  shows "\<exists>d e. p \<noteq> 0 \<and> q \<noteq> 0 \<and> logdb_buffer_data dbg p h2 = Done (d, h2) \<and> logdb_buffer_data dbg q h2 = Done (e, h2) \<and>
           d \<noteq> 0 \<and> e \<noteq> 0 \<and> read_cstring h2 d = Done (fst (line (k, v))) \<and> read_int h2 e = Done (snd (line (k, v)))"
proof -
  from added_data [OF assms(1)] obtain d where d: "bufs h1 p = Some \<lparr>b_data = d, b_len = of_nat (length k),
      b_disposer = Some C_free, b_orig = 0, b_next = 0, b_refcnt = 1\<rparr>" "mem h1 d = Some k" "d \<noteq> 0" "p \<noteq> 0" by metis
  from added_data [OF assms(2)] obtain e where e: "bufs h2 q = Some \<lparr>b_data = e, b_len = of_nat (length v),
      b_disposer = Some C_free, b_orig = 0, b_next = 0, b_refcnt = 1\<rparr>" "mem h2 e = Some v" "e \<noteq> 0" "q \<noteq> 0" by metis
  note k2 = added_keeps(1) [OF assms(2) d(1)] added_keeps(2) [OF assms(2) d(2)]
  have "of_le32 (take 4 v) = of_le32 v" by (simp add: of_le32_def)
  then show ?thesis
    using buffer_data_plain [OF k2(1) d(4)] buffer_data_plain [OF e(1,4)] k2(2) d e assms(3)
    by (simp add: printable_def line_def read_cstring_def read_int_def load_bytes_def)
qed

lemma dump_loop_lists:
  assumes "scannable R w0" "scanning w0 j rs it w" "j \<le> length R" "rs @ concat (drop j R) = todo" "length todo < n"
    and "set todo \<subseteq> set (concat R)" "list_all printable (concat R)"
  shows "\<exists>it' w'. dump_loop n dbg it out w = Done (0, out @ map line todo, it', w') \<and>
           \<not> ls_connection (it_lease it') \<and> it_connection it' \<and> holds (w_heap w0) (it_key it') (it_value it') (w_heap w') \<and>
           w_conn w' = w_conn w0 \<and> same_data (w_os w0) (w_os w') \<and> quiet (w_os w')"
  using assms(2-6)
proof (induction todo arbitrary: n j rs it w out)
  case Nil
  then obtain m where m: "n = Suc m" by (cases n) auto
  have st: "it_connection it" "holds (w_heap w0) (it_key it) (it_value it) (w_heap w)"
    using Nil.prems(1) by (simp_all add: scanning_def)
  from next_at_end [OF assms(1) Nil.prems(1,2,3), of dbg] obtain l s where
    "logdb_iter_next dbg it w = Done (0, it\<lparr>it_lease := l\<rparr>, w\<lparr>w_conn := w_conn w0, w_os := s\<rparr>)"
    "\<not> ls_connection l" "same_data (w_os w0) s" "quiet s"
    by blast
  with m st show ?case by simp
next
  case (Cons x todo)
  obtain k v where x: "x = (k, v)" by (cases x)
  obtain m where m: "n = Suc m" "length todo < m" using Cons.prems(4) by (cases n) auto
  have kv: "(k, v) \<in> set (concat R)" using Cons.prems(5) x by simp
  from visit_record [OF assms(1) Cons.prems(1,2) Cons.prems(3) [unfolded x] kv, of dbg] obtain it1 w1 p q it2 w2 it3 w3 h1 j' rs' where
    g: "logdb_iter_next dbg it w = Done (1, it1, w1)" "logdb_iter_current_key dbg it1 w1 = Done (p, it2, w2)"
      "logdb_iter_current_value dbg it2 w2 = Done (q, it3, w3)" "scanning w0 j' rs' it3 w3" "j' \<le> length R"
      "rs' @ concat (drop j' R) = todo" "adds_buf h1 p k (w_heap w2)" "adds_buf (w_heap w2) q v (w_heap w3)"
    by blast
  have "printable (k, v)" using assms(7) kv by (auto simp: list_all_iff)
  from dump_one [OF g(7,8) this, of dbg] obtain d e where
    de: "p \<noteq> 0" "q \<noteq> 0" "logdb_buffer_data dbg p (w_heap w3) = Done (d, w_heap w3)"
      "logdb_buffer_data dbg q (w_heap w3) = Done (e, w_heap w3)" "d \<noteq> 0" "e \<noteq> 0"
      "read_cstring (w_heap w3) d = Done (fst (line (k, v)))" "read_int (w_heap w3) e = Done (snd (line (k, v)))"
    by blast
  have step: "dump_loop n dbg it out w = dump_loop m dbg it3 (out @ [line (k, v)]) w3"
    using g(1-3) de by (simp add: m)
  from Cons.IH [OF g(4-6) m(2), of "out @ [line (k, v)]"] Cons.prems(5) show ?case
    unfolding step by (simp add: x)
qed

lemma dump_records_lists:
  assumes "scannable R w" "list_all printable (concat R)" "length (concat R) < n" "conn \<noteq> 0"
  shows "\<exists>w'. dump_records n dbg conn w = Done (0, map line (concat R), w') \<and> w_conn w' = w_conn w \<and>
           same_data (w_os w) (w_os w') \<and> quiet (w_os w') \<and> same_cells (w_heap w) (w_heap w')"
proof -
  obtain it w1 where all: "logdb_iter_all dbg conn w = Done (Some it, w1)" and sc: "scannable R w1"
    and st: "scanning w1 0 [] it w1" and w1: "w_conn w1 = w_conn w" "w_os w1 = w_os w" "w_heap w1 = h_bump (w_heap w)"
    using iter_all_starts [OF assms(1,4)] by blast
  from dump_loop_lists [OF sc st _ _ assms(3) _ assms(2), of dbg "[]"] obtain it' w' where
    l: "dump_loop n dbg it [] w1 = Done (0, map line (concat R), it', w')" "\<not> ls_connection (it_lease it')"
      "it_connection it'" "holds (h_bump (w_heap w)) (it_key it') (it_value it') (w_heap w')"
      "w_conn w' = w_conn w" "same_data (w_os w) (w_os w')" "quiet (w_os w')"
    using w1 by auto
  obtain h1 h2 where f: "logdb_buffer_free (it_key it') (w_heap w') = Done h1" "logdb_buffer_free (it_value it') h1 = Done h2"
    "same_cells (h_bump (w_heap w)) h2"
    using frees_held [OF l(4)] by blast
  have "dump_records n dbg conn w = Done (0, map line (concat R), w'\<lparr>w_heap := h2\<rparr>)"
    using all l(1-3) f(1,2) by (simp add: dump_records_def logdb_iter_free_def)
  moreover have "same_cells (w_heap w) h2" using f(3) by (simp add: same_cells_def)
  ultimately show ?thesis using l(5-7) by (intro exI [of _ "w'\<lparr>w_heap := h2\<rparr>"]) simp
qed

section \<open>Properties\<close>

text \<open>A database with one record: the key \<open>k\<close> and the integer 7.\<close>

definition dump_db :: "byte list" where
  "dump_db = logdb_header @ [2, 0, 0, 0, 4, 0, 0, 0, 107, 0, 7, 0, 0, 0]"

definition dump_world :: "io_event list \<Rightarrow> world" where
  "dump_world es = ex_world dump_db (logdb_log_header @ [14, 0]) es"

lemma dump_world_sections:
  "log_count (logdb_log_header @ [14, 0]) = 1"
  "db_sections (logdb_log_header @ [14, 0]) dump_db = map records_bytes [[([107, 0], [7, 0, 0, 0])]]"
  "data_present (logdb_log_header @ [14, 0]) dump_db"
proof -
  show cnt: "log_count (logdb_log_header @ [14, 0]) = 1" by (simp add: log_count_def size_defs)
  have e: "entry_at (logdb_log_header @ [14, 0]) 0 = 14" by code_simp
  have r: "records_bytes [([107, 0], [7, 0, 0, 0])] = [2, 0, 0, 0, 4, 0, 0, 0, 107, 0, 7, 0, 0, 0]" by code_simp
  show "db_sections (logdb_log_header @ [14, 0]) dump_db = map records_bytes [[([107, 0], [7, 0, 0, 0])]]"
    by (simp add: db_sections_def cnt section_of_def e seg_def dump_db_def r del: records_bytes_simps)
  show "data_present (logdb_log_header @ [14, 0]) dump_db" by (simp add: data_present_iff cnt e dump_db_def)
qed

lemma dump_world_scannable: "list_all (\<lambda>e. e \<noteq> Fail \<and> e \<noteq> Short 0) es \<Longrightarrow> scannable [[([107, 0], [7, 0, 0, 0])]] (dump_world es)"
proof -
  assume "list_all (\<lambda>e. e \<noteq> Fail \<and> e \<noteq> Short 0) es"
  moreover have "log_count (logdb_log_header @ [14, 0]) < 65536" by (simp add: log_count_def size_defs)
  ultimately show ?thesis
    using ex_conn_ok [of "logdb_log_header @ [14, 0]" dump_db es] heap_ok_two dump_world_sections
    by (simp add: scannable_def dump_world_def sections_of_def quiet_def)
       (simp add: ex_conn_def two_buffers_eq plenty_def)
qed

text \<open>C7: Dumping a database whose sections are lists of records, with no failure and whatever short transfers, prints
  one line for each record, in the order of the sections, and ends with code 0. The files are as before, every
  lease has been given back, and no buffer is left over.\<close>

theorem dump_prints_every_record:
  assumes "scannable R w" "list_all printable (concat R)" "length (concat R) < n" "conn \<noteq> 0"
  shows "\<exists>w'. dump_records n dbg conn w = Done (0, map line (concat R), w') \<and> w_conn w' = w_conn w \<and>
     inode (w_os w') = inode (w_os w) \<and> mem (w_heap w') = mem (w_heap w) \<and> bufs (w_heap w') = bufs (w_heap w)"
  using dump_records_lists [OF assms, of dbg] by (auto simp: same_data_def same_cells_def)

theorem dump_prints_every_record_witness:
  "\<exists>w'. dump_records 2 True 1 (dump_world [Short 3, Full, Short 1]) = Done (0, [([107], 7)], w')"
proof -
  have p: "list_all printable (concat [[([107, 0], [7, 0, 0, 0])]])" and l: "map line (concat [[([107, 0], [7, 0, 0, 0])]]) = [([107], 7)]"
    by code_simp+
  show ?thesis
    using dump_prints_every_record [OF dump_world_scannable p, of "[Short 3, Full, Short 1]" 2 1 True] l by auto
qed

end
