(* ===== verification/Recovery.thy ===== *)
theory Recovery
  imports Reopen Dump
begin

text \<open>
  Opening a database whose log file is already there: after a process has died between two calls or during a
  commit, after a creation of the log that has not come to its end, and while another process uses it.
\<close>

section \<open>Opening a log file that is there\<close>

lemma read_quiet_some:
  assumes "quiet s" "fds s fd = Some f" "0 < sz"
  shows "\<exists>r bs s'. logdb_io_read fd sz s = (r, bs, s') \<and> (r = 0 \<and> length bs = sz \<or> r = -1 \<and> length bs < sz) \<and>
     bs = seg (file_of s fd) (f_pos f) (length bs) \<and> (r = -1 \<longrightarrow> length (file_of s fd) < f_pos f + sz) \<and>
     quiet s' \<and> same_data s s' \<and> fds s' fd = Some (f\<lparr>f_pos := f_pos f + length bs\<rparr>)"
proof -
  obtain r bs s' where e: "logdb_io_read fd sz s = (r, bs, s')" by (cases "logdb_io_read fd sz s")
  note sp = logdb_io_read_spec [OF e assms(2,3)]
  have r: "r = 0 \<and> length bs = sz \<or> r = -1 \<and> length bs < sz \<and> length (file_of s fd) \<le> f_pos f + length bs"
    using sp(4) sp(5) [OF assms(1)] by auto
  have sub: "set (sched s') \<subseteq> set (sched s)" using logdb_io_sched(1) [of fd sz s] e by simp
  have "same_data s (set_pos (resched s (sched s')) fd (f_pos f + length bs))"
    using same_data_trans [OF same_data_steps(4) [OF sub] same_data_steps(3)] .
  then have "same_data s s'" by (simp only: sp(1) [symmetric])
  moreover have "fds (set_pos (resched s (sched s')) fd (f_pos f + length bs)) fd = Some (f\<lparr>f_pos := f_pos f + length bs\<rparr>)"
    using assms(2) by (simp add: fds_set_pos)
  then have "fds s' fd = Some (f\<lparr>f_pos := f_pos f + length bs\<rparr>)" by (simp only: sp(1) [symmetric])
  ultimately show ?thesis using e r sp(2) [OF assms(1)] sp(3) by (intro exI [of _ r] exI [of _ bs] exI [of _ s']) auto
qed

lemma log_validate_quiet:
  assumes "quiet s" "fds s fd = Some f" "f_pos f = 0"
  shows "\<exists>s'. logdb_log_read fd LOGDB_VALIDATE_ONLY s =
           Done (if take 6 (file_of s fd) = logdb_log_header then LB_Valid else LB_Null, s') \<and> same_data s s' \<and> quiet s'"
proof -
  obtain r bs s' where e: "logdb_io_read fd 6 s = (r, bs, s')" "r = 0 \<and> length bs = 6 \<or> r = -1 \<and> length bs < 6"
    "bs = seg (file_of s fd) 0 (length bs)" "r = -1 \<longrightarrow> length (file_of s fd) < 6" "quiet s'" "same_data s s'"
    using read_quiet_some [OF assms(1,2), of 6] assms(3) by auto
  have "(r = 0 \<and> valid_header LOGDB_LOG_MAGIC bs) = (take 6 (file_of s fd) = logdb_log_header)"
  proof (cases "r = 0")
    case True
    then have bs: "bs = take 6 (file_of s fd)" "length bs = 6" using e(2,3) by (auto simp: seg_def)
    show ?thesis
    proof
      assume "r = 0 \<and> valid_header LOGDB_LOG_MAGIC bs"
      then show "take 6 (file_of s fd) = logdb_log_header"
        using valid_header_unique [OF bs(2), of LOGDB_LOG_MAGIC] bs(1) by (simp add: logdb_log_header_def)
    qed (use True bs(1) in simp)
  next
    case False
    then have "length (file_of s fd) < 6" using e(2,4) by simp
    then have "take 6 (file_of s fd) \<noteq> logdb_log_header" using arg_cong [of "take 6 (file_of s fd)" logdb_log_header length] by auto
    with False show ?thesis by simp
  qed
  then show ?thesis using e(1,2,5,6) by (intro exI [of _ s']) (auto simp: logdb_log_read_def size_defs)
qed

lemma log_open_quiet:
  assumes "quiet s" "dir s lp = Some j" "0 \<le> next_fd s"
  shows "\<exists>s'. logdb_log_open lp s =
       Done (if take 6 (inode s j) = logdb_log_header then Some \<lparr>l_fd = next_fd s, l_path = Some lp, l_lock = []\<rparr> else None, s') \<and>
     same_env s s' \<and> dir s' = dir s \<and> inode s' = inode s \<and> next_ino s' = next_ino s \<and> next_fd s' = next_fd s + 1 \<and>
     keys s' = (keys s)(next_fd s := if take 6 (inode s j) = logdb_log_header then Some (j, True) else None)"
proof -
  let ?fd = "next_fd s" and ?f = "\<lparr>f_ino = j, f_pos = 0, f_append = True\<rparr>" and ?ok = "take 6 (inode s j) = logdb_log_header"
  let ?t = "(popped s)\<lparr>fds := (fds s)(?fd := Some ?f), next_fd := ?fd + 1\<rparr>"
  have o: "sys_open lp \<lparr>o_creat = False, o_excl = False, o_append = True\<rparr> s = (?fd, ?t)"
    using open_old_quiet [OF assms(1,2), of "\<lparr>o_creat = False, o_excl = False, o_append = True\<rparr>"] by simp
  have et: "same_env s ?t" using tl_subset [of "sched s"] by (simp add: same_env_def)
  have qt: "quiet ?t" by (rule same_env_quiet [OF et assms(1)])
  have kt: "keys ?t = (keys s)(?fd := Some (j, True))" by (simp add: keys_def fd_key_def fun_eq_iff)
  have Ft: "fds ?t ?fd = Some ?f" "file_of ?t ?fd = inode s j" by (simp_all add: file_of_def)
  obtain u where u: "logdb_log_read ?fd LOGDB_VALIDATE_ONLY ?t = Done (if ?ok then LB_Valid else LB_Null, u)" "same_data ?t u" "quiet u"
    using log_validate_quiet [OF qt Ft(1)] Ft(2) by auto
  have eu: "same_env s u" "dir u = dir s" "inode u = inode s" "next_ino u = next_ino s" "next_fd u = ?fd + 1" "keys u = keys ?t"
    using same_data_same [OF u(2)] same_env_trans [OF et] by (simp_all add: same_names_def)
  have nn: "?fd \<noteq> -1" using assms(3) by simp
  show ?thesis
  proof (cases ?ok)
    case True
    obtain v where v: "logdb_log_new ?fd lp u = (Some \<lparr>l_fd = ?fd, l_path = Some lp, l_lock = []\<rparr>, v)" "same_data u v"
      using log_new_quiet [OF u(3), of lp ?fd] eu(2) assms(2) by auto
    have "logdb_log_open lp s = Done (Some \<lparr>l_fd = ?fd, l_path = Some lp, l_lock = []\<rparr>, v)"
      using o nn u(1) v(1) True by (simp add: logdb_log_open_def)
    moreover have "same_env s v" using same_env_trans [OF eu(1)] same_data_same [OF v(2)] by blast
    moreover have "keys v = (keys s)(?fd := Some (j, True))" using same_data_same [OF v(2)] eu(6) kt by (simp add: same_names_def)
    ultimately show ?thesis using same_data_same [OF v(2)] eu(2-5) True
      by (intro exI [of _ v]) (simp add: same_names_def)
  next
    case False
    have "logdb_log_open lp s = Done (None, sys_close ?fd u)"
      using o nn u(1) False by (simp add: logdb_log_open_def)
    moreover have "keys (sys_close ?fd u) = (keys s)(?fd := None)"
      unfolding sys_close_same(6) eu(6) kt by (simp add: fun_eq_iff)
    moreover have "same_env s (sys_close ?fd u)" by (rule same_env_trans [OF eu(1) sys_close_same(1)])
    ultimately show ?thesis using False eu(2-5) by (intro exI [of _ "sys_close ?fd u"]) (simp add: sys_close_same)
  qed
qed

section \<open>Looking for a log in a file that need not have one\<close>

text \<open>The header of a log cannot overlap the trailer that leads to it.\<close>

lemma header_trailer_apart:
  assumes "length F = n" "4 \<le> n" "off < 10" "off \<le> n" "6 \<le> off" "drop (n - 4) F = le32 (of_nat off)"
  shows "seg F (n - off) 6 \<noteq> logdb_log_header"
proof
  assume h: "seg F (n - off) 6 = logdb_log_header"
  have F: "F ! (n - off + k) = logdb_log_header ! k" if "k < 6" for k
    using h that assms(1,4,5) by (metis seg_def nth_take nth_drop le_add_diff_inverse2 length_drop diff_le_self)
  have T: "F ! (n - 4 + k) = (le32 (of_nat off) :: byte list) ! k" if "k < 4" for k
    using assms(1,2,6) that by (metis nth_drop diff_le_self)
  have "off = 6 \<or> off = 7 \<or> off = 8 \<or> off = 9" using assms(3,5) by linarith
  then show False
  proof (elim disjE)
    assume o: "off = 6"
    have p: "Suc (Suc (n - 6)) = n - 4" using o assms(4) by simp
    have "logdb_log_header ! 2 = (le32 6 ! 0 :: byte)" using F [of 2] T [of 0] o by (simp add: p)
    moreover have "logdb_log_header ! 2 \<noteq> (le32 6 ! 0 :: byte)" by code_simp
    ultimately show False by simp
  next
    assume o: "off = 7"
    have p: "n - 7 + 3 = n - 4" using o assms(4) by simp
    have "logdb_log_header ! 3 = (le32 7 ! 0 :: byte)" using F [of 3] T [of 0] o by (simp add: p)
    moreover have "logdb_log_header ! 3 \<noteq> (le32 7 ! 0 :: byte)" by code_simp
    ultimately show False by simp
  next
    assume o: "off = 8"
    have p: "n - 8 + 4 = n - 4" using o assms(4) by simp
    have "logdb_log_header ! 4 = (le32 8 ! 0 :: byte)" using F [of 4] T [of 0] o by (simp add: p)
    moreover have "logdb_log_header ! 4 \<noteq> (le32 8 ! 0 :: byte)" by code_simp
    ultimately show False by simp
  next
    assume o: "off = 9"
    have p: "n - 9 + 5 = n - 4" using o assms(4) by simp
    have "logdb_log_header ! 5 = (le32 9 ! 0 :: byte)" using F [of 5] T [of 0] o by (simp add: p)
    moreover have "logdb_log_header ! 5 \<noteq> (le32 9 ! 0 :: byte)" by code_simp
    ultimately show False by simp
  qed
qed


lemma lseek_before:
  "fds s fd = Some f \<Longrightarrow> int (length (file_of s fd)) < offs \<Longrightarrow> sys_lseek fd (- offs) SEEK_END s = (-1, s)"
  by (simp add: sys_lseek_def file_of_def Let_def)

text \<open>
  Reading what may be a log: whatever the file holds, the read returns, unless the position is so close to the
  end that the size of the entries would be negative although there is a header.
\<close>

lemma log_read_total:
  assumes "quiet s" "fds s fd = Some f" "length (file_of s fd) < 2 ^ 62"
    and "seg (file_of s fd) (f_pos f) 6 = logdb_log_header \<Longrightarrow> f_pos f + 10 \<le> length (file_of s fd)"
  shows "\<exists>b s'. logdb_log_read fd LOGDB_READ_HAS_TRAILER s = Done (b, s') \<and> same_data s s' \<and> quiet s'"
proof -
  let ?F = "file_of s fd" and ?p = "f_pos f"
  show ?thesis
  proof (cases "seg ?F ?p 6 = logdb_log_header")
    case True
    then have "?p + 10 \<le> length ?F" by (rule assms(4))
    then have len: "length ?F = ?p + 6 + (length ?F - ?p - 10) + 4" "length ?F - ?p - 10 + 4 < 2 ^ 62" using assms(3) by simp_all
    have "take 6 (drop ?p ?F) = logdb_log_header" using True by (simp add: seg_def)
    from log_read_quiet [OF assms(1,2) len this, of LOGDB_READ_HAS_TRAILER] show ?thesis by blast
  next
    case False
    obtain r bs s1 where e: "logdb_io_read fd 6 s = (r, bs, s1)" "r = 0 \<and> length bs = 6 \<or> r = -1 \<and> length bs < 6"
      "bs = seg ?F ?p (length bs)" "quiet s1" "same_data s s1"
      using read_quiet_some [OF assms(1,2), of 6] by auto
    have "\<not> (r = 0 \<and> valid_header LOGDB_LOG_MAGIC bs)"
    proof
      assume a: "r = 0 \<and> valid_header LOGDB_LOG_MAGIC bs"
      then have "length bs = 6" using e(2) by simp
      with valid_header_unique [OF this] a have "bs = logdb_log_header" by (simp add: logdb_log_header_def)
      with e(3) False show False by simp
    qed
    then have "logdb_log_read fd LOGDB_READ_HAS_TRAILER s = Done (LB_Null, s1)"
      using e(1,2) by (auto simp: logdb_log_read_def size_defs)
    with e show ?thesis by blast
  qed
qed

text \<open>The step to where the trailer points.\<close>

lemma create_find_step:
  assumes "quiet s" "fds s fd = Some f" "16 \<le> length (file_of s fd)"
  defines "n \<equiv> length (file_of s fd)" and "off \<equiv> unat (of_le32 (seg (file_of s fd) (length (file_of s fd) - 4) 4))"
  shows "\<exists>s2. log_create_find fd (int n) s =
      (if n < off then Done (None, s2)
       else obind (logdb_log_read fd LOGDB_READ_HAS_TRAILER (set_pos s2 fd (n - off))) (\<lambda>(b, s).
          Done (Some ((case b of LB_Block h \<Rightarrow> Some h | _ \<Rightarrow> None), (int off - int sizeof_trailer) mod 2 ^ 64), s))) \<and>
     same_data s s2 \<and> quiet s2 \<and> fds s2 fd = Some (f\<lparr>f_pos := n\<rparr>)"
proof -
  let ?F = "file_of s fd"
  have n: "16 \<le> n" using assms(3) by (simp add: n_def)
  have lenF: "length ?F = n" by (simp add: n_def)
  let ?s1 = "set_pos s fd (n - 4)"
  have l1: "sys_lseek fd (- int sizeof_trailer) SEEK_END s = (int (n - 4), ?s1)"
  proof -
    have e: "int n + (- int sizeof_trailer) = int (n - 4)" using n by (simp add: size_defs)
    have "sys_lseek fd (- int sizeof_trailer) SEEK_END s =
        (int n + (- int sizeof_trailer), set_pos s fd (nat (int n + (- int sizeof_trailer))))"
      by (rule lseek_ok [OF assms(2)]) (simp_all only: e lenF whence.case of_nat_0_le_iff)
    then show ?thesis unfolding e nat_int .
  qed
  have fd1: "fds ?s1 fd = Some (f\<lparr>f_pos := n - 4\<rparr>)" by (rule set_pos_fd [OF assms(2)])
  have q1: "quiet ?s1" using assms(1) by simp
  obtain s2 where s2: "logdb_io_read fd 4 ?s1 = (0, seg ?F (n - 4) 4, s2)" "quiet s2" "same_data ?s1 s2"
      "fds s2 fd = Some (f\<lparr>f_pos := n\<rparr>)"
    using read_quiet_same [OF q1 fd1, of 4] n lenF by auto
  have same2: "same_data s s2" by (rule same_data_trans [OF same_data_steps(3) s2(3)])
  have F2: "length (file_of s2 fd) = n" using same_data_file [OF same2] lenF by simp
  define bs where "bs = seg ?F (n - 4) 4"
  have bs: "length bs = 4" using n lenF by (simp add: bs_def)
  have u: "uint (of_le32 bs) = int off" by (simp add: off_def bs_def n_def)
  have st: "sizeof_trailer = 4" by (simp add: size_defs)
  have nn: "int (n - 4) \<noteq> -1" by simp
  have big: "int n \<ge> int LOGDB_MIN_SIZE" using n by (simp add: size_defs)
  have step: "log_create_find fd (int n) s =
      (case sys_lseek fd (- int off) SEEK_END s2 of (r, s) \<Rightarrow>
        if r = -1 then Done (None, s)
        else obind (logdb_log_read fd LOGDB_READ_HAS_TRAILER s) (\<lambda>(b, s).
          let header = (case b of LB_Block h \<Rightarrow> Some h | _ \<Rightarrow> None);
              logsz = (int off - int sizeof_trailer) mod 2 ^ 64
          in Done (Some (header, logsz), s)))"
    using l1 nn s2(1) big unfolding log_create_find_def st bs_def [symmetric] by (simp add: u Let_def bs split_def)
  have "log_create_find fd (int n) s =
      (if n < off then Done (None, s2)
       else obind (logdb_log_read fd LOGDB_READ_HAS_TRAILER (set_pos s2 fd (n - off))) (\<lambda>(b, s).
          Done (Some ((case b of LB_Block h \<Rightarrow> Some h | _ \<Rightarrow> None), (int off - int sizeof_trailer) mod 2 ^ 64), s)))"
  proof (cases "n < off")
    case True
    have "sys_lseek fd (- int off) SEEK_END s2 = (-1, s2)"
      by (rule lseek_before [OF s2(4)]) (use True in \<open>simp add: F2\<close>)
    with True show ?thesis unfolding step by simp
  next
    case False
    have e: "int n + (- int off) = int (n - off)" using False by simp
    have "sys_lseek fd (- int off) SEEK_END s2 = (int n + (- int off), set_pos s2 fd (nat (int n + (- int off))))"
      by (rule lseek_ok [OF s2(4)]) (simp_all only: e F2 whence.case of_nat_0_le_iff)
    then have l3: "sys_lseek fd (- int off) SEEK_END s2 = (int (n - off), set_pos s2 fd (n - off))" unfolding e nat_int .
    have pos: "int (n - off) \<noteq> -1" by simp
    show ?thesis unfolding step l3 prod.case if_not_P [OF pos] if_not_P [OF False] Let_def ..
  qed
  with same2 s2(2,4) show ?thesis by blast
qed

lemma create_find_total:
  assumes "quiet s" "fds s fd = Some f" "length (file_of s fd) < 2 ^ 62"
  shows "\<exists>r s'. log_create_find fd (int (length (file_of s fd))) s = Done (r, s') \<and> same_data s s' \<and> quiet s'"
proof (cases "16 \<le> length (file_of s fd)")
  case False
  then show ?thesis using assms(1) by (auto simp: log_create_find_def size_defs intro!: exI [of _ s])
next
  case True
  let ?F = "file_of s fd" let ?n = "length ?F"
  define off where "off = unat (of_le32 (seg ?F (?n - 4) 4))"
  obtain s2 where s2: "log_create_find fd (int ?n) s =
      (if ?n < off then Done (None, s2)
       else obind (logdb_log_read fd LOGDB_READ_HAS_TRAILER (set_pos s2 fd (?n - off))) (\<lambda>(b, s).
          Done (Some ((case b of LB_Block h \<Rightarrow> Some h | _ \<Rightarrow> None), (int off - int sizeof_trailer) mod 2 ^ 64), s)))"
    "same_data s s2" "quiet s2" "fds s2 fd = Some (f\<lparr>f_pos := ?n\<rparr>)"
    using create_find_step [OF assms(1,2) True, folded off_def] by blast
  show ?thesis
  proof (cases "?n < off")
    case True
    with s2 show ?thesis by auto
  next
    case False
    let ?s3 = "set_pos s2 fd (?n - off)"
    have fd3: "fds ?s3 fd = Some (f\<lparr>f_pos := ?n - off\<rparr>)" using set_pos_fd [OF s2(4)] by simp
    have q3: "quiet ?s3" using s2(3) by simp
    have F3: "file_of ?s3 fd = ?F" unfolding file_of_set_pos by (rule same_data_file [OF s2(2)])
    have "?n - off + 10 \<le> ?n" if h: "seg ?F (?n - off) 6 = logdb_log_header"
    proof -
      have le: "le32 (of_nat off) = seg ?F (?n - 4) 4" using True by (simp add: off_def le32_of_le32)
      have "6 \<le> off" using arg_cong [OF h, of length] False by simp
      moreover have "drop (?n - 4) ?F = le32 (of_nat off)" unfolding le using True by (simp add: seg_def)
      moreover have "4 \<le> ?n" using True by simp
      moreover have "off \<le> ?n" using False by simp
      ultimately have "\<not> off < 10" using header_trailer_apart [OF refl, of ?F off] h by blast
      then show ?thesis using False by simp
    qed
    then have "seg (file_of ?s3 fd) (f_pos (f\<lparr>f_pos := ?n - off\<rparr>)) 6 = logdb_log_header \<Longrightarrow>
        f_pos (f\<lparr>f_pos := ?n - off\<rparr>) + 10 \<le> length (file_of ?s3 fd)" unfolding F3 by simp
    from log_read_total [OF q3 fd3 _ this] assms(3) F3 obtain b s4 where
      b: "logdb_log_read fd LOGDB_READ_HAS_TRAILER ?s3 = Done (b, s4)" "same_data ?s3 s4" "quiet s4" by auto
    have "\<exists>r. log_create_find fd (int ?n) s = Done (r, s4)" unfolding s2(1) if_not_P [OF False] b(1) by simp
    with same_data_trans [OF same_data_trans [OF s2(2) same_data_steps(3)] b(2)] b(3) show ?thesis by blast
  qed
qed

section \<open>Creating next to a log file\<close>

lemma open_excl_fails:
  assumes "quiet s" "dir s path = Some j" "o_creat fl" "o_excl fl"
  shows "sys_open path fl s = (-1, popped s)"
  using quiet_event [OF assms(1)] assms(2-4) by (simp add: sys_open_def pop_eq Let_def)

text \<open>The creation gives up, whatever it has found in the database.\<close>

lemma log_create_exists:
  assumes "quiet s" "fds s fd = Some f" "length (file_of s fd) < 2 ^ 62" "dir s lp = Some j"
  shows "\<exists>s'. logdb_log_create dbg lp fd s = Done (None, s') \<and> same_data s s' \<and> quiet s'"
proof -
  let ?F = "file_of s fd"
  let ?s1 = "set_pos s fd (length ?F)"
  have "sys_lseek fd 0 SEEK_END s = (int (length ?F) + 0, set_pos s fd (nat (int (length ?F) + 0)))"
    by (rule lseek_ok [OF assms(2)]) simp_all
  then have l1: "sys_lseek fd 0 SEEK_END s = (int (length ?F), ?s1)" by (simp only: add_0_right nat_int)
  have fd1: "fds ?s1 fd = Some (f\<lparr>f_pos := length ?F\<rparr>)" by (rule set_pos_fd [OF assms(2)])
  have q1: "quiet ?s1" using assms(1) by simp
  have nn: "int (length ?F) \<noteq> -1" by simp
  obtain r s2 where s2: "log_create_find fd (int (length ?F)) ?s1 = Done (r, s2)" "same_data ?s1 s2" "quiet s2"
    using create_find_total [OF q1 fd1] assms(3) by auto
  have same2: "same_data s s2" by (rule same_data_trans [OF same_data_steps(3) s2(2)])
  have run: "logdb_log_create dbg lp fd s =
      (case r of None \<Rightarrow> Done (None, s2)
       | Some (Some header, logsz) \<Rightarrow> log_create_write dbg lp header logsz s2
       | Some (None, logsz) \<Rightarrow> log_create_write dbg lp logdb_log_header logsz (popped s2))"
    unfolding logdb_log_create_def l1 prod.case if_not_P [OF nn] s2(1)
    using pass_calls(1) [OF s2(3)] by (auto split: option.split)
  have no: "log_create_write dbg lp header logsz t = Done (None, popped t)" if "quiet t" "dir t lp = Some j" for header logsz t
    using open_excl_fails [OF that, of "\<lparr>o_creat = True, o_excl = True, o_append = True\<rparr>"] by (simp add: log_create_write_def)
  have d: "dir s2 lp = Some j" "dir (popped s2) lp = Some j" "quiet (popped s2)"
    using same_data_same [OF same2] assms(4) s2(3) by (simp_all add: same_names_def)
  have p: "same_data s (popped s2)" "same_data s (popped (popped s2))"
    using same_data_trans [OF same2 same_data_steps(1)] same_data_trans [OF same_data_trans [OF same2 same_data_steps(1)] same_data_steps(1)] .
  consider "r = None" | hd sz where "r = Some (Some hd, sz)" | sz where "r = Some (None, sz)"
    by (cases r) (auto, metis option.exhaust)
  then show ?thesis
  proof cases
    case 1
    with run same2 s2(3) show ?thesis by auto
  next
    case 2
    with run no [OF s2(3) d(1)] p(1) d(3) show ?thesis by auto
  next
    case 3
    with run no [OF d(3,2)] p(2) d(3) show ?thesis by auto
  qed
qed

section \<open>Opening with a log file\<close>

definition log_at :: "int \<Rightarrow> string \<Rightarrow> logdb_log_t" where
  "log_at fd path = \<lparr>l_fd = fd, l_path = Some path, l_lock = []\<rparr>"

text \<open>What opening leaves: nothing but descriptors has changed.\<close>

definition opens :: "os \<Rightarrow> (int \<Rightarrow> (nat \<times> bool) option) \<Rightarrow> os \<Rightarrow> bool" where
  "opens s k s' \<longleftrightarrow> same_env s s' \<and> dir s' = dir s \<and> inode s' = inode s \<and> next_ino s' = next_ino s \<and> next_fd s \<le> next_fd s' \<and> keys s' = k"

lemma opens_same: "opens s k s' \<Longrightarrow> same_data s' s'' \<Longrightarrow> opens s k s''"
  using same_data_same [of s' s''] same_env_trans [of s s' s''] by (auto simp: opens_def same_names_def)

lemma same_opens: "same_data s t \<Longrightarrow> opens t k u \<Longrightarrow> opens s k u"
  using same_data_same [of s t] same_env_trans [of s t u] by (auto simp: opens_def same_names_def)

lemma opens_flock: "opens s k t \<Longrightarrow> opens s k ((popped t)\<lparr>my_flock := F\<rparr>)"
  using same_env_trans [OF _ flock_same(1)] flock_same(2) by (auto simp: opens_def same_names_def)

lemma flock_opens: "opens ((popped s)\<lparr>my_flock := F\<rparr>) k u \<Longrightarrow> opens s k u"
  using same_env_trans [OF flock_same(1)] by (auto simp: opens_def)

lemma flock_busy: "quiet s \<Longrightarrow> fds s fd = Some f \<Longrightarrow> other_flock s (f_ino f) \<noteq> L_None \<Longrightarrow> sys_flock_ex_nb fd s = (-1, popped s)"
  using quiet_event [of s] by (simp add: sys_flock_ex_nb_def pop_eq Let_def)

lemma flock_share:
  "quiet s \<Longrightarrow> fds s fd = Some f \<Longrightarrow> other_flock s (f_ino f) \<noteq> L_Exclusive \<Longrightarrow>
   sys_flock_sh fd s = Done (0, (popped s)\<lparr>my_flock := (my_flock s)(fd := L_Shared)\<rparr>)"
  using quiet_event [of s] by (simp add: sys_flock_sh_def pop_eq Let_def)

lemma opens_fd:
  assumes "opens s k s'" "fds s fd = Some f" "k fd = keys s fd"
  obtains f' where "fds s' fd = Some f'" "f_ino f' = f_ino f"
proof -
  have "keys s' fd = Some (f_ino f, f_append f)" using assms by (simp add: opens_def keys_def fd_key_def)
  then show ?thesis using that by (auto simp: keys_fd)
qed

lemma open_log_old:
  assumes "quiet s" "fds s fd = Some f" "length (file_of s fd) < 2 ^ 62" "dir s lp = Some j" "take 6 (inode s j) = logdb_log_header"
    and "0 \<le> next_fd s" "fd < next_fd s" "other_flock s (f_ino f) \<noteq> L_Exclusive" "nosync \<longrightarrow> other_flock s (f_ino f) = L_None"
  shows "\<exists>s'. open_log 2 dbg lp fd nosync True s = Done (Some (log_at (next_fd s) lp), s') \<and> 
              opens s ((keys s)(next_fd s := Some (j, True))) s'"
proof -
  have quiet: "quiet t" if "opens s k t" for t k using that assms(1) same_env_quiet by (auto simp: opens_def)
  let ?k = "(keys s)(next_fd s := Some (j, True))"
  have two: "open_log 2 = open_log (Suc 1)" "open_create_locked 2 = open_create_locked (Suc 1)" by (simp_all add: numeral_2_eq_2)
  show ?thesis
  proof (cases "other_flock s (f_ino f) = L_None")
    case True
    let ?s1 = "(popped s)\<lparr>my_flock := (my_flock s)(fd := L_Exclusive)\<rparr>"
    have fl: "sys_flock_ex_nb fd s = (0, ?s1)" by (rule flock_ok(1) [OF assms(1,2) True])
    have q1: "quiet ?s1" by (rule same_env_quiet [OF flock_same(1) assms(1)])
    have F1: "fds ?s1 fd = Some f" "length (file_of ?s1 fd) < 2 ^ 62" "dir ?s1 lp = Some j"
      using assms(2-4) by (simp_all add: file_of_def)
    obtain s2 where s2: "logdb_log_create dbg lp fd ?s1 = Done (None, s2)" "same_data ?s1 s2" "quiet s2"
      using log_create_exists [OF q1 F1] by blast
    have n2: "dir s2 = dir s" "inode s2 = inode s" "next_fd s2 = next_fd s" "keys s2 = keys s" "next_ino s2 = next_ino s"
      using same_data_same [OF s2(2)] flock_same(2) [of s] by (auto simp: same_names_def)
    obtain s3 where s3: "logdb_log_open lp s2 = Done (Some (log_at (next_fd s) lp), s3)" "opens s2 ?k s3"
      using log_open_quiet [OF s2(3), of lp j] assms(4-6) n2 by (auto simp: opens_def log_at_def)
    have o3: "opens s ?k s3" by (rule flock_opens [OF same_opens [OF s2(2) s3(2)]])
    have c: "open_create_locked 2 dbg lp fd True ?s1 = Done (Some (log_at (next_fd s) lp), False, True, s3)"
      unfolding two using s2(1) s3(1) by simp
    show ?thesis
    proof (cases nosync)
      case True
      then show ?thesis unfolding two using fl c o3 by simp
    next
      case False
      obtain f3 where f3: "fds s3 fd = Some f3" "f_ino f3 = f_ino f"
        by (rule opens_fd [OF o3 assms(2)]) (use assms(7) in auto)
      have "other_flock s3 (f_ino f3) = L_None" using o3 True f3(2) by (simp add: opens_def same_env_def)
      from flock_ok(2) [OF quiet [OF o3] f3(1) this] have
        "open_log 2 dbg lp fd nosync True s = Done (Some (log_at (next_fd s) lp), (popped s3)\<lparr>my_flock := (my_flock s3)(fd := L_Shared)\<rparr>)"
        unfolding two using fl c False by simp
      with opens_flock [OF o3] show ?thesis by blast
    qed
  next
    case False
    let ?s1 = "popped s"
    let ?s2 = "(popped ?s1)\<lparr>my_flock := (my_flock ?s1)(fd := L_Shared)\<rparr>"
    have fl: "sys_flock_ex_nb fd s = (-1, ?s1)" by (rule flock_busy [OF assms(1,2) False])
    have q1: "quiet ?s1" using assms(1) by simp
    have sh: "sys_flock_sh fd ?s1 = Done (0, ?s2)" using flock_share [OF q1] assms(2,8) by simp
    have q2: "quiet ?s2" by (rule same_env_quiet [OF flock_same(1) q1])
    obtain s3 where s3: "logdb_log_open lp ?s2 = Done (Some (log_at (next_fd s) lp), s3)" "opens ?s2 ?k s3"
    proof -
      have "keys ?s2 = keys s" by (simp add: keys_def fun_eq_iff)
      then show ?thesis using log_open_quiet [OF q2, of lp j] assms(4-6) that by (auto simp: opens_def log_at_def)
    qed
    have "\<not> nosync" using False assms(9) by blast
    then have "open_log 2 dbg lp fd nosync True s = Done (Some (log_at (next_fd s) lp), s3)"
      unfolding two using fl sh s3(1) by (simp add: log_at_def)
    moreover have "opens s ?k s3" by (rule same_opens [OF same_data_steps(1) flock_opens [OF s3(2)]])
    ultimately show ?thesis by blast
  qed
qed

text \<open>A log file without a header, left by a creation that did not come to its end: it is deleted and made again.\<close>

lemma open_log_broken:
  assumes "quiet s" "fds s fd = Some f" "length (file_of s fd) < 2 ^ 62" "dir s lp = Some j" "take 6 (inode s j) \<noteq> logdb_log_header"
    and "log_in (file_of s fd) M" "\<not> pwrite_appends s" "\<not> (dbg \<and> test_env s)"
    and "0 \<le> next_fd s" "fd < next_fd s" "\<forall>i. other_flock s i = L_None"
  shows "\<exists>s'. open_log 2 dbg lp fd nosync True s = Done (Some (log_at (next_fd s + 1) lp), s') \<and> same_env s s' \<and>
     dir s' = (dir s)(lp := Some (next_ino s)) \<and> inode s' = (inode s)(next_ino s := M) \<and> next_ino s' = Suc (next_ino s) \<and>
     next_fd s' = next_fd s + 2 \<and> keys s' = (keys s)(next_fd s := None, next_fd s + 1 := Some (next_ino s, True))"
proof -
  let ?s1 = "(popped s)\<lparr>my_flock := (my_flock s)(fd := L_Exclusive)\<rparr>"
  have fl: "sys_flock_ex_nb fd s = (0, ?s1)" using flock_ok(1) [OF assms(1,2)] assms(11) by simp
  have q1: "quiet ?s1" by (rule same_env_quiet [OF flock_same(1) assms(1)])
  have F1: "fds ?s1 fd = Some f" "length (file_of ?s1 fd) < 2 ^ 62" "dir ?s1 lp = Some j"
    using assms(2-4) by (simp_all add: file_of_def)
  obtain s2 where s2: "logdb_log_create dbg lp fd ?s1 = Done (None, s2)" "same_data ?s1 s2" "quiet s2"
    using log_create_exists [OF q1 F1] by blast
  have n2: "dir s2 = dir s" "inode s2 = inode s" "next_fd s2 = next_fd s" "keys s2 = keys s" "next_ino s2 = next_ino s"
    using same_data_same [OF s2(2)] flock_same(2) [of s] by (auto simp: same_names_def)
  have e2: "same_env s s2" using same_data_same [OF s2(2)] same_env_trans [OF flock_same(1)] by blast
  obtain s3 where s3: "logdb_log_open lp s2 = Done (None, s3)" "same_env s2 s3" "dir s3 = dir s" "inode s3 = inode s"
      "next_ino s3 = next_ino s" "next_fd s3 = next_fd s + 1" "keys s3 = (keys s)(next_fd s := None)"
    using log_open_quiet [OF s2(3), of lp j] assms(4,5,9) n2 by auto
  have q3: "quiet s3" by (rule same_env_quiet [OF s3(2) s2(3)])
  let ?s4 = "(popped s3)\<lparr>dir := (dir s3)(lp := None)\<rparr>"
  have u: "sys_unlink lp s3 = (0, ?s4)"
    using quiet_event [OF q3] s3(3) assms(4) by (simp add: sys_unlink_def pop_eq Let_def)
  have e4: "same_env s ?s4" by (rule same_env_trans [OF same_env_trans [OF e2 s3(2)] unlink_same(1)])
  have q4: "quiet ?s4" by (rule same_env_quiet [OF e4 assms(1)])
  have k4: "keys ?s4 = (keys s)(next_fd s := None)" using unlink_same(2) s3(7) by simp
  have "keys ?s4 fd = keys s fd" using k4 assms(10) by simp
  then have kf: "keys ?s4 fd = Some (f_ino f, f_append f)" using assms(2) by (simp add: keys_def fd_key_def)
  then obtain f4 where f4: "fds ?s4 fd = Some f4" by (auto simp: keys_fd)
  have F4: "file_of ?s4 fd = file_of s fd" using file_keys [OF kf] s3(4) assms(2) by (simp add: file_of_def)
  have e: "\<not> pwrite_appends ?s4" "\<not> (dbg \<and> test_env ?s4)" "\<forall>i. other_flock ?s4 i = L_None" "0 \<le> next_fd ?s4"
    using e4 assms(7-9,11) s3(6) by (simp_all add: same_env_def)
  from log_create_quiet [OF q4 f4, of M lp dbg] F4 assms(6) e obtain s5 where
    s5: "logdb_log_create dbg lp fd ?s4 = Done (Some (log_at (next_fd s + 1) lp), s5)" "same_env ?s4 s5" "quiet s5"
      "dir s5 = (dir s)(lp := Some (next_ino s))" "inode s5 = (inode s)(next_ino s := M)" "next_ino s5 = Suc (next_ino s)"
      "next_fd s5 = next_fd s + 2" "keys s5 = (keys s)(next_fd s := None, next_fd s + 1 := Some (next_ino s, True))"
    by (auto simp: s3(3-7) unlink_same(2) log_at_def)
  have e5: "same_env s s5" by (rule same_env_trans [OF e4 s5(2)])
  have two: "open_log 2 = open_log (Suc 1)" "open_create_locked 2 = open_create_locked (Suc (Suc 0))" by (simp_all add: numeral_2_eq_2)
  have c: "open_create_locked 2 dbg lp fd True ?s1 = Done (Some (log_at (next_fd s + 1) lp), False, False, s5)"
    unfolding two using s2(1) s3(1) u s5(1) by simp
  show ?thesis
  proof (cases nosync)
    case True
    then show ?thesis unfolding two using fl c e5 s5(4-8) by simp
  next
    case False
    have "keys s5 fd = Some (f_ino f, f_append f)" using s5(8) assms(2,10) by (simp add: keys_def fd_key_def)
    then obtain f5 where f5: "fds s5 fd = Some f5" by (auto simp: keys_fd)
    have "other_flock s5 (f_ino f5) = L_None" using e5 assms(11) by (simp add: same_env_def)
    from flock_ok(2) [OF s5(3) f5 this] have
      run: "open_log 2 dbg lp fd nosync True s = Done (Some (log_at (next_fd s + 1) lp), (popped s5)\<lparr>my_flock := (my_flock s5)(fd := L_Shared)\<rparr>)"
      unfolding two using fl c False by simp
    have "keys ((popped s5)\<lparr>my_flock := (my_flock s5)(fd := L_Shared)\<rparr>) = keys s5" by (simp add: keys_def fun_eq_iff)
    then show ?thesis
      using run same_env_trans [OF e5 flock_same(1) [of s5]] s5(4-8)
      by (intro exI [of _ "(popped s5)\<lparr>my_flock := (my_flock s5)(fd := L_Shared)\<rparr>"]) simp
  qed
qed

section \<open>A connection on an old file\<close>

definition conn_at :: "32 word \<Rightarrow> int \<Rightarrow> logdb_log_t \<Rightarrow> logdb_connection_t" where
  "conn_at flags fd log =
     \<lparr>c_version = LOGDB_VERSION, c_readers = 0, c_flags = flags, c_fd = fd, c_log = log, c_current_txn = (\<lambda>_. 0), c_alive = True\<rparr>"

definition open_rest :: "32 word \<Rightarrow> int \<Rightarrow> logdb_log_t option \<times> os \<Rightarrow> (logdb_connection_t option \<times> os) outcome" where
  "open_rest flags fd = (\<lambda>(log, s).
     case log of
        None \<Rightarrow> Done (None, sys_close fd s)
      | Some log \<Rightarrow>
          let logclosefail = (\<lambda>s. Done (None, sys_close fd (snd (logdb_log_close log s)))) in
          case sys_malloc s of (ok, s) \<Rightarrow>
          if \<not> ok then logclosefail s
          else case sys_malloc s of (ok, s) \<Rightarrow>
          if \<not> ok then logclosefail s
          else case sys_malloc s of (ok, s) \<Rightarrow>
          if \<not> ok then logclosefail s
          else Done (Some \<lparr>c_version = LOGDB_VERSION, c_readers = 0, c_flags = flags, c_fd = fd, c_log = log,
                           c_current_txn = (\<lambda>_. 0), c_alive = True\<rparr>, s))"

lemma logdb_open_header:
  assumes "quiet s" "dir s path = Some i" "take 6 (inode s i) = logdb_header" "0 \<le> next_fd s"
  shows "\<exists>t f. logdb_open dbg (Some path) flags s =
       obind (open_log 2 dbg (path @ LOGDB_LOG_FILE_SUFFIX) (next_fd s) (has_flag flags LOGDB_OPEN_NOSYNC) True t) (open_rest flags (next_fd s)) \<and>
     quiet t \<and> same_env s t \<and> dir t = dir s \<and> inode t = inode s \<and> next_ino t = next_ino s \<and>
     next_fd t = next_fd s + 1 \<and> keys t = (keys s)(next_fd s := Some (i, False)) \<and> fds t (next_fd s) = Some f \<and> f_ino f = i"
proof -
  let ?fd = "next_fd s" and ?f = "\<lparr>f_ino = i, f_pos = 0, f_append = False\<rparr>" and ?lp = "path @ LOGDB_LOG_FILE_SUFFIX"
  let ?s1 = "popped s"
  let ?s2 = "(popped ?s1)\<lparr>fds := (fds s)(?fd := Some ?f), next_fd := ?fd + 1\<rparr>"
  have q1: "quiet ?s1" using assms(1) by simp
  have o: "sys_open path \<lparr>o_creat = has_flag flags LOGDB_OPEN_CREATE, o_excl = False, o_append = False\<rparr> ?s1 = (?fd, ?s2)"
    using open_old_quiet [OF q1, of path i "\<lparr>o_creat = has_flag flags LOGDB_OPEN_CREATE, o_excl = False, o_append = False\<rparr>"] assms(2) by simp
  have "set (sched ?s2) \<subseteq> set (sched s)" using tl_subset [of "tl (sched s)"] tl_subset [of "sched s"] by auto
  then have e2: "same_env s ?s2" by (simp add: same_env_def)
  have q2: "quiet ?s2" by (rule same_env_quiet [OF e2 assms(1)])
  have F2: "fds ?s2 ?fd = Some ?f" "file_of ?s2 ?fd = inode s i" by (simp_all add: file_of_def)
  have h2: "take 6 (file_of ?s2 ?fd) = logdb_header" using F2(2) assms(3) by simp
  obtain s3 where s3: "open_header ?fd flags ?s2 = (True, s3)" "same_data ?s2 s3" "quiet s3"
    using open_header_quiet [OF q2 F2(1) _ _ h2, of flags] by auto
  have e3: "same_env s s3" "dir s3 = dir s" "inode s3 = inode s" "next_ino s3 = next_ino s" "next_fd s3 = ?fd + 1" "keys s3 = keys ?s2"
    using same_data_same [OF s3(2)] same_env_trans [OF e2] by (simp_all add: same_names_def)
  have k3: "keys s3 = (keys s)(?fd := Some (i, False))" unfolding e3(6) by (simp add: keys_def fd_key_def fun_eq_iff)
  then have "keys s3 ?fd = Some (i, False)" by simp
  then obtain f3 where "fds s3 ?fd = Some f3" "f_ino f3 = i" by (auto simp: keys_fd)
  moreover have nn: "?fd \<noteq> -1" using assms(4) by simp
  have "logdb_open dbg (Some path) flags s = obind (open_log 2 dbg ?lp ?fd (has_flag flags LOGDB_OPEN_NOSYNC) True s3) (open_rest flags ?fd)"
    using pass_calls(1) [OF assms(1)] o nn s3(1) by (simp add: logdb_open_def Let_def open_rest_def)
  ultimately show ?thesis using s3(3) e3(1-5) k3 by (intro exI [of _ s3] exI [of _ f3]) simp
qed

lemma open_rest_quiet:
  assumes "quiet u"
  shows "\<exists>s'. open_rest flags fd (Some log, u) = Done (Some (conn_at flags fd log), s') \<and> same_data u s'"
proof -
  have "sys_malloc u = (True, popped u)" "sys_malloc (popped u) = (True, popped (popped u))"
    "sys_malloc (popped (popped u)) = (True, popped (popped (popped u)))"
    using pass_calls(1) assms by simp_all
  then have "open_rest flags fd (Some log, u) = Done (Some (conn_at flags fd log), popped (popped (popped u)))"
    by (simp add: open_rest_def conn_at_def Let_def)
  moreover have "same_data u (popped (popped (popped u)))"
    using same_data_trans [OF same_data_trans [OF same_data_steps(1) same_data_steps(1)] same_data_steps(1)] .
  ultimately show ?thesis by blast
qed

lemma logdb_open_old:
  assumes "quiet s" "dir s path = Some i" "take 6 (inode s i) = logdb_header" "0 \<le> next_fd s"
    and step: "\<And>t f. quiet t \<Longrightarrow> same_env s t \<Longrightarrow> dir t = dir s \<Longrightarrow> inode t = inode s \<Longrightarrow> next_ino t = next_ino s \<Longrightarrow>
        next_fd t = next_fd s + 1 \<Longrightarrow> keys t = (keys s)(next_fd s := Some (i, False)) \<Longrightarrow> fds t (next_fd s) = Some f \<Longrightarrow> f_ino f = i \<Longrightarrow>
        \<exists>u. open_log 2 dbg (path @ LOGDB_LOG_FILE_SUFFIX) (next_fd s) (has_flag flags LOGDB_OPEN_NOSYNC) True t = Done (Some log, u) \<and> quiet u \<and> P u"
  shows "\<exists>u s'. logdb_open dbg (Some path) flags s = Done (Some (conn_at flags (next_fd s) log), s') \<and> P u \<and> same_data u s'"
proof -
  obtain t f where t: "logdb_open dbg (Some path) flags s =
       obind (open_log 2 dbg (path @ LOGDB_LOG_FILE_SUFFIX) (next_fd s) (has_flag flags LOGDB_OPEN_NOSYNC) True t) (open_rest flags (next_fd s))"
     "quiet t" "same_env s t" "dir t = dir s" "inode t = inode s" "next_ino t = next_ino s"
     "next_fd t = next_fd s + 1" "keys t = (keys s)(next_fd s := Some (i, False))" "fds t (next_fd s) = Some f" "f_ino f = i"
    using logdb_open_header [OF assms(1-4)] by blast
  from step [OF t(2-10)] obtain u where
    u: "open_log 2 dbg (path @ LOGDB_LOG_FILE_SUFFIX) (next_fd s) (has_flag flags LOGDB_OPEN_NOSYNC) True t = Done (Some log, u)" "quiet u" "P u"
    by blast
  from open_rest_quiet [OF u(2), of flags "next_fd s" log] obtain s' where
    "open_rest flags (next_fd s) (Some log, u) = Done (Some (conn_at flags (next_fd s) log), s')" "same_data u s'" by blast
  with u(3) show ?thesis unfolding t(1) u(1) obind.simps by blast
qed

text \<open>What has to be checked of the files for a new connection to be settled.\<close>

definition log_ok :: "byte list \<Rightarrow> bool" where
  "log_ok L \<longleftrightarrow> take 6 L = logdb_log_header \<and> even (length L) \<and> log_count L < 65536"

lemma conn_at_files:
  assumes "keys s fd = Some (i, False)" "keys s lfd = Some (j, True)"
  shows "log_file (conn_at flags fd (log_at lfd lp)) s = inode s j" "db_file (conn_at flags fd (log_at lfd lp)) s = inode s i"
  using file_keys [OF assms(1)] file_keys [OF assms(2)] by (simp_all add: log_file_def db_file_def conn_at_def log_at_def)

lemma conn_at_sections:
  assumes "keys s fd = Some (i, False)" "keys s lfd = Some (j, True)"
  shows "sections_of \<lparr>w_os = s, w_heap = h, w_conn = conn_at flags fd (log_at lfd lp)\<rparr> = db_sections (inode s j) (inode s i)"
  by (simp add: sections_of_def conn_at_files [OF assms])

lemma conn_at_client:
  assumes "keys s fd = Some (i, False)" "keys s lfd = Some (j, True)" "i \<noteq> j" "dir s path = Some i" "dir s (path @ LOGDB_LOG_FILE_SUFFIX) = Some j"
    and "i < next_ino s" "j < next_ino s" "0 \<le> next_fd s" "calm s" "other_locks s = []" "\<not> pwrite_appends s"
    and "log_ok (inode s j)" "take 6 (inode s i) = logdb_header" "data_present (inode s j) (inode s i)" "heap_ok h" "plenty h"
    and w_def: "w = \<lparr>w_os = s, w_heap = h, w_conn = conn_at flags fd (log_at lfd (path @ LOGDB_LOG_FILE_SUFFIX))\<rparr>"
  shows "client_ok tid w" "named path w" "\<forall>i. other_flock s i = L_None \<Longrightarrow> settled path tid w"
proof -
  let ?lp = "path @ LOGDB_LOG_FILE_SUFFIX"
  let ?c = "conn_at flags fd (log_at lfd ?lp)"
  have c: "c_fd ?c = fd" "l_fd (c_log ?c) = lfd" "l_path (c_log ?c) = Some ?lp" "l_lock (c_log ?c) = []" "c_readers ?c = 0"
    "c_alive ?c" "c_version ?c = LOGDB_VERSION" "c_current_txn ?c = (\<lambda>_. 0)"
    by (simp_all add: conn_at_def log_at_def)
  note F = conn_at_files [OF assms(1,2), of flags ?lp]
  obtain f g where fg: "fds s fd = Some f" "f_ino f = i" "\<not> f_append f" "fds s lfd = Some g" "f_ino g = j" "f_append g"
    using assms(1,2) by (auto simp: keys_fd)
  have L: "take 6 (inode s j) = logdb_log_header" "even (length (inode s j))" "log_count (inode s j) < 65536" "6 \<le> length (inode s j)"
    using assms(12) take_eq_length [of 6 "inode s j" logdb_log_header] by (simp_all add: log_ok_def)
  have ck: "conn_ok ?c s" unfolding conn_ok_def c F using fg assms(3,11) L by simp
  have ready: "ready w" using ck assms(14) by (simp add: w_def ready_def F c idle_def)
  then show client: "client_ok tid w"
    using assms(9,10,15,16) by (simp add: w_def client_ok_def c logdb_txn_current_def)
  show named: "named path w" using assms(1,2,4-8,13) by (simp add: w_def named_def Let_def c F)
  show "settled path tid w" if "\<forall>i. other_flock s i = L_None"
    using client named that L(1) by (simp add: w_def settled_def c F)
qed

end
