(* ===== verification/Stress.thy ===== *)
theory Stress
  imports Client Dump
begin

text \<open>
  The loop of puts of \<^verbatim>\<open>stress/stress.c\<close>, and the tools of the repository one after the other: what has
  been put is what is dumped.
\<close>

section \<open>The repository's loop of puts\<close>

text \<open>
  \<open>thread_func\<close> of \<^verbatim>\<open>stress/stress.c\<close>: the loop over the values, with the failed iterations; the counter
  lies on the stack while it is copied.
\<close>

definition new_int :: "bool \<Rightarrow> int \<Rightarrow> heap \<Rightarrow> (ptr \<times> heap) outcome" where
  "new_int dbg i h =
     (let a = Suc (brk h); h = h\<lparr>brk := a, mem := (mem h)(a := Some (le32 (word_of_int i)))\<rparr>
      in obind (logdb_buffer_new_copy dbg a 4 h) (\<lambda>(p, h). Done (p, h\<lparr>mem := (mem h)(a := None)\<rparr>)))"

fun thread_loop :: "nat \<Rightarrow> bool \<Rightarrow> nat \<Rightarrow> ptr \<Rightarrow> ptr \<Rightarrow> int list \<Rightarrow> world \<Rightarrow> (int list \<times> world) outcome" where
  "thread_loop fuel dbg tid conn keybuf [] w = Done ([], w)"
| "thread_loop fuel dbg tid conn keybuf (i # is) w =
     obind (new_int dbg i (w_heap w)) (\<lambda>(valuebuf, h).
     obind (logdb_put fuel dbg tid conn keybuf valuebuf (w\<lparr>w_heap := h\<rparr>)) (\<lambda>(r, w).
     obind (logdb_buffer_free valuebuf (w_heap w)) (\<lambda>h.
     obind (thread_loop fuel dbg tid conn keybuf is (w\<lparr>w_heap := h\<rparr>)) (\<lambda>(failed, w).
     Done ((if r \<noteq> 0 then i # failed else failed), w)))))"

definition thread_func :: "nat \<Rightarrow> bool \<Rightarrow> nat \<Rightarrow> ptr \<Rightarrow> ptr \<Rightarrow> nat \<Rightarrow> world \<Rightarrow> (int list \<times> world) outcome" where
  "thread_func fuel dbg tid conn arg cnt w =
     obind (read_cstring (w_heap w) arg) (\<lambda>key.
     case logdb_buffer_new_direct dbg arg (of_nat (length key + 1)) (Some C_free) (w_heap w) of (keybuf, h) \<Rightarrow>
     obind (thread_loop fuel dbg tid conn keybuf (map int [0..<cnt]) (w\<lparr>w_heap := h\<rparr>)) (\<lambda>(failed, w).
     obind (logdb_buffer_free keybuf (w_heap w)) (\<lambda>h. Done (failed, w\<lparr>w_heap := h\<rparr>))))"

section \<open>Verification\<close>

lemma client_scannable:
  assumes "client_ok tid w" "sections_of w = map records_bytes R" "list_all printable (concat R)"
  shows "scannable R w"
proof -
  have "list_all (list_all (\<lambda>(k, v). k \<noteq> [] \<and> v \<noteq> [])) R"
    using assms(3) by (fastforce simp: list_all_iff printable_def)
  then show ?thesis
    using assms(1,2) calm_quiet by (auto simp: client_ok_def scannable_def ready_def)
qed

lemma sint_small: "n < 65536 \<Longrightarrow> sint (word_of_int (int n) :: 32 word) = int n"
proof -
  assume n: "n < 65536"
  have "sint (word_of_int (int n) :: 32 word) = signed_take_bit 31 (int n)"
    by (simp only: sint_sbintrunc') simp
  also have "\<dots> = int n" using n by (intro signed_take_bit_int_eq_self) simp_all
  finally show ?thesis .
qed

lemma new_int_ok:
  assumes "heap_ok h" "plenty h"
  shows "\<exists>q h'. new_int dbg i h = Done (q, h') \<and> adds_buf h q (le32 (word_of_int i)) h' \<and> txns h' = txns h"
proof -
  have "new_int dbg i h = new_bytes dbg (le32 (word_of_int i)) h" by (simp add: new_int_def new_bytes_def)
  then show ?thesis using new_bytes_ok [OF assms, of "le32 (word_of_int i)" dbg] by simp
qed

text \<open>What the loop of puts does to the database, counted as a multiset of records.\<close>

lemma put_int:
  assumes c: "client_ok tid w" and conn: "conn \<noteq> 0" and key: "buffer_has (w_heap w) keybuf ks"
    and L: "length ks + 12 = L" "L < 65536" "\<not> L dvd 65536" "list_all (\<lambda>S. L dvd length S) (sections_of w)"
    and n: "Suc (log_count (log_file (w_conn w) (w_os w))) < 65536" and R: "sections_of w = map records_bytes R"
  shows "\<exists>q h w1 g R'. new_int dbg i (w_heap w) = Done (q, h) \<and>
     logdb_put (Suc f) dbg tid conn keybuf q (w\<lparr>w_heap := h\<rparr>) = Done (0, w1) \<and>
     logdb_buffer_free q (w_heap w1) = Done g \<and> client_ok tid (w1\<lparr>w_heap := g\<rparr>) \<and>
     mem g = mem (w_heap w) \<and> bufs g = bufs (w_heap w) \<and> txns g = txns (w_heap w) \<and>
     sections_of w1 = map records_bytes R' \<and>
     mset (concat R') = add_mset (ks, le32 (word_of_int i)) (mset (concat R)) \<and>
     list_all (\<lambda>S. L dvd length S) (sections_of w1) \<and>
     log_count (log_file (w_conn w1) (w_os w1)) \<le> Suc (log_count (log_file (w_conn w) (w_os w))) \<and> stays w w1"
proof -
  let ?v = "le32 (word_of_int i)"
  have hw: "heap_ok (w_heap w)" "plenty (w_heap w)" using c by (simp_all add: client_ok_def)
  obtain q h where q: "new_int dbg i (w_heap w) = Done (q, h)" "adds_buf (w_heap w) q ?v h" "txns h = txns (w_heap w)"
    using new_int_ok [OF hw, of dbg i] by blast
  have h: "heap_ok h" "plenty h" using q(2) by (auto simp: adds_buf_def)
  have c1: "client_ok tid (w\<lparr>w_heap := h\<rparr>)" using c h by (simp add: client_ok_def)
  have "list_all (\<lambda>S. length S + (8 + length ks + length ?v) \<noteq> 65536) (sections_of w)"
    unfolding list_all_iff
  proof (intro ballI notI)
    fix S assume "S \<in> set (sections_of w)" and eq: "length S + (8 + length ks + length ?v) = 65536"
    then have "L dvd length S" using L(4) by (simp add: list_all_iff)
    moreover have "length S + L = 65536" using eq L(1) by simp
    ultimately have "L dvd 65536" by (metis dvd_add dvd_refl)
    with L(3) show False by simp
  qed
  with put_client [OF c1 conn, of keybuf ks q ?v f dbg] buffer_has_added [OF key q(2) hw(1)] added_has [OF q(2)] L(1,2) n
  obtain w1 where w1: "logdb_put (Suc f) dbg tid conn keybuf q (w\<lparr>w_heap := h\<rparr>) = Done (0, w1)" "client_ok tid w1"
      "extends (sections_of w) (record_bytes ks ?v) (sections_of w1)" "mem (w_heap w1) = mem h" "bufs (w_heap w1) = bufs h"
      "txns (w_heap w1) = txns h" "log_count (log_file (w_conn w1) (w_os w1)) \<le> Suc (log_count (log_file (w_conn w) (w_os w)))"
      "stays w w1"
    by auto
  obtain g where g: "logdb_buffer_free q (w_heap w1) = Done g" "mem g = mem (w_heap w)" "bufs g = bufs (w_heap w)"
      "txns g = txns (w_heap w1)" "heap_ok g" "plenty g"
    using free_added [OF q(2), of "w_heap w1"] w1(2,4,5) by (auto simp: client_ok_def)
  then have c2: "client_ok tid (w1\<lparr>w_heap := g\<rparr>)" using w1(2) by (simp add: client_ok_def)
  obtain R' where R': "sections_of w1 = map records_bytes R'" "mset (concat R') = add_mset (ks, ?v) (mset (concat R))"
    using extends_records [OF w1(3) [unfolded R]] by blast
  have "length (record_bytes ks ?v) = L" using L(1) by (simp add: record_length)
  from extends_dvd [OF w1(3) L(4) this] q(1,3) w1(1,6-8) g c2 R' show ?thesis by (metis (no_types, lifting))
qed

lemma thread_loop_stores:
  assumes "client_ok tid w" "conn \<noteq> 0" "buffer_has (w_heap w) keybuf ks"
    and "length ks + 12 = L" "L < 65536" "\<not> L dvd 65536" "list_all (\<lambda>S. L dvd length S) (sections_of w)"
    and "log_count (log_file (w_conn w) (w_os w)) + length is < 65536" "sections_of w = map records_bytes R"
  shows "\<exists>w' R'. thread_loop (Suc f) dbg tid conn keybuf is w = Done ([], w') \<and> client_ok tid w' \<and>
     sections_of w' = map records_bytes R' \<and>
     mset (concat R') = mset (concat R) + mset (map (\<lambda>i. (ks, le32 (word_of_int i))) is) \<and>
     mem (w_heap w') = mem (w_heap w) \<and> bufs (w_heap w') = bufs (w_heap w) \<and> txns (w_heap w') = txns (w_heap w) \<and>
     stays w w' \<and> log_count (log_file (w_conn w') (w_os w')) \<le> log_count (log_file (w_conn w) (w_os w)) + length is"
  using assms
proof (induction "is" arbitrary: w R)
  case Nil
  then show ?case by (intro exI [of _ w] exI [of _ R]) simp
next
  case (Cons i "is")
  have n: "Suc (log_count (log_file (w_conn w) (w_os w))) < 65536" using Cons.prems(8) by simp
  from put_int [OF Cons.prems(1-7) n Cons.prems(9), of dbg i f] obtain q h w1 g R1 where
    p: "new_int dbg i (w_heap w) = Done (q, h)" "logdb_put (Suc f) dbg tid conn keybuf q (w\<lparr>w_heap := h\<rparr>) = Done (0, w1)"
      "logdb_buffer_free q (w_heap w1) = Done g" "client_ok tid (w1\<lparr>w_heap := g\<rparr>)"
      "mem g = mem (w_heap w)" "bufs g = bufs (w_heap w)" "txns g = txns (w_heap w)" "sections_of w1 = map records_bytes R1"
      "mset (concat R1) = add_mset (ks, le32 (word_of_int i)) (mset (concat R))"
      "list_all (\<lambda>S. L dvd length S) (sections_of w1)"
      "log_count (log_file (w_conn w1) (w_os w1)) \<le> Suc (log_count (log_file (w_conn w) (w_os w)))" "stays w w1"
    by blast
  let ?w2 = "w1\<lparr>w_heap := g\<rparr>"
  have "buffer_has (w_heap ?w2) keybuf ks" using buffer_has_same [OF Cons.prems(3), of g] p(5,6) by simp
  with Cons.IH [OF p(4) Cons.prems(2) _ Cons.prems(4-6), of R1] p(8,10,11) Cons.prems(8) obtain w' R' where
    w': "thread_loop (Suc f) dbg tid conn keybuf is ?w2 = Done ([], w')" "client_ok tid w'" "sections_of w' = map records_bytes R'"
      "mset (concat R') = mset (concat R1) + mset (map (\<lambda>i. (ks, le32 (word_of_int i))) is)"
      "mem (w_heap w') = mem g" "bufs (w_heap w') = bufs g" "txns (w_heap w') = txns g" "stays w1 w'"
      "log_count (log_file (w_conn w') (w_os w')) \<le> log_count (log_file (w_conn w1) (w_os w1)) + length is"
    by auto
  have "thread_loop (Suc f) dbg tid conn keybuf (i # is) w = Done ([], w')" using p(1-3) w'(1) by simp
  with w' p(5-7,9,11) stays_trans [OF p(12) w'(8)] show ?case by (intro exI [of _ w'] exI [of _ R']) simp
qed


lemma takeWhile_zero:
  assumes "(0 :: byte) \<in> set bs"
  shows "take (Suc (length (takeWhile (\<lambda>b. b \<noteq> 0) bs))) bs = takeWhile (\<lambda>b. b \<noteq> 0) bs @ [0]"
    "Suc (length (takeWhile (\<lambda>b. b \<noteq> 0) bs)) \<le> length bs"
  using assms by (induction bs) auto

lemma thread_func_stores:
  assumes "client_ok tid w" "conn \<noteq> 0" "mem (w_heap w) arg = Some bs" "0 \<in> set bs" "arg \<noteq> 0"
    and ks: "ks = takeWhile (\<lambda>b. b \<noteq> 0) bs" and "length ks + 13 = L" "L < 65536" "\<not> L dvd 65536"
    and "list_all (\<lambda>S. L dvd length S) (sections_of w)"
    and "log_count (log_file (w_conn w) (w_os w)) + cnt < 65536" "sections_of w = map records_bytes R"
  shows "\<exists>w' R'. thread_func (Suc f) dbg tid conn arg cnt w = Done ([], w') \<and> client_ok tid w' \<and>
     sections_of w' = map records_bytes R' \<and>
     mset (concat R') = mset (concat R) + mset (map (\<lambda>i. (ks @ [0], le32 (word_of_int (int i)))) [0..<cnt]) \<and> stays w w' \<and>
     log_count (log_file (w_conn w') (w_os w')) \<le> log_count (log_file (w_conn w) (w_os w)) + cnt"
proof -
  let ?h = "w_heap w"
  have hw: "heap_ok ?h" "plenty ?h" using assms(1) by (simp_all add: client_ok_def)
  have len: "length ks + 1 < 4294967296" using assms(7,8) by simp
  let ?q = "Suc (brk ?h)"
  let ?b = "\<lparr>b_data = arg, b_len = of_nat (length ks + 1), b_disposer = Some C_free, b_orig = 0, b_next = 0, b_refcnt = 1\<rparr>"
  let ?h1 = "put_buf (h_bump ?h) ?q ?b"
  have nd: "logdb_buffer_new_direct dbg arg (of_nat (length ks + 1)) (Some C_free) ?h = (?q, ?h1)"
    using new_direct_plenty [OF hw(2)] assms(5) by simp
  have "load_bytes ?h1 arg (unat (b_len ?b)) = Done (ks @ [0])"
    using takeWhile_zero [OF assms(4)] assms(3) unat_small [OF len] ks by (simp add: load_bytes_def)
  then have "brep ?h1 1 ?q (ks @ [0])" by (intro plain_brep [of _ _ ?b]) simp_all
  then have key: "buffer_has ?h1 ?q (ks @ [0])" using assms(5) unfolding buffer_has_def by (intro exI [of _ ?b] exI [of _ 1]) simp
  have "heap_ok ?h1" using hw(1) by (fastforce simp: heap_ok_def)
  then have c1: "client_ok tid (w\<lparr>w_heap := ?h1\<rparr>)" using assms(1) by (simp add: client_ok_def)
  from thread_loop_stores [OF c1 assms(2), of ?q "ks @ [0]" L "map int [0..<cnt]" R f dbg] key assms(7-12) obtain w' R' where
    w': "thread_loop (Suc f) dbg tid conn ?q (map int [0..<cnt]) (w\<lparr>w_heap := ?h1\<rparr>) = Done ([], w')" "client_ok tid w'"
      "sections_of w' = map records_bytes R'"
      "mset (concat R') = mset (concat R) + mset (map (\<lambda>i. (ks @ [0], le32 (word_of_int i))) (map int [0..<cnt]))"
      "mem (w_heap w') = mem ?h1" "bufs (w_heap w') = bufs ?h1" "stays w w'"
      "log_count (log_file (w_conn w') (w_os w')) \<le> log_count (log_file (w_conn w) (w_os w)) + cnt"
    by auto
  have b: "bufs (w_heap w') ?q = Some ?b" "mem (w_heap w') arg \<noteq> None" using w'(5,6) assms(3) by simp_all
  obtain g where g: "logdb_buffer_free ?q (w_heap w') = Done g" "mem g = (mem (w_heap w'))(arg := None)"
    "bufs g = (bufs (w_heap w'))(?q := None)" "txns g = txns (w_heap w')" "brk g = brk (w_heap w')" "oom g = oom (w_heap w')"
    using free_owned [OF b(1,2) _ assms(5)] by auto
  have "heap_ok g" "plenty g" using w'(2) g by (auto simp: client_ok_def heap_ok_def plenty_def)
  then have "client_ok tid (w'\<lparr>w_heap := g\<rparr>)" using w'(2) by (simp add: client_ok_def)
  moreover have "thread_func (Suc f) dbg tid conn arg cnt w = Done ([], w'\<lparr>w_heap := g\<rparr>)"
    using assms(3,4) nd w'(1) g(1) by (simp add: thread_func_def read_cstring_def ks [symmetric])
  ultimately show ?thesis using w'(3,4,7,8) by (intro exI [of _ "w'\<lparr>w_heap := g\<rparr>"] exI [of _ R']) (simp add: comp_def)
qed

section \<open>Properties\<close>

text \<open>An empty database and the two blocks with their buffers.\<close>

definition client_heap :: heap where
  "client_heap = \<lparr>mem = [1 \<mapsto> [107, 0], 2 \<mapsto> [7, 0, 0, 0]],
     bufs = [3 \<mapsto> \<lparr>b_data = 1, b_len = 2, b_disposer = None, b_orig = 0, b_next = 0, b_refcnt = 1\<rparr>,
             4 \<mapsto> \<lparr>b_data = 2, b_len = 4, b_disposer = None, b_orig = 0, b_next = 0, b_refcnt = 1\<rparr>],
     txns = (\<lambda>_. None), brk = 4, oom = [], disposed = []\<rparr>"

definition client_world :: "io_event list \<Rightarrow> world" where
  "client_world es = (ex_world logdb_header logdb_log_header es)\<lparr>w_heap := client_heap\<rparr>"

lemma client_world_facts:
  "w_heap (client_world es) = client_heap" "sections_of (client_world es) = []"
  "log_count (log_file (w_conn (client_world es)) (w_os (client_world es))) = 0"
  by (simp_all add: client_world_def sections_of_def db_sections_def log_count_def size_defs)

lemma client_world_ok: "list_all (\<lambda>e. e \<noteq> Fail \<and> e \<noteq> Short 0 \<and> e \<noteq> Short 1) es \<Longrightarrow> client_ok 0 (client_world es)"
proof -
  assume es: "list_all (\<lambda>e. e \<noteq> Fail \<and> e \<noteq> Short 0 \<and> e \<noteq> Short 1) es"
  have cnt: "log_count logdb_log_header = 0" by (simp add: log_count_def size_defs)
  have "ready (ex_world logdb_header logdb_log_header es)" by (rule ex_ready) (simp_all add: cnt data_present_def)
  moreover have "calm (ex_os logdb_header logdb_log_header es)"
    using es by (auto simp: calm_def quiet_def ex_os_def list_all_iff)
  ultimately show ?thesis
    by (simp add: client_ok_def client_world_def logdb_txn_current_def)
       (auto simp: ex_conn_def client_heap_def heap_ok_def plenty_def split: if_splits)
qed

lemma client_heap_has: "buffer_has client_heap 3 [107, 0]" "buffer_has client_heap 4 [7, 0, 0, 0]"
proof -
  have "brep client_heap 1 3 [107, 0]"
    by (rule plain_brep [of _ _ "the (bufs client_heap 3)"]) (simp_all add: client_heap_def load_bytes_def)
  then show "buffer_has client_heap 3 [107, 0]" unfolding buffer_has_def
    by (intro exI [of _ "the (bufs client_heap 3)"] exI [of _ 1]) (simp add: client_heap_def)
  have "brep client_heap 1 4 [7, 0, 0, 0]"
    by (rule plain_brep [of _ _ "the (bufs client_heap 4)"]) (simp_all add: client_heap_def load_bytes_def)
  then show "buffer_has client_heap 4 [7, 0, 0, 0]" unfolding buffer_has_def
    by (intro exI [of _ "the (bufs client_heap 4)"] exI [of _ 1]) (simp add: client_heap_def)
qed

text \<open>C8: A record that has been put is printed by the next dump, together with everything that was printed before.\<close>

theorem put_then_dump:
  assumes "client_ok tid w" "conn \<noteq> 0" "buffer_has (w_heap w) key ks" "buffer_has (w_heap w) val vs"
    and "8 + length ks + length vs < 65536" "Suc (log_count (log_file (w_conn w) (w_os w))) < 65536"
    and "list_all (\<lambda>S. length S + (8 + length ks + length vs) \<noteq> 65536) (sections_of w)"
    and "sections_of w = map records_bytes R" "list_all printable ((ks, vs) # concat R)" "Suc (length (concat R)) < n"
  shows "\<exists>w' out w''. logdb_put (Suc f) dbg tid conn key val w = Done (0, w') \<and>
     dump_records n dbg conn w' = Done (0, out, w'') \<and> mset out = add_mset (line (ks, vs)) (mset (map line (concat R)))"
proof -
  obtain w' where w': "logdb_put (Suc f) dbg tid conn key val w = Done (0, w')" "client_ok tid w'"
      "extends (sections_of w) (record_bytes ks vs) (sections_of w')"
    using put_client [OF assms(1-7), of f dbg] by blast
  obtain R' where R': "sections_of w' = map records_bytes R'" "mset (concat R') = mset ((ks, vs) # concat R)"
    using extends_records [OF w'(3) [unfolded assms(8)]] by auto
  have p: "list_all printable (concat R')" using assms(9) list_all_mset [OF R'(2), of printable] by simp
  have "length (concat R') < n" using assms(10) mset_eq_length [OF R'(2)] by simp
  from dump_records_lists [OF client_scannable [OF w'(2) R'(1) p] p this assms(2), of dbg] obtain w'' where
    "dump_records n dbg conn w' = Done (0, map line (concat R'), w'')" by blast
  moreover have "mset (map line (concat R')) = add_mset (line (ks, vs)) (mset (map line (concat R)))"
    using R'(2) by (simp only: mset_map) simp
  ultimately show ?thesis using w'(1) by blast
qed

theorem put_then_dump_witness:
  "\<exists>w' out w''. logdb_put 1 True 0 1 3 4 (client_world [Short 3]) = Done (0, w') \<and>
     dump_records 2 True 1 w' = Done (0, out, w'') \<and> mset out = {#([107], 7)#}"
proof -
  have p: "list_all printable [([107, 0], [7, 0, 0, 0])]" "line ([107, 0], [7, 0, 0, 0]) = ([107], 7)" by code_simp+
  show ?thesis
    using put_then_dump [OF client_world_ok, of "[Short 3]" 1 3 "[107, 0]" 4 "[7, 0, 0, 0]" "[]" 2 0 True] client_heap_has p
    by (simp add: client_world_facts)
qed

text \<open>The loop of the stress tool puts the integers below \<open>cnt\<close> under its key; none fails, and the next dump prints
  exactly these lines in addition to the ones before. The size of one record must not divide the size of a
  section, or a section is filled to its end and lost.\<close>

lemma stress_then_dump:
  assumes "client_ok tid w" "conn \<noteq> 0" "mem (w_heap w) arg = Some bs" "0 \<in> set bs" "arg \<noteq> 0"
    and "ks = takeWhile (\<lambda>b. b \<noteq> 0) bs" "length ks + 13 = L" "L < 65536" "\<not> L dvd 65536"
    and "list_all (\<lambda>S. L dvd length S) (sections_of w)"
    and "log_count (log_file (w_conn w) (w_os w)) + cnt < 65536" "sections_of w = map records_bytes R"
    and "list_all printable (concat R)" "length (concat R) + cnt < n"
  shows "\<exists>w' out w''. thread_func (Suc f) dbg tid conn arg cnt w = Done ([], w') \<and>
     dump_records n dbg conn w' = Done (0, out, w'') \<and>
     mset out = mset (map line (concat R)) + mset (map (\<lambda>i. (ks, int i)) [0..<cnt])"
proof -
  let ?new = "map (\<lambda>i. (ks @ [0], le32 (word_of_int (int i)))) [0..<cnt]"
  obtain w' R' where w': "thread_func (Suc f) dbg tid conn arg cnt w = Done ([], w')" "client_ok tid w'"
      "sections_of w' = map records_bytes R'" "mset (concat R') = mset (concat R @ ?new)"
    using thread_func_stores [OF assms(1-12), of f dbg] by auto
  have "list_all printable ?new" by (simp add: list_all_iff printable_def)
  then have p: "list_all printable (concat R')" using assms(13) list_all_mset [OF w'(4), of printable] by simp
  have "length (concat R') < n" using assms(14) mset_eq_length [OF w'(4)] by simp
  from dump_records_lists [OF client_scannable [OF w'(2,3) p] p this assms(2), of dbg] obtain w'' where
    d: "dump_records n dbg conn w' = Done (0, map line (concat R'), w'')" by blast
  have "takeWhile (\<lambda>b. b \<noteq> 0) (ks @ [0]) = ks"
    unfolding assms(6) by (induction bs) auto
  moreover have "sint (word_of_int (int i) :: 32 word) = int i" if "i < cnt" for i
    using sint_small [of i] that assms(11) by simp
  ultimately have "map line ?new = map (\<lambda>i. (ks, int i)) [0..<cnt]" by (simp add: line_def)
  moreover have "mset (map line (concat R')) = mset (map line (concat R)) + mset (map line ?new)"
    using w'(4) by (simp only: mset_map mset_append image_mset_union)
  ultimately show ?thesis using w'(1) d by metis
qed

end
