(* ===== verification/Restart.thy ===== *)
theory Restart
  imports Recovery Stress
begin

text \<open>
  What the next process finds: after the death of the one before, between two calls or during a commit; next to a
  process that uses the database; after a creation of the log that has died; and when the log is lost.
\<close>

section \<open>The files that a process leaves behind\<close>

text \<open>
  When a process dies its descriptors and locks are gone and the files stay; the next process has a
  schedule of its own.
\<close>

definition killed :: "os \<Rightarrow> io_event list \<Rightarrow> os" where
  "killed s es = s\<lparr>fds := (\<lambda>_. None), my_locks := (\<lambda>_ _. L_None), my_flock := (\<lambda>_. L_None), sched := es\<rparr>"

text \<open>
  The two files of a database under their names, with a sound log; \<open>m\<close> is the lock that other processes
  have on the database, \<open>L_None\<close> when there is none.
\<close>

definition on_disk :: "string \<Rightarrow> lock_mode \<Rightarrow> os \<Rightarrow> byte list \<Rightarrow> byte list \<Rightarrow> bool" where
  "on_disk path m s L D \<longleftrightarrow>
     (case (dir s path, dir s (path @ LOGDB_LOG_FILE_SUFFIX)) of
        (Some i, Some j) \<Rightarrow> i \<noteq> j \<and> i < next_ino s \<and> j < next_ino s \<and> inode s i = D \<and> inode s j = L \<and>
                            other_flock s = (\<lambda>_. L_None)(i := m)
      | _ \<Rightarrow> False) \<and>
     0 \<le> next_fd s \<and> log_ok L \<and> take 6 D = logdb_header \<and> data_present L D \<and> length D < 2 ^ 62 \<and>
     other_locks s = [] \<and> \<not> pwrite_appends s"

lemma on_disk_killed: "on_disk path m (killed s es) L D = on_disk path m s L D"
  by (simp add: on_disk_def killed_def split: option.split)

lemma settled_on_disk:
  assumes "settled path tid w" "length (db_file (w_conn w) (w_os w)) < 2 ^ 62"
  shows "on_disk path L_None (w_os w) (log_file (w_conn w) (w_os w)) (db_file (w_conn w) (w_os w))"
proof -
  let ?c = "w_conn w" and ?s = "w_os w"
  have s: "client_ok tid w" "named path w" "\<forall>i. other_flock ?s i = L_None" "take 6 (log_file ?c ?s) = logdb_log_header"
    using assms(1) by (simp_all add: settled_def)
  obtain i j where ij: "dir ?s path = Some i" "dir ?s (path @ LOGDB_LOG_FILE_SUFFIX) = Some j" "keys ?s (c_fd ?c) = Some (i, False)"
    "keys ?s (l_fd (c_log ?c)) = Some (j, True)" "i < next_ino ?s" "j < next_ino ?s" "0 \<le> next_fd ?s" "take 6 (db_file ?c ?s) = logdb_header"
    using s(2) by (auto simp: named_def Let_def split: option.splits)
  have F: "inode ?s i = db_file ?c ?s" "inode ?s j = log_file ?c ?s"
    using file_keys [OF ij(3)] file_keys [OF ij(4)] by (simp_all add: db_file_def log_file_def)
  have ck: "conn_ok ?c ?s" "data_present (log_file ?c ?s) (db_file ?c ?s)" "other_locks ?s = []"
    using s(1) by (simp_all add: client_ok_def ready_def)
  have "i \<noteq> j" using ck(1) ij(3,4) by (auto simp: conn_ok_def keys_fd)
  moreover have "log_ok (log_file ?c ?s)" "\<not> pwrite_appends ?s" using ck(1) s(4) by (simp_all add: conn_ok_def log_ok_def)
  moreover have "other_flock ?s = (\<lambda>_. L_None)(i := L_None)" using s(3) by (simp add: fun_eq_iff)
  ultimately show ?thesis using ij F ck(2,3) assms(2) by (simp add: on_disk_def)
qed

lemma open_on_disk:
  assumes "on_disk path m s L D" "calm s" "heap_ok h" "plenty h" "m \<noteq> L_Exclusive" "m \<noteq> L_None \<longrightarrow> \<not> has_flag flags LOGDB_OPEN_NOSYNC"
  shows "\<exists>c s'. logdb_open dbg (Some path) flags s = Done (Some c, s') \<and> client_ok tid \<lparr>w_os = s', w_heap = h, w_conn = c\<rparr> \<and>
     named path \<lparr>w_os = s', w_heap = h, w_conn = c\<rparr> \<and> c_readers c = 0 \<and> same_env s s' \<and>
     (m = L_None \<longrightarrow> settled path tid \<lparr>w_os = s', w_heap = h, w_conn = c\<rparr>) \<and>
     sections_of \<lparr>w_os = s', w_heap = h, w_conn = c\<rparr> = db_sections L D \<and> inode s' = inode s \<and> dir s' = dir s"
proof -
  let ?lp = "path @ LOGDB_LOG_FILE_SUFFIX" let ?fd = "next_fd s"
  obtain i j where d: "dir s path = Some i" "dir s ?lp = Some j" "i \<noteq> j" "i < next_ino s" "j < next_ino s" "inode s i = D" "inode s j = L"
    "other_flock s = (\<lambda>_. L_None)(i := m)"
    using assms(1) by (auto simp: on_disk_def split: option.splits)
  have o: "0 \<le> ?fd" "log_ok L" "take 6 D = logdb_header" "data_present L D" "length D < 2 ^ 62" "other_locks s = []"
    "\<not> pwrite_appends s"
    using assms(1) by (simp_all add: on_disk_def)
  have L6: "take 6 (inode s j) = logdb_log_header" using o(2) d(7) by (simp add: log_ok_def)
  let ?k = "(keys s)(?fd := Some (i, False), ?fd + 1 := Some (j, True))"
  let ?P = "\<lambda>u. same_env s u \<and> dir u = dir s \<and> inode u = inode s \<and> next_ino u = next_ino s \<and> ?fd \<le> next_fd u \<and> keys u = ?k"
  have "\<exists>u s'. logdb_open dbg (Some path) flags s = Done (Some (conn_at flags ?fd (log_at (?fd + 1) ?lp)), s') \<and> ?P u \<and> same_data u s'"
  proof (rule logdb_open_old [OF calm_quiet [OF assms(2)] d(1) _ o(1)])
    show "take 6 (inode s i) = logdb_header" using o(3) d(6) by simp
    fix t f
    assume t: "quiet t" "same_env s t" "dir t = dir s" "inode t = inode s" "next_ino t = next_ino s" "next_fd t = ?fd + 1"
      "keys t = (keys s)(?fd := Some (i, False))" "fds t ?fd = Some f" "f_ino f = i"
    have F: "length (file_of t ?fd) < 2 ^ 62" using t(4,8,9) o(5) d(6) by (simp add: file_of_def)
    have b: "dir t ?lp = Some j" "take 6 (inode t j) = logdb_log_header" "0 \<le> next_fd t" "?fd < next_fd t"
      using t(3,4,6) d(2) L6 o(1) by simp_all
    have fl: "other_flock t (f_ino f) = m" using t(2,9) d(8) by (simp add: same_env_def)
    from open_log_old [OF t(1,8) F b, of "has_flag flags LOGDB_OPEN_NOSYNC" dbg] fl assms(5,6) obtain u where
      u: "open_log 2 dbg ?lp ?fd (has_flag flags LOGDB_OPEN_NOSYNC) True t = Done (Some (log_at (?fd + 1) ?lp), u)"
        "opens t ((keys t)(?fd + 1 := Some (j, True))) u"
      by (auto simp: t(6))
    have "?P u" using u(2) t same_env_trans [OF t(2), of u] by (auto simp: opens_def)
    moreover have "quiet u" using u(2) same_env_quiet [OF _ t(1)] by (simp add: opens_def)
    ultimately show "\<exists>u. open_log 2 dbg ?lp ?fd (has_flag flags LOGDB_OPEN_NOSYNC) True t = Done (Some (log_at (?fd + 1) ?lp), u) \<and> quiet u \<and> ?P u"
      using u(1) by blast
  qed
  then obtain u s' where r: "logdb_open dbg (Some path) flags s = Done (Some (conn_at flags ?fd (log_at (?fd + 1) ?lp)), s')" "?P u" "same_data u s'"
    by blast
  have s': "same_env s s'" "dir s' = dir s" "inode s' = inode s" "next_ino s' = next_ino s" "?fd \<le> next_fd s'" "keys s' = ?k"
    using r(2) same_data_same [OF r(3)] same_env_trans [of s u s'] by (auto simp: same_names_def)
  have k: "keys s' ?fd = Some (i, False)" "keys s' (?fd + 1) = Some (j, True)" by (simp_all add: s'(6))
  have e: "calm s'" "other_locks s' = []" "\<not> pwrite_appends s'"
    using s'(1) same_env_calm [OF s'(1) assms(2)] o(6,7) by (simp_all add: same_env_def)
  have f: "dir s' path = Some i" "dir s' ?lp = Some j" "i < next_ino s'" "j < next_ino s'" "0 \<le> next_fd s'" "log_ok (inode s' j)"
    "take 6 (inode s' i) = logdb_header" "data_present (inode s' j) (inode s' i)"
    using s'(2-5) d o by simp_all
  note c = conn_at_client [OF k d(3) f(1-5) e f(6-8) assms(3,4) refl] conn_at_sections [OF k]
  have "settled path tid \<lparr>w_os = s', w_heap = h, w_conn = conn_at flags ?fd (log_at (?fd + 1) ?lp)\<rparr>" if "m = L_None"
    using c(3) s'(1) d(8) that by (simp add: same_env_def)
  moreover have "sections_of \<lparr>w_os = s', w_heap = h, w_conn = conn_at flags ?fd (log_at (?fd + 1) ?lp)\<rparr> = db_sections L D"
    using conn_at_sections [OF k] s'(3) d(6,7) by simp
  moreover have "c_readers (conn_at flags ?fd (log_at (?fd + 1) ?lp)) = 0" by (simp add: conn_at_def)
  ultimately show ?thesis using r(1) c(1,2) s'(1-3) by blast
qed

lemma open_alone:
  assumes "on_disk path L_None s L D" "calm s" "heap_ok h" "plenty h"
  shows "\<exists>c s'. logdb_open dbg (Some path) flags s = Done (Some c, s') \<and> settled path tid \<lparr>w_os = s', w_heap = h, w_conn = c\<rparr> \<and>
     sections_of \<lparr>w_os = s', w_heap = h, w_conn = c\<rparr> = db_sections L D \<and> inode s' = inode s \<and> same_env s s' \<and> db_file c s' = D"
proof -
  from open_on_disk [OF assms, of flags dbg tid] obtain c s' where
    o: "logdb_open dbg (Some path) flags s = Done (Some c, s')" "named path \<lparr>w_os = s', w_heap = h, w_conn = c\<rparr>" "same_env s s'"
      "settled path tid \<lparr>w_os = s', w_heap = h, w_conn = c\<rparr>" "sections_of \<lparr>w_os = s', w_heap = h, w_conn = c\<rparr> = db_sections L D"
      "inode s' = inode s" "dir s' = dir s"
    by auto
  obtain i where "dir s path = Some i" "inode s i = D" using assms(1) by (auto simp: on_disk_def split: option.splits)
  moreover from this have "keys s' (c_fd c) = Some (i, False)" using o(2,7) by (auto simp: named_def Let_def split: option.splits)
  ultimately have "db_file c s' = D" using file_keys [of s' "c_fd c" i False] o(6) by (simp add: db_file_def)
  with o show ?thesis by blast
qed

text \<open>C23: A process dies between two calls, with the log file in place. The next process opens the database, finds
  every section as it was, and neither file has changed.\<close>

theorem crash_then_open:
  assumes "settled path tid w" "length (db_file (w_conn w) (w_os w)) < 2 ^ 62" "calm (killed (w_os w) es)" "heap_ok h" "plenty h"
  shows "\<exists>c s. logdb_open dbg (Some path) flags (killed (w_os w) es) = Done (Some c, s) \<and>
     settled path tid \<lparr>w_os = s, w_heap = h, w_conn = c\<rparr> \<and>
     sections_of \<lparr>w_os = s, w_heap = h, w_conn = c\<rparr> = sections_of w \<and> inode s = inode (w_os w)"
proof -
  have "on_disk path L_None (killed (w_os w) es) (log_file (w_conn w) (w_os w)) (db_file (w_conn w) (w_os w))"
    unfolding on_disk_killed by (rule settled_on_disk [OF assms(1,2)])
  moreover have "inode (killed (w_os w) es) = inode (w_os w)" by (simp add: killed_def)
  ultimately show ?thesis
    using open_alone [OF _ assms(3-5), of path _ _ dbg flags tid] unfolding sections_of_def [of w] by metis
qed

text \<open>The descriptors of the connection are those of the named files.\<close>

definition descriptors :: "string \<Rightarrow> logdb_connection_t \<Rightarrow> os \<Rightarrow> bool" where
  "descriptors path c s \<longleftrightarrow>
     dir s path \<noteq> None \<and> keys s (c_fd c) = map_option (\<lambda>i. (i, False)) (dir s path) \<and>
     dir s (path @ LOGDB_LOG_FILE_SUFFIX) \<noteq> None \<and>
     keys s (l_fd (c_log c)) = map_option (\<lambda>j. (j, True)) (dir s (path @ LOGDB_LOG_FILE_SUFFIX))"

lemma on_disk_step:
  assumes "on_disk path m s (log_file c s) (db_file c s)" "descriptors path c s" "frame s s'" "same_headers c s s'"
    and "data_present (log_file c s') (db_file c s')" "length (log_file c s') = length (log_file c s)" "length (db_file c s') < 2 ^ 62"
  shows "on_disk path m s' (log_file c s') (db_file c s')"
proof -
  obtain i j where d: "dir s path = Some i" "dir s (path @ LOGDB_LOG_FILE_SUFFIX) = Some j" "keys s (c_fd c) = Some (i, False)"
    "keys s (l_fd (c_log c)) = Some (j, True)"
    using assms(2) by (auto simp: descriptors_def)
  have k: "keys s' (c_fd c) = Some (i, False)" "keys s' (l_fd (c_log c)) = Some (j, True)"
    using d keys_frame [OF assms(3)] by simp_all
  have F: "inode s' i = db_file c s'" "inode s' j = log_file c s'"
    using file_keys [OF k(1)] file_keys [OF k(2)] by (simp_all add: db_file_def log_file_def)
  have o: "log_ok (log_file c s)" "take 6 (db_file c s) = logdb_header" using assms(1) by (simp_all add: on_disk_def)
  have "6 \<le> length (db_file c s)" using arg_cong [OF o(2), of length] by simp
  then have h: "take 6 (db_file c s') = logdb_header" "take 6 (log_file c s') = logdb_log_header"
    using assms(4) o by (simp_all add: same_headers_def log_ok_def)
  have "log_ok (log_file c s')" using o(1) h(2) assms(6) by (simp add: log_ok_def log_count_def)
  then show ?thesis
    using assms(1,3,5,7) d F h(1) by (simp add: on_disk_def frame_def)
qed

theorem crash_then_open_witness:
  "\<exists>c s. logdb_open True (Some ''t'') LOGDB_OPEN_EXISTING (killed (w_os (ex_world one_db one_log [])) [Full, Short 3]) = Done (Some c, s) \<and>
     sections_of \<lparr>w_os = s, w_heap = client_heap, w_conn = c\<rparr> = [[1, 2, 3, 4]]"
proof -
  let ?w = "ex_world one_db one_log []"
  have w: "settled ''t'' 0 ?w" by (rule ex_settled) (use one_facts in \<open>simp_all add: one_log_def one_db_def\<close>)
  have l: "length (db_file (w_conn ?w) (w_os ?w)) < 2 ^ 62" by (simp add: one_db_def)
  have k: "calm (killed (w_os ?w) [Full, Short 3])" by (simp add: killed_def calm_def quiet_def)
  have h: "heap_ok client_heap" "plenty client_heap" by (auto simp: client_heap_def heap_ok_def plenty_def split: if_splits)
  have S: "sections_of ?w = [[1, 2, 3, 4]]" using one_facts(5) by (simp add: sections_of_def)
  from crash_then_open [OF w l k h, of True LOGDB_OPEN_EXISTING] show ?thesis unfolding S by blast
qed


text \<open>One section with four bytes; the second write fails and so does everything after it.\<close>

lemma ex_on_disk:
  assumes "even (length L)" "log_count L < 65536" "data_present L D" "take 6 L = logdb_log_header" "take 6 D = logdb_header" "length D < 2 ^ 62"
  shows "on_disk ''t'' L_None (ex_os D L es) L D" "descriptors ''t'' ex_conn (ex_os D L es)"
proof -
  have o: "dir (ex_os D L es) = [''t'' \<mapsto> 0, ''t-log'' \<mapsto> 1]" "inode (ex_os D L es) = (\<lambda>_. [])(0 := D, 1 := L)" "next_ino (ex_os D L es) = 2"
    "next_fd (ex_os D L es) = 5" "other_flock (ex_os D L es) = (\<lambda>_. L_None)(0 := L_None)" "pwrite_appends (ex_os D L es) = False"
    "keys (ex_os D L es) 3 = Some (0, False)" "keys (ex_os D L es) 4 = Some (1, True)"
    by (simp_all add: ex_os_def keys_def fd_key_def fun_eq_iff)
  have p: "''t'' @ LOGDB_LOG_FILE_SUFFIX = ''t-log''" by (simp add: LOGDB_LOG_FILE_SUFFIX_def)
  show "on_disk ''t'' L_None (ex_os D L es) L D" unfolding on_disk_def p o using assms by (simp add: log_ok_def)
  have "c_fd ex_conn = 3" "l_fd (c_log ex_conn) = 4" by (simp_all add: ex_conn_def)
  then show "descriptors ''t'' ex_conn (ex_os D L es)" unfolding descriptors_def p by (simp add: o)
qed


section \<open>Two processes\<close>

text \<open>Closing while another process has the database open: no merge, both files stay.\<close>

lemma logdb_close_shared:
  assumes "client_ok tid w" "c_readers (w_conn w) = 0" "conn \<noteq> 0" "keys (w_os w) (c_fd (w_conn w)) = Some (i, a)"
    and "other_flock (w_os w) i \<noteq> L_None"
  shows "\<exists>w'. logdb_close dbg tid conn w = Done (0, w') \<and> inode (w_os w') = inode (w_os w) \<and> dir (w_os w') = dir (w_os w) \<and>
     keys (w_os w') = (keys (w_os w))(l_fd (c_log (w_conn w)) := None, c_fd (w_conn w) := None)"
proof -
  let ?c = "w_conn w" and ?s = "w_os w"
  have c: "quiet ?s" "c_alive ?c" "c_version ?c = LOGDB_VERSION" "logdb_txn_current tid w = 0"
    using assms(1) by (simp_all add: client_ok_def calm_def)
  let ?s1 = "popped ?s" let ?s2 = "popped ?s1"
  let ?s5 = "sys_close (c_fd ?c) (sys_flock_un (c_fd ?c) (sys_close (l_fd (c_log ?c)) ?s2))"
  have p: "sys_pthread ?s = (True, ?s1)" by (rule pass_calls(2) [OF c(1)])
  obtain f where f: "fds ?s (c_fd ?c) = Some f" "f_ino f = i" using assms(4) by (auto simp: keys_fd)
  have q1: "quiet ?s1" using c(1) by simp
  have fl: "sys_flock_ex_nb (c_fd ?c) ?s1 = (-1, ?s2)" by (rule flock_busy [OF q1]) (use f assms(5) in auto)
  have cf: "close_files ?c ?s1 = Done (0, ?s5)" using fl by (simp add: close_files_def logdb_log_close_def Let_def)
  have v: "verify_connection dbg conn w = Done True" using assms(3) c by (simp add: verify_connection_def)
  let ?w2 = "\<lparr>w_os = ?s5, w_heap = w_heap w, w_conn = ?c\<lparr>c_version := 0, c_alive := False\<rparr>\<rparr>"
  have "logdb_close dbg tid conn w = Done (0, ?w2)"
    using v p assms(2) c(4) cf by (simp add: logdb_close_def Let_def logdb_txn_rollback_all_def logdb_txn_destruct_def logdb_txn_current_def)
  moreover have "keys ?s2 = keys ?s" by (simp add: keys_def fun_eq_iff)
  ultimately show ?thesis by (intro exI [of _ ?w2]) (simp add: sys_close_same unlock_same)
qed

text \<open>C22: While another process has the database open, opening gives the same sections, closing again returns 0, and
  both files stay as they are and where they are, for the other process.\<close>

theorem second_process_shares:
  assumes "on_disk path L_Shared s L D" "calm s" "heap_ok h" "plenty h" "\<not> has_flag flags LOGDB_OPEN_NOSYNC" "conn \<noteq> 0"
  shows "\<exists>c s' w. logdb_open dbg (Some path) flags s = Done (Some c, s') \<and> client_ok tid \<lparr>w_os = s', w_heap = h, w_conn = c\<rparr> \<and>
     sections_of \<lparr>w_os = s', w_heap = h, w_conn = c\<rparr> = db_sections L D \<and>
     logdb_close dbg tid conn \<lparr>w_os = s', w_heap = h, w_conn = c\<rparr> = Done (0, w) \<and>
     inode (w_os w) = inode s \<and> dir (w_os w) = dir s"
proof -
  have "L_Shared \<noteq> L_Exclusive" "L_Shared \<noteq> L_None \<longrightarrow> \<not> has_flag flags LOGDB_OPEN_NOSYNC" using assms(5) by simp_all
  from open_on_disk [OF assms(1-4) this, of dbg tid] obtain c s' where
    o: "logdb_open dbg (Some path) flags s = Done (Some c, s')" "client_ok tid \<lparr>w_os = s', w_heap = h, w_conn = c\<rparr>"
      "named path \<lparr>w_os = s', w_heap = h, w_conn = c\<rparr>" "c_readers c = 0" "same_env s s'"
      "sections_of \<lparr>w_os = s', w_heap = h, w_conn = c\<rparr> = db_sections L D" "inode s' = inode s" "dir s' = dir s"
    by blast
  let ?w = "\<lparr>w_os = s', w_heap = h, w_conn = c\<rparr>"
  obtain i where i: "dir s path = Some i" "other_flock s i = L_Shared" using assms(1) by (auto simp: on_disk_def split: option.splits)
  then have k: "keys s' (c_fd c) = Some (i, False)" using o(3,8) by (auto simp: named_def Let_def split: option.splits)
  have "other_flock s' i \<noteq> L_None" using o(5) i(2) by (simp add: same_env_def)
  then obtain w where "logdb_close dbg tid conn ?w = Done (0, w)" "inode (w_os w) = inode s" "dir (w_os w) = dir s"
    using logdb_close_shared [of tid ?w conn i False dbg] o(2,4,7,8) k assms(6) by auto
  with o(1,2,6) show ?thesis by blast
qed

theorem second_process_shares_witness:
  "\<exists>c s w. logdb_open True (Some ''t'') LOGDB_OPEN_CREATE (killed ((ex_os one_db one_log [])\<lparr>other_flock := (\<lambda>_. L_None)(0 := L_Shared)\<rparr>) [Full]) =
       Done (Some c, s) \<and>
     sections_of \<lparr>w_os = s, w_heap = client_heap, w_conn = c\<rparr> = [[1, 2, 3, 4]] \<and>
     logdb_close True 0 1 \<lparr>w_os = s, w_heap = client_heap, w_conn = c\<rparr> = Done (0, w) \<and> dir (w_os w) ''t-log'' = Some 1"
proof -
  let ?s = "killed ((ex_os one_db one_log [])\<lparr>other_flock := (\<lambda>_. L_None)(0 := L_Shared)\<rparr>) [Full]"
  have "on_disk ''t'' L_None (ex_os one_db one_log []) one_log one_db"
    using ex_on_disk(1) [of one_log one_db] one_facts by (simp add: one_log_def one_db_def)
  then have d: "on_disk ''t'' L_Shared ?s one_log one_db"
    unfolding on_disk_killed by (simp add: on_disk_def LOGDB_LOG_FILE_SUFFIX_def) (simp add: ex_os_def)
  have k: "calm ?s" by (simp add: killed_def calm_def quiet_def)
  have h: "heap_ok client_heap" "plenty client_heap" by (auto simp: client_heap_def heap_ok_def plenty_def split: if_splits)
  have f: "\<not> has_flag LOGDB_OPEN_CREATE LOGDB_OPEN_NOSYNC" by code_simp
  have l: "dir ?s ''t-log'' = Some 1" by (simp add: killed_def ex_os_def)
  from second_process_shares [OF d k h f, of 1 True 0] show ?thesis using one_facts(5) l by fastforce
qed

section \<open>A creation that has not come to its end\<close>

text \<open>A log file with other contents than a log, under the name of the log.\<close>

definition left_behind :: "string \<Rightarrow> byte list \<Rightarrow> os \<Rightarrow> os" where
  "left_behind path J s =
     s\<lparr>dir := (dir s)(path @ LOGDB_LOG_FILE_SUFFIX := Some (next_ino s)), inode := (inode s)(next_ino s := J), next_ino := next_ino s + 1\<rparr>"

lemma open_left_behind:
  assumes "dir s path = Some i" "i < next_ino s" "log_in (inode s i) M" "take 6 (inode s i) = logdb_header" "length (inode s i) < 2 ^ 62"
    and "log_ok M" "data_present M (inode s i)" "take 6 J \<noteq> logdb_log_header" "0 \<le> next_fd s" "calm s"
    and "other_locks s = []" "\<forall>i. other_flock s i = L_None" "\<not> pwrite_appends s" "\<not> (dbg \<and> test_env s)" "heap_ok h" "plenty h"
  shows "\<exists>c s'. logdb_open dbg (Some path) flags (left_behind path J s) = Done (Some c, s') \<and>
     settled path tid \<lparr>w_os = s', w_heap = h, w_conn = c\<rparr> \<and> sections_of \<lparr>w_os = s', w_heap = h, w_conn = c\<rparr> = db_sections M (inode s i) \<and>
     same_env s s'"
proof -
  let ?lp = "path @ LOGDB_LOG_FILE_SUFFIX" and ?t = "left_behind path J s" let ?fd = "next_fd s"
  have t: "dir ?t path = Some i" "dir ?t ?lp = Some (next_ino s)" "inode ?t i = inode s i" "inode ?t (next_ino s) = J" "next_ino ?t = Suc (next_ino s)"
    "next_fd ?t = ?fd" "keys ?t = keys s" "same_env s ?t"
    using assms(1,2) suffix_differs [of path] by (auto simp: left_behind_def same_env_def keys_def fun_eq_iff)
  have q: "quiet ?t" by (rule same_env_quiet [OF t(8) calm_quiet [OF assms(10)]])
  let ?P = "\<lambda>u. same_env s u \<and> dir u = (dir ?t)(?lp := Some (Suc (next_ino s))) \<and> inode u = (inode ?t)(Suc (next_ino s) := M) \<and>
     next_ino u = Suc (Suc (next_ino s)) \<and> next_fd u = ?fd + 3 \<and>
     keys u = (keys s)(?fd := Some (i, False), ?fd + 1 := None, ?fd + 2 := Some (Suc (next_ino s), True))"
  let ?c = "conn_at flags ?fd (log_at (?fd + 2) ?lp)"
  have "\<exists>u s'. logdb_open dbg (Some path) flags ?t = Done (Some (conn_at flags (next_fd ?t) (log_at (?fd + 2) ?lp)), s') \<and> ?P u \<and> same_data u s'"
  proof (rule logdb_open_old [OF q t(1)])
    show "take 6 (inode ?t i) = logdb_header" "0 \<le> next_fd ?t" using assms(4,9) t(3,6) by simp_all
    fix v f
    assume v: "quiet v" "same_env ?t v" "dir v = dir ?t" "inode v = inode ?t" "next_ino v = next_ino ?t" "next_fd v = next_fd ?t + 1"
      "keys v = (keys ?t)(next_fd ?t := Some (i, False))" "fds v (next_fd ?t) = Some f" "f_ino f = i"
    have F: "file_of v (next_fd ?t) = inode s i" using v(4,8,9) t(3) by (simp add: file_of_def)
    have sv: "same_env s v" by (rule same_env_trans [OF t(8) v(2)])
    have e: "\<not> pwrite_appends v" "\<not> (dbg \<and> test_env v)" "0 \<le> next_fd v" "next_fd ?t < next_fd v" "\<forall>i. other_flock v i = L_None"
      using sv assms(9,12-14) v(6) t(6) by (simp_all add: same_env_def)
    have d: "dir v ?lp = Some (next_ino s)" "take 6 (inode v (next_ino s)) \<noteq> logdb_log_header" "log_in (file_of v (next_fd ?t)) M"
      "length (file_of v (next_fd ?t)) < 2 ^ 62"
      using v(3,4) t(2,4) assms(3,5,8) F by simp_all
    have n: "next_fd v = ?fd + 1" "?fd + 1 + 1 = ?fd + 2" "?fd + 1 + 2 = ?fd + 3" using v(6) t(6) by simp_all
    have m: "next_ino v = Suc (next_ino s)" using v(5) t(5) by simp
    from open_log_broken [OF v(1,8) d(4,1-3) e, of "has_flag flags LOGDB_OPEN_NOSYNC"] obtain u where
      u: "open_log 2 dbg ?lp (next_fd ?t) (has_flag flags LOGDB_OPEN_NOSYNC) True v = Done (Some (log_at (?fd + 2) ?lp), u)"
        "same_env v u" "dir u = (dir ?t)(?lp := Some (Suc (next_ino s)))" "inode u = (inode ?t)(Suc (next_ino s) := M)"
        "next_ino u = Suc (Suc (next_ino s))" "next_fd u = ?fd + 3"
        "keys u = (keys s)(?fd := Some (i, False), ?fd + 1 := None, ?fd + 2 := Some (Suc (next_ino s), True))"
      unfolding n m v(3,4,7) t(6,7) by blast
    show "\<exists>u. open_log 2 dbg ?lp (next_fd ?t) (has_flag flags LOGDB_OPEN_NOSYNC) True v = Done (Some (log_at (?fd + 2) ?lp), u) \<and> quiet u \<and> ?P u"
      using u same_env_quiet [OF u(2) v(1)] same_env_trans [OF sv u(2)] by blast
  qed
  then obtain u s' where r: "logdb_open dbg (Some path) flags ?t = Done (Some ?c, s')" "?P u" "same_data u s'" unfolding t(6) by blast
  have s': "same_env s s'" "dir s' = (dir ?t)(?lp := Some (Suc (next_ino s)))" "inode s' = (inode ?t)(Suc (next_ino s) := M)"
    "next_ino s' = Suc (Suc (next_ino s))" "next_fd s' = ?fd + 3"
    "keys s' = (keys s)(?fd := Some (i, False), ?fd + 1 := None, ?fd + 2 := Some (Suc (next_ino s), True))"
    using r(2) same_data_same [OF r(3)] same_env_trans [of s u s'] by (auto simp: same_names_def)
  have k: "keys s' ?fd = Some (i, False)" "keys s' (?fd + 2) = Some (Suc (next_ino s), True)" by (simp_all add: s'(6))
  have f: "i \<noteq> Suc (next_ino s)" "dir s' path = Some i" "dir s' ?lp = Some (Suc (next_ino s))" "i < next_ino s'" "Suc (next_ino s) < next_ino s'"
    "0 \<le> next_fd s'"
    using s'(2,4,5) assms(2,9) t(1) suffix_differs [of path] by auto
  have F: "inode s' i = inode s i" "inode s' (Suc (next_ino s)) = M" using s'(3) f(1) t(3) by simp_all
  have e: "calm s'" "other_locks s' = []" "\<not> pwrite_appends s'" "\<forall>i. other_flock s' i = L_None"
    using s'(1) same_env_calm [OF s'(1) assms(10)] assms(11-13) by (simp_all add: same_env_def)
  have L: "log_ok (inode s' (Suc (next_ino s)))" "take 6 (inode s' i) = logdb_header" "data_present (inode s' (Suc (next_ino s))) (inode s' i)"
    using assms(4,6,7) by (simp_all add: F)
  from conn_at_client(3) [OF k f e(1-3) L assms(15,16) refl e(4)]
  have "settled path tid \<lparr>w_os = s', w_heap = h, w_conn = ?c\<rparr>" .
  moreover have "sections_of \<lparr>w_os = s', w_heap = h, w_conn = ?c\<rparr> = db_sections M (inode s i)" using conn_at_sections [OF k] F by simp
  ultimately show ?thesis using r(1) s'(1) by blast
qed

text \<open>
  How such a file comes about: \<open>LOGDB_TEST_LOG_CREATE_RETURN_EARLY\<close> makes a debug build return between the entries
  and the header.
\<close>

lemma log_create_interrupted:
  assumes "quiet s" "fds s fd = Some f" "log_in (file_of s fd) M" "dir s path = None" "\<not> pwrite_appends s" "test_env s" "0 \<le> next_fd s"
  shows "\<exists>s'. logdb_log_create True path fd s = Done (None, s') \<and> same_env s s' \<and> quiet s' \<and>
           dir s' = (dir s)(path := Some (next_ino s)) \<and> inode s' = (inode s)(next_ino s := headless M) \<and>
           next_ino s' = Suc (next_ino s) \<and> next_fd s' = next_fd s + 1 \<and> keys s' = (keys s)(next_fd s := None)"
proof -
  obtain s2 where s2: "logdb_log_create True path fd s = log_create_write True path M (int (length M)) s2" "same_data s s2" "quiet s2"
    using log_create_block [OF assms(1-3)] by blast
  have f2: "dir s2 = dir s" "next_ino s2 = next_ino s" "next_fd s2 = next_fd s" "pwrite_appends s2 = pwrite_appends s"
    "test_env s2 = test_env s" "inode s2 = inode s" "keys s2 = keys s"
    using same_data_same [OF s2(2)] by (simp_all add: same_env_def same_names_def)
  from create_entries_quiet [OF s2(3), of path True M] assms(4-7) f2 obtain s3 t where
    s3: "log_create_write True path M (int (length M)) s2 = Done (None, sys_close (next_fd s) s3)"
      "t = (popped s2)\<lparr>fds := (fds s2)(next_fd s := Some \<lparr>f_ino = next_ino s, f_pos = 0, f_append = True\<rparr>),
                 next_fd := next_fd s + 1, dir := (dir s)(path := Some (next_ino s)),
                 inode := (inode s)(next_ino s := []), next_ino := next_ino s + 1\<rparr>"
      "frame t s3" "inode s3 = (inode s)(next_ino s := headless M)" "quiet s3"
    by auto
  have "same_env s2 t" by (auto simp: s3(2) same_env_def dest: tl_subset [THEN subsetD])
  then have "same_env s (sys_close (next_fd s) s3)"
    using same_env_trans [OF same_env_trans [OF same_env_trans]] same_data_same [OF s2(2)] frame_same [OF s3(3)] sys_close_same(1) by blast
  moreover from this have "quiet (sys_close (next_fd s) s3)" by (rule same_env_quiet [OF _ assms(1)])
  moreover have "keys s3 = (keys s)(next_fd s := Some (next_ino s, True))"
    using keys_frame [OF s3(3)] f2(7) by (auto simp: s3(2) keys_def fd_key_def fun_eq_iff)
  moreover have "dir s3 = dir t" "next_ino s3 = next_ino t" "next_fd s3 = next_fd t" using s3(3) by (simp_all add: frame_def)
  ultimately show ?thesis
    using s2(1) s3(1,4) by (intro exI [of _ "sys_close (next_fd s) s3"]) (simp add: sys_close_same s3(2))
qed

text \<open>With the variable of the tests set, a debug build stops twice before the header of the log, and gives up.\<close>

lemma open_log_interrupted:
  assumes "quiet s" "fds s fd = Some f" "log_in (file_of s fd) M" "dir s lp = None" "\<not> pwrite_appends s" "test_env s"
    and "0 \<le> next_fd s" "fd < next_fd s" "\<forall>i. other_flock s i = L_None" "f_ino f < next_ino s"
  shows "\<exists>s'. open_log 2 True lp fd nosync True s = Done (None, s') \<and> same_env s s' \<and>
     dir s' = (dir s)(lp := Some (Suc (next_ino s))) \<and> inode s' = (inode s)(next_ino s := headless M, Suc (next_ino s) := headless M) \<and>
     next_ino s' = Suc (Suc (next_ino s)) \<and> next_fd s \<le> next_fd s'"
proof -
  let ?s1 = "(popped s)\<lparr>my_flock := (my_flock s)(fd := L_Exclusive)\<rparr>" and ?n = "next_ino s" and ?J = "headless M"
  have fl: "sys_flock_ex_nb fd s = (0, ?s1)" using flock_ok(1) [OF assms(1,2)] assms(9) by simp
  have q1: "quiet ?s1" by (rule same_env_quiet [OF flock_same(1) assms(1)])
  have k1: "keys ?s1 = keys s" by (simp add: keys_def fun_eq_iff)
  have "fds ?s1 fd = Some f" "file_of ?s1 fd = file_of s fd" using assms(2) by (simp_all add: file_of_def)
  from log_create_interrupted [OF q1 this(1), of M lp] this(2) assms(3-7) obtain s2 where
    s2: "logdb_log_create True lp fd ?s1 = Done (None, s2)" "same_env ?s1 s2" "quiet s2" "dir s2 = (dir s)(lp := Some ?n)"
      "inode s2 = (inode s)(?n := ?J)" "next_ino s2 = Suc ?n" "next_fd s2 = next_fd s + 1" "keys s2 = (keys s)(next_fd s := None)"
    by (auto simp: k1)
  have J: "take 6 ?J \<noteq> logdb_log_header" by (rule headless_no_log)
  from log_open_quiet [OF s2(3), of lp ?n] s2(4,5,7) J assms(7) obtain s3 where
    s3: "logdb_log_open lp s2 = Done (None, s3)" "same_env s2 s3" "dir s3 = dir s2" "inode s3 = inode s2" "next_ino s3 = Suc ?n"
      "next_fd s3 = next_fd s + 2" "keys s3 = (keys s2)(next_fd s + 1 := None)"
    by (auto simp: s2(6))
  have q3: "quiet s3" by (rule same_env_quiet [OF s3(2) s2(3)])
  let ?s4 = "(popped s3)\<lparr>dir := (dir s3)(lp := None)\<rparr>"
  have u: "sys_unlink lp s3 = (0, ?s4)"
    using quiet_event [OF q3] s3(3) s2(4) by (simp add: sys_unlink_def pop_eq Let_def)
  have e4: "same_env s ?s4"
    by (rule same_env_trans [OF same_env_trans [OF same_env_trans [OF flock_same(1) s2(2)] s3(2)] unlink_same(1)])
  have q4: "quiet ?s4" by (rule same_env_quiet [OF e4 assms(1)])
  have d4: "dir ?s4 = dir s" "(dir s)(lp := None) = dir s" using s3(3) s2(4) assms(4) by auto
  have "keys ?s4 fd = Some (f_ino f, f_append f)"
    using s3(7) s2(8) assms(2,8) unlink_same(2) [where s = s3] by (simp add: keys_def fd_key_def)
  then obtain f4 where f4: "fds ?s4 fd = Some f4" "f_ino f4 = f_ino f" by (auto simp: keys_fd)
  have "f_ino f \<noteq> ?n" using assms(10) by simp
  then have F4: "file_of ?s4 fd = file_of s fd" using f4 assms(2) s3(4) s2(5) by (simp add: file_of_def)
  have c4: "dir ?s4 lp = None" "\<not> pwrite_appends ?s4" "test_env ?s4" "0 \<le> next_fd ?s4" "next_ino ?s4 = Suc ?n" "next_fd ?s4 = next_fd s + 2"
    using e4 assms(5-7) s3(5,6) by (simp_all add: same_env_def)
  from log_create_interrupted [OF q4 f4(1) _ c4(1-4), unfolded F4, OF assms(3)] obtain s5 where
    s5: "logdb_log_create True lp fd ?s4 = Done (None, s5)" "same_env ?s4 s5" "quiet s5" "dir s5 = (dir s)(lp := Some (Suc ?n))"
      "inode s5 = (inode s)(?n := ?J, Suc ?n := ?J)" "next_ino s5 = Suc (Suc ?n)" "next_fd s5 = next_fd s + 3"
    unfolding c4(5,6) by (auto simp: d4 s3(4) s2(5))
  from log_open_quiet [OF s5(3), of lp "Suc ?n"] s5(4,5,7) J assms(7) obtain s6 where
    s6: "logdb_log_open lp s5 = Done (None, s6)" "same_env s5 s6" "dir s6 = dir s5" "inode s6 = inode s5" "next_ino s6 = Suc (Suc ?n)"
      "next_fd s6 = next_fd s + 4"
    by (auto simp: s5(6))
  have "open_log 2 True lp fd nosync True s = Done (None, s6)"
    using fl s2(1) s3(1) u s5(1) s6(1) by (simp add: numeral_2_eq_2)
  moreover have "same_env s s6" by (rule same_env_trans [OF same_env_trans [OF e4 s5(2)] s6(2)])
  ultimately show ?thesis using s6 s5 by (intro exI [of _ s6]) simp
qed

lemma logdb_open_interrupted:
  assumes "dir s path = Some i" "i < next_ino s" "log_in (inode s i) M" "take 6 (inode s i) = logdb_header" "0 \<le> next_fd s" "quiet s"
    and "dir s (path @ LOGDB_LOG_FILE_SUFFIX) = None" "\<forall>i. other_flock s i = L_None" "\<not> pwrite_appends s" "test_env s"
  shows "\<exists>s' t J. logdb_open True (Some path) flags s = Done (None, s') \<and> take 6 J \<noteq> logdb_log_header \<and> s' = left_behind path J t \<and>
     same_env s t \<and> dir t = dir s \<and> inode t i = inode s i \<and> next_ino s < next_ino t \<and> next_fd s \<le> next_fd t"
proof -
  let ?lp = "path @ LOGDB_LOG_FILE_SUFFIX" and ?n = "next_ino s"
  from logdb_open_header [OF assms(6,1,4,5), of True flags] obtain t f where
    t: "logdb_open True (Some path) flags s =
         obind (open_log 2 True ?lp (next_fd s) (has_flag flags LOGDB_OPEN_NOSYNC) True t) (open_rest flags (next_fd s))"
      "quiet t" "same_env s t" "dir t = dir s" "inode t = inode s" "next_ino t = ?n" "next_fd t = next_fd s + 1"
      "fds t (next_fd s) = Some f" "f_ino f = i"
    by blast
  have F: "file_of t (next_fd s) = inode s i" using t(5,8,9) by (simp add: file_of_def)
  have "log_in (file_of t (next_fd s)) M" "dir t ?lp = None" "\<not> pwrite_appends t" "test_env t" "0 \<le> next_fd t" "next_fd s < next_fd t"
    "\<forall>i. other_flock t i = L_None" "f_ino f < next_ino t"
    using assms(2,3,5,7-10) t(3,4,6,7,9) F by (simp_all add: same_env_def)
  from open_log_interrupted [OF t(2,8) this, of "has_flag flags LOGDB_OPEN_NOSYNC"] obtain u where
    u: "open_log 2 True ?lp (next_fd s) (has_flag flags LOGDB_OPEN_NOSYNC) True t = Done (None, u)" "same_env t u"
      "dir u = (dir s)(?lp := Some (Suc ?n))" "inode u = (inode s)(?n := headless M, Suc ?n := headless M)"
      "next_ino u = Suc (Suc ?n)" "next_fd s \<le> next_fd u"
    unfolding t(4-7) by auto
  let ?s' = "sys_close (next_fd s) u"
  let ?t = "?s'\<lparr>dir := dir s, next_ino := Suc ?n\<rparr>"
  have "logdb_open True (Some path) flags s = Done (None, ?s')" unfolding t(1) u(1) by (simp add: open_rest_def)
  moreover have "?s' = left_behind path (headless M) ?t"
    using u(3-5) by (simp add: left_behind_def sys_close_same)
  moreover have "same_env s ?s'" by (rule same_env_trans [OF same_env_trans [OF t(3) u(2)] sys_close_same(1)])
  then have "same_env s ?t" by (simp add: same_env_def)
  moreover have "inode ?t i = inode s i" using assms(2) u(4) by (simp add: sys_close_same)
  ultimately show ?thesis
    using headless_no_log u(6) by (intro exI [of _ ?s'] exI [of _ ?t] exI [of _ "headless M"]) (simp add: sys_close_same)
qed

text \<open>What closing with a merge leaves, as the next opening needs it.\<close>

lemma close_leaves:
  assumes "settled path tid w" "conn \<noteq> 0" "length (db_file (w_conn w) (w_os w)) < 2 ^ 61"
  shows "\<exists>w1 i M. logdb_close dbg tid conn w = Done (0, w1) \<and> w_heap w1 = w_heap w \<and> same_env (w_os w) (w_os w1) \<and>
     dir (w_os w1) path = Some i \<and> i < next_ino (w_os w1) \<and> log_in (inode (w_os w1) i) M \<and> take 6 (inode (w_os w1) i) = logdb_header \<and>
     length (inode (w_os w1) i) < 2 ^ 62 \<and> log_ok M \<and> data_present M (inode (w_os w1) i) \<and> 0 \<le> next_fd (w_os w1) \<and>
     dir (w_os w1) (path @ LOGDB_LOG_FILE_SUFFIX) = None \<and>
     db_sections M (inode (w_os w1) i) = strip (\<lambda>S. S = []) (sections_of w)"
proof -
  let ?s = "w_os w" and ?c = "w_conn w" let ?L = "log_file ?c ?s" and ?D = "db_file ?c ?s"
  let ?lp = "path @ LOGDB_LOG_FILE_SUFFIX" and ?M = "merged_log ?L" and ?E = "merged_db ?L ?D"
  have "length ?D < 2 ^ 62" using assms(3) by simp
  from settled_on_disk [OF assms(1) this] have o: "log_ok ?L" "take 6 ?D = logdb_header" "data_present ?L ?D" "0 \<le> next_fd ?s"
    by (simp_all add: on_disk_def)
  have "named path w" using assms(1) by (simp add: settled_def)
  then obtain i where i: "dir ?s path = Some i" "keys ?s (c_fd ?c) = Some (i, False)" "l_path (c_log ?c) = Some ?lp" "i < next_ino ?s"
    by (auto simp: named_def Let_def split: option.splits)
  from logdb_close_quiet [OF settled_closable [OF assms(1)] assms(2) i(3), of dbg] obtain w1 where
    w1: "logdb_close dbg tid conn w = Done (0, w1)" "same_env ?s (w_os w1)" "dir (w_os w1) = (dir ?s)(?lp := None)"
      "inode (w_os w1) = (inode ?s)(i := ?E)" "next_ino (w_os w1) = next_ino ?s" "next_fd (w_os w1) = next_fd ?s" "w_heap w1 = w_heap w"
    using i(2) by auto
  have L6: "6 \<le> length ?L" using o(1) take_eq_length [of 6 ?L logdb_log_header] by (simp add: log_ok_def)
  have L: "length ?L = 6 + 2 * log_count ?L" "log_count ?L < 65536"
    using o(1) L6 by (auto simp: log_ok_def log_count_def size_defs)
  have D6: "6 \<le> length ?D" using arg_cong [OF o(2), of length] by simp
  have lenM: "length ?M = 6 + 2 * length (used_entries ?L)" "length (used_entries ?L) \<le> log_count ?L"
    using merged_log_length [OF L(1)] used_length by simp_all
  have M: "take 6 ?M = logdb_log_header" "length ?M + 4 < 4294967296"
    using o(1) lenM L by (simp_all add: merged_log_def min_absorb1 log_ok_def)
  have hd: "take 6 (resize (merged_size ?L) ?D) = logdb_header" by (rule merged_front [OF o(2)]) simp
  have X6: "6 \<le> length (resize (merged_size ?L) ?D)" using arg_cong [OF hd, of length] by simp
  have fit: "merged_size ?L \<le> length ?D" by (rule merged_size_fits [OF o(3) D6])
  have "length ?E \<le> length ?D + 131082" using fit lenM L(2) by (simp add: merged_db_def resize_def)
  then have lenE: "length ?E < 2 ^ 62" using assms(3) by simp
  have "log_count ?M = length (used_entries ?L)" using lenM(1) by (simp add: log_count_def size_defs)
  then have okM: "log_ok ?M" using M(1) lenM L(2) by (simp add: log_ok_def)
  have "log_in ?E ?M" unfolding merged_db_def by (rule log_in_end [OF M X6])
  moreover have "take 6 ?E = logdb_header" using hd X6 by (simp add: merged_db_def)
  moreover note merged_sections [OF o(3) D6 L(1)]
  ultimately show ?thesis
    using w1 i(1,4) lenE okM o(4) suffix_differs [of path]
    by (intro exI [of _ w1] exI [of _ i] exI [of _ ?M]) (simp add: sections_of_def)
qed



section \<open>A log that is lost\<close>

text \<open>The search for a log that is not there: the last four bytes are taken for its distance from the end.\<close>

lemma lost_log_search:
  assumes "quiet s" "fds s fd = Some f" "file_of s fd = F" "F = X @ le32 off" "16 \<le> length F" "10 < unat off"
    and "unat off \<le> length F" "seg F (length F - unat off) 6 \<noteq> logdb_log_header"
  shows "\<exists>s'. sys_lseek fd 0 SEEK_END s = (int (length F), set_pos s fd (length F)) \<and>
           log_create_find fd (int (length F)) (set_pos s fd (length F)) = Done (Some (None, int (unat off) - 4), s') \<and>
           same_data s s' \<and> quiet s'"
proof -
  let ?n = "length F"
  let ?t2 = "set_pos s fd ?n"
  have "sys_lseek fd 0 SEEK_END s = (int ?n + 0, set_pos s fd (nat (int ?n + 0)))"
    by (rule lseek_ok [OF assms(2)]) (simp_all only: assms(3) whence.case)
  then have seek: "sys_lseek fd 0 SEEK_END s = (int ?n, ?t2)" by (simp only: add_0_right nat_int)
  have fd2: "fds ?t2 fd = Some (f\<lparr>f_pos := ?n\<rparr>)" by (rule set_pos_fd [OF assms(2)])
  have q2: "quiet ?t2" using assms(1) by simp
  have F2: "file_of ?t2 fd = F" unfolding file_of_set_pos by (rule assms(3))
  have n16: "16 \<le> length (file_of ?t2 fd)" unfolding F2 by (rule assms(5))
  have off: "unat (of_le32 (seg F (?n - 4) 4)) = unat off" using assms(4) by (simp add: seg_def)
  obtain t3 where t3: "log_create_find fd (int ?n) ?t2 =
      obind (logdb_log_read fd LOGDB_READ_HAS_TRAILER (set_pos t3 fd (?n - unat off))) (\<lambda>(b, s).
          Done (Some ((case b of LB_Block h \<Rightarrow> Some h | _ \<Rightarrow> None), (int (unat off) - int sizeof_trailer) mod 2 ^ 64), s))"
    "same_data ?t2 t3" "quiet t3" "fds t3 fd = Some (f\<lparr>f_pos := ?n\<rparr>)"
    using create_find_step [OF q2 fd2 n16, unfolded F2 off] assms(7) by auto
  let ?t4 = "set_pos t3 fd (?n - unat off)"
  have fd4: "fds ?t4 fd = Some (f\<lparr>f_pos := ?n - unat off\<rparr>)" using set_pos_fd [OF t3(4)] by simp
  have q4: "quiet ?t4" using t3(3) by simp
  have F4: "file_of ?t4 fd = F" unfolding file_of_set_pos same_data_file [OF t3(2)] by (rule assms(3))
  obtain r bs t5 where e: "logdb_io_read fd 6 ?t4 = (r, bs, t5)" "r = 0 \<and> length bs = 6 \<or> r = -1 \<and> length bs < 6"
      "bs = seg F (?n - unat off) (length bs)" "quiet t5" "same_data ?t4 t5"
    using read_quiet_some [OF q4 fd4, of 6] F4 by auto
  have "\<not> (r = 0 \<and> valid_header LOGDB_LOG_MAGIC bs)"
  proof
    assume a: "r = 0 \<and> valid_header LOGDB_LOG_MAGIC bs"
    then have "length bs = 6" using e(2) by simp
    with valid_header_unique [OF this] a have "bs = logdb_log_header" by (simp add: logdb_log_header_def)
    with e(3) assms(8) show False by simp
  qed
  then have null: "logdb_log_read fd LOGDB_READ_HAS_TRAILER ?t4 = Done (LB_Null, t5)"
    using e(1,2) by (auto simp: logdb_log_read_def size_defs)
  define k where "k = unat off"
  have k: "10 < k" "k < 4294967296" using assms(6) unat_32_less [of off] by (simp_all add: k_def)
  have "(int k - 4) mod 2 ^ 64 = int k - 4" by (rule mod_pos_pos_trivial) (use k in simp_all)
  then have wrap: "(int (unat off) - int sizeof_trailer) mod 2 ^ 64 = int (unat off) - 4"
    by (simp only: k_def size_defs of_nat_numeral)
  have "log_create_find fd (int ?n) ?t2 = Done (Some (None, int (unat off) - 4), t5)"
    unfolding t3(1) null wrap by simp
  moreover have "same_data s t5"
    by (rule same_data_trans [OF same_data_trans [OF same_data_trans [OF same_data_steps(3) t3(2)] same_data_steps(3)] e(5)])
  ultimately show ?thesis using seek e(4) by blast
qed

text \<open>C35: The log file is gone and the database does not end with a log: its last four bytes, whatever they are, are
  taken for the distance to a log. When they point into the file but not at the header of a log, the log file is
  written from a block of six bytes with the size they give, and the write reads past its end.\<close>

theorem lost_log_overruns:
  assumes "quiet s" "dir s path = Some i" "dir s (path @ LOGDB_LOG_FILE_SUFFIX) = None" "take 6 (inode s i) = logdb_header"
    and "inode s i = X @ le32 off" "16 \<le> length (inode s i)" "10 < unat off" "unat off \<le> length (inode s i)"
    and "seg (inode s i) (length (inode s i) - unat off) 6 \<noteq> logdb_log_header" "0 \<le> next_fd s" "\<forall>i. other_flock s i = L_None"
  shows "logdb_open dbg (Some path) flags s = Fault OutOfBounds"
proof -
  let ?lp = "path @ LOGDB_LOG_FILE_SUFFIX" and ?fd = "next_fd s" and ?F = "inode s i" and ?n = "length (inode s i)"
  obtain t f where t: "logdb_open dbg (Some path) flags s =
       obind (open_log 2 dbg ?lp ?fd (has_flag flags LOGDB_OPEN_NOSYNC) True t) (open_rest flags ?fd)"
     "quiet t" "same_env s t" "dir t = dir s" "inode t = inode s" "next_fd t = ?fd + 1" "fds t ?fd = Some f" "f_ino f = i"
    using logdb_open_header [OF assms(1,2,4,10)] by blast
  let ?t1 = "(popped t)\<lparr>my_flock := (my_flock t)(?fd := L_Exclusive)\<rparr>"
  have "other_flock t (f_ino f) = L_None" using t(3) assms(11) by (simp add: same_env_def)
  from flock_ok(1) [OF t(2,7) this] have fl: "sys_flock_ex_nb ?fd t = (0, ?t1)" .
  have q1: "quiet ?t1" by (rule same_env_quiet [OF flock_same(1) t(2)])
  have f1: "fds ?t1 ?fd = Some f" "file_of ?t1 ?fd = ?F" using t(5,7,8) by (simp_all add: file_of_def)
  define N where "N = int (unat off) - 4"
  have N: "6 < N" unfolding N_def using assms(7) by linarith
  obtain t5 where l1: "sys_lseek ?fd 0 SEEK_END ?t1 = (int ?n, set_pos ?t1 ?fd ?n)"
    and find: "log_create_find ?fd (int ?n) (set_pos ?t1 ?fd ?n) = Done (Some (None, N), t5)"
    and t5: "same_data ?t1 t5" "quiet t5"
    using lost_log_search [OF q1 f1 assms(5-9)] unfolding N_def by blast
  let ?t6 = "popped t5"
  have same6: "same_data ?t1 ?t6"
    by (rule same_data_trans [OF t5(1) same_data_steps(1)])
  have d6: "dir ?t6 ?lp = None" "quiet ?t6" "next_fd ?t6 = ?fd + 1"
    using same_data_same [OF same6] t(4,6) assms(3) t5(2) by (simp_all add: same_names_def)
  have nn: "int ?n \<noteq> -1" "next_fd ?t6 \<noteq> -1" using assms(10) d6(3) by simp_all
  have "log_create_write dbg ?lp logdb_log_header N ?t6 = Fault OutOfBounds"
    using open_new_quiet [OF d6(2,1), of "\<lparr>o_creat = True, o_excl = True, o_append = True\<rparr>"] nn(2) N
    by (simp add: log_create_write_def size_defs)
  then have "logdb_log_create dbg ?lp ?fd ?t1 = Fault OutOfBounds"
    unfolding logdb_log_create_def l1 prod.case if_not_P [OF nn(1)] find using pass_calls(1) [OF t5(2)] by simp
  then have "open_log 2 dbg ?lp ?fd (has_flag flags LOGDB_OPEN_NOSYNC) True t = Fault OutOfBounds"
    using fl by (simp add: numeral_2_eq_2)
  then show ?thesis unfolding t(1) by simp
qed

text \<open>The database of one record, the integer 12 under the key \<open>k\<close>, as it is while it is open.\<close>

theorem lost_log_overruns_witness:
  "logdb_open True (Some ''t'') LOGDB_OPEN_EXISTING
     (killed ((ex_os (logdb_header @ [2, 0, 0, 0, 4, 0, 0, 0, 107, 0] @ le32 12) [] [])\<lparr>dir := [''t'' \<mapsto> 0]\<rparr>) []) = Fault OutOfBounds"
proof -
  let ?D = "logdb_header @ [2, 0, 0, 0, 4, 0, 0, 0, 107, 0] @ le32 12"
  let ?s = "killed ((ex_os ?D [] [])\<lparr>dir := [''t'' \<mapsto> 0]\<rparr>) []"
  have s: "quiet ?s" "dir ?s ''t'' = Some 0" "dir ?s (''t'' @ LOGDB_LOG_FILE_SUFFIX) = None" "inode ?s 0 = ?D" "0 \<le> next_fd ?s"
    "\<forall>i. other_flock ?s i = L_None"
    by (simp_all add: killed_def ex_os_def quiet_def LOGDB_LOG_FILE_SUFFIX_def)
  have D: "take 6 ?D = logdb_header" "?D = (logdb_header @ [2, 0, 0, 0, 4, 0, 0, 0, 107, 0]) @ le32 12" "16 \<le> length ?D"
    "10 < unat (12 :: 32 word)" "unat (12 :: 32 word) \<le> length ?D" by simp_all
  have h: "seg ?D (length ?D - unat (12 :: 32 word)) 6 \<noteq> logdb_log_header" by code_simp
  show ?thesis
    by (rule lost_log_overruns [OF s(1-3), unfolded s(4), OF D h s(5,6)])
qed

end
