(* ===== verification/Tools.thy ===== *)
theory Tools
  imports Stress Reopen
begin

text \<open>
  \<open>main\<close> of \<^verbatim>\<open>stress/stress.c\<close>, and the two tools of the repository one after the other: a database that is
  created, filled, closed, opened again and dumped.
\<close>

section \<open>The program\<close>

text \<open>A number as \<open>printf\<close> shows it under \<open>%d\<close>.\<close>

fun decimal :: "nat \<Rightarrow> byte list" where
  "decimal n = (if n < 10 then [48 + of_nat n] else decimal (n div 10) @ [48 + of_nat (n mod 10)])"

declare decimal.simps [simp del]

lemma decimal_digit: "n < 10 \<Longrightarrow> decimal n = [48 + of_nat n]"
  by (simp add: decimal.simps [of n])

text \<open>
  The key of a thread, with its terminating zero, in a block of the size the program asks for; a string
  that is longer overruns it. What \<open>malloc\<close> leaves behind the string is never read.
\<close>

definition key_string :: "byte list \<Rightarrow> byte list option \<Rightarrow> nat \<Rightarrow> byte list" where
  "key_string prefix suffix i = prefix @ (case suffix of Some sfx \<Rightarrow> sfx | None \<Rightarrow> [58, 116] @ decimal i) @ [0]"

definition new_key :: "byte list \<Rightarrow> byte list option \<Rightarrow> nat \<Rightarrow> heap \<Rightarrow> (ptr \<times> heap) outcome" where
  "new_key prefix suffix i h =
     (case h_malloc h of (p, h) \<Rightarrow>
      if p = 0 then Done (0, h)
      else let str = key_string prefix suffix i;
               size = length prefix + (case suffix of Some sfx \<Rightarrow> length sfx | None \<Rightarrow> 10)
           in if size < length str then Fault OutOfBounds
              else Done (p, h\<lparr>mem := (mem h)(p := Some (str @ replicate (size - length str) 0))\<rparr>))"

text \<open>
  The threads, one after the other: each runs to its end when it is created. The result is 0 or the
  code the program ends with, and the puts that failed.
\<close>

fun run_threads :: "nat \<Rightarrow> bool \<Rightarrow> ptr \<Rightarrow> byte list \<Rightarrow> byte list option \<Rightarrow> nat \<Rightarrow> nat list \<Rightarrow> world \<Rightarrow>
    (int \<times> (nat \<times> int) list \<times> world) outcome" where
  "run_threads fuel dbg conn prefix suffix cnt [] w = Done (0, [], w)"
| "run_threads fuel dbg conn prefix suffix cnt (i # is) w =
     obind (new_key prefix suffix i (w_heap w)) (\<lambda>(key, h).
     let w = w\<lparr>w_heap := h\<rparr> in
     if key = 0 then obind (logdb_close dbg 0 conn w) (\<lambda>(r, w). Done (5, [], w))
     else case sys_pthread (w_os w) of (ok, s) \<Rightarrow>
     let w = w\<lparr>w_os := s\<rparr> in
     if \<not> ok then obind (logdb_close dbg 0 conn w) (\<lambda>(r, w). Done (6, [], w))
     else obind (thread_func fuel dbg (Suc i) conn key cnt w) (\<lambda>(failed, w).
     obind (logdb_txn_destruct (logdb_txn_current (Suc i) w) w) (\<lambda>w.
     obind (run_threads fuel dbg conn prefix suffix cnt is w) (\<lambda>(r, more_failed, w).
     Done (r, map (Pair i) failed @ more_failed, w)))))"

text \<open>Waiting for the threads.\<close>

fun join_threads :: "bool \<Rightarrow> ptr \<Rightarrow> nat list \<Rightarrow> world \<Rightarrow> (int \<times> world) outcome" where
  "join_threads dbg conn [] w = Done (0, w)"
| "join_threads dbg conn (i # is) w =
     (case sys_pthread (w_os w) of (ok, s) \<Rightarrow>
      let w = w\<lparr>w_os := s\<rparr> in
      if \<not> ok then obind (logdb_close dbg 0 conn w) (\<lambda>(r, w). Done (7, w)) else join_threads dbg conn is w)"

text \<open>
  The program after its arguments have been counted and read by \<open>atoi\<close>; \<open>prefix\<close> and \<open>suffix\<close> are the
  texts it takes from the arguments or the environment. A negative number of threads asks \<open>malloc\<close> for
  more than there is.
\<close>

definition stress_main :: "nat \<Rightarrow> bool \<Rightarrow> string \<Rightarrow> byte list \<Rightarrow> byte list option \<Rightarrow> int \<Rightarrow> int \<Rightarrow> heap \<Rightarrow> os \<Rightarrow>
    (int \<times> (nat \<times> int) list \<times> os) outcome" where
  "stress_main fuel dbg path prefix suffix threadcnt cnt h s =
     (if threadcnt = 0 \<or> cnt = 0 then Done (2, [], s)
      else case sys_malloc s of (ok, s) \<Rightarrow>
      if \<not> ok \<or> threadcnt < 0 then Done (3, [], s)
      else obind (logdb_open dbg (Some path) LOGDB_OPEN_CREATE s) (\<lambda>(conn, s).
      case conn of
        None \<Rightarrow> Done (4, [], s)
      | Some c \<Rightarrow>
          let threads = [0..<nat threadcnt] in
          obind (run_threads fuel dbg 1 prefix suffix (nat cnt) threads \<lparr>w_os = s, w_heap = h, w_conn = c\<rparr>) (\<lambda>(r, failed, w).
          if r \<noteq> 0 then Done (r, failed, w_os w)
          else obind (join_threads dbg 1 threads w) (\<lambda>(r, w).
          if r \<noteq> 0 then Done (r, failed, w_os w)
          else obind (logdb_close dbg 0 1 w) (\<lambda>(r, w). Done (r, failed, w_os w))))))"

section \<open>Threads one after the other\<close>

text \<open>Every record has a key and a value of the tool's sizes.\<close>

definition tool_record :: "nat \<Rightarrow> kv \<Rightarrow> bool" where
  "tool_record L kv = (length (fst kv) + 12 = L \<and> length (snd kv) = 4)"

lemma tool_sections:
  assumes "list_all (tool_record L) (concat R)" "S = map records_bytes R"
  shows "list_all (\<lambda>s. L dvd length s) S"
proof -
  have "L dvd length (records_bytes rs)" if "list_all (tool_record L) rs" for rs
    using that
  proof (induction rs)
    case (Cons kv rs)
    then have "length (record_bytes (fst kv) (snd kv)) = L" by (simp add: record_length tool_record_def)
    with Cons show ?case by (cases kv) simp
  qed simp
  with assms show ?thesis by (auto simp: list_all_iff)
qed

lemma thread_key:
  assumes "0 \<notin> set prefix" "i < 10"
  shows "key_string prefix None i = prefix @ [58, 116, 48 + of_nat i, 0]"
    "takeWhile (\<lambda>b. b \<noteq> 0) (key_string prefix None i @ zs) = prefix @ [58, 116, 48 + of_nat i]"
proof -
  show k: "key_string prefix None i = prefix @ [58, 116, 48 + of_nat i, 0]"
    using assms(2) by (simp add: key_string_def decimal_digit)
  have "(48 + of_nat i :: byte) \<noteq> 0"
  proof -
    have "unat (of_nat (48 + i) :: byte) = 48 + i" unfolding unat_of_nat using assms(2) by simp
    then have "(of_nat (48 + i) :: byte) \<noteq> 0" by (metis add_eq_0_iff_both_eq_0 unat_0 zero_neq_numeral)
    then show ?thesis by simp
  qed
  moreover have "takeWhile (\<lambda>b. b \<noteq> 0) (prefix @ ys) = prefix @ takeWhile (\<lambda>b. b \<noteq> 0) ys" for ys
    using assms(1) by (intro takeWhile_append2) auto
  ultimately show "takeWhile (\<lambda>b. b \<noteq> 0) (key_string prefix None i @ zs) = prefix @ [58, 116, 48 + of_nat i]"
    unfolding k by simp
qed

definition thread_records :: "byte list \<Rightarrow> nat \<Rightarrow> nat \<Rightarrow> kv list" where
  "thread_records prefix cnt i = map (\<lambda>j. (prefix @ [58, 116, 48 + of_nat i, 0], le32 (word_of_int (int j)))) [0..<cnt]"

lemma run_one:
  assumes set: "settled path 0 w" and cur: "c_current_txn (w_conn w) = (\<lambda>_. 0)" and conn: "conn \<noteq> 0"
    and p: "0 \<notin> set prefix" "i < 10" "length prefix + 16 = L" "L < 65536" "\<not> L dvd 65536"
    and R: "list_all (tool_record L) (concat R)" "sections_of w = map records_bytes R"
    and n: "log_count (log_file (w_conn w) (w_os w)) + cnt < 65536"
  shows "\<exists>w' R'. run_threads (Suc f) dbg conn prefix None cnt (i # is) w =
       obind (run_threads (Suc f) dbg conn prefix None cnt is w') (\<lambda>(r, failed, w). Done (r, failed, w)) \<and>
     settled path 0 w' \<and> c_current_txn (w_conn w') = (\<lambda>_. 0) \<and>
     sections_of w' = map records_bytes R' \<and> list_all (tool_record L) (concat R') \<and>
     mset (concat R') = mset (concat R) + mset (thread_records prefix cnt i) \<and>
     log_count (log_file (w_conn w') (w_os w')) \<le> log_count (log_file (w_conn w) (w_os w)) + cnt \<and> same_env (w_os w) (w_os w')"
proof -
  let ?h = "w_heap w" and ?a = "Suc (brk (w_heap w))" and ?str = "key_string prefix None i"
  let ?bs = "?str @ replicate (length prefix + 10 - length ?str) 0" and ?ks = "prefix @ [58, 116, 48 + of_nat i]"
  let ?h1 = "(h_bump ?h)\<lparr>mem := (mem ?h)(?a := Some ?bs)\<rparr>"
  let ?w1 = "w\<lparr>w_heap := ?h1, w_os := popped (w_os w)\<rparr>"
  have c0: "client_ok 0 w" using set by (simp add: settled_def)
  then have hw: "heap_ok ?h" "plenty ?h" "quiet (w_os w)" by (simp_all add: client_ok_def calm_def)
  have k: "new_key prefix None i ?h = Done (?a, ?h1)"
    using h_malloc_plenty [OF hw(2)] thread_key(1) [OF p(1,2)] by (simp add: new_key_def Let_def)
  have pt: "sys_pthread (w_os w) = (True, popped (w_os w))" by (rule pass_calls(2) [OF hw(3)])
  have same: "same_data (w_os w) (popped (w_os w))" by simp
  have w1: "?w1 = w\<lparr>w_heap := ?h1, w_os := popped (w_os w)\<rparr>" by simp
  have h1: "heap_ok ?h1" "plenty ?h1" using hw plenty_bump [OF hw(2)] by (auto simp: heap_ok_def plenty_def)
  have "client_ok (Suc i) w" by (rule client_ok_tid [OF c0]) (simp add: logdb_txn_current_def cur)
  note q = quiet_step [OF same, where h = ?h1]
  have st1: "stays w ?w1" by (rule q(1))
  have c1: "client_ok (Suc i) ?w1" by (rule q(3) [OF \<open>client_ok (Suc i) w\<close> h1])
  have mem1: "mem (w_heap ?w1) ?a = Some ?bs" "0 \<in> set ?bs" by (simp_all add: key_string_def)
  have ks: "?ks = takeWhile (\<lambda>b. b \<noteq> 0) ?bs" using thread_key(2) [OF p(1,2)] by simp
  have len: "length ?ks + 13 = L" using p(3) by simp
  have S: "list_all (\<lambda>S. L dvd length S) (sections_of ?w1)" "sections_of ?w1 = map records_bytes R"
    using q(2) R(2) tool_sections [OF R] by simp_all
  have lf: "log_file (w_conn ?w1) (w_os ?w1) = log_file (w_conn w) (w_os w)" using files_same [OF same] by simp
  have n1: "log_count (log_file (w_conn ?w1) (w_os ?w1)) + cnt < 65536" using n unfolding lf .
  from thread_func_stores [OF c1 conn mem1 _ ks len p(4,5) S(1) n1 S(2), of f dbg] obtain w' R' where
    w': "thread_func (Suc f) dbg (Suc i) conn ?a cnt ?w1 = Done ([], w')" "client_ok (Suc i) w'"
      "sections_of w' = map records_bytes R'"
      "mset (concat R') = mset (concat R) + mset (map (\<lambda>j. (?ks @ [0], le32 (word_of_int (int j)))) [0..<cnt])" "stays ?w1 w'"
      "log_count (log_file (w_conn w') (w_os w')) \<le> log_count (log_file (w_conn ?w1) (w_os ?w1)) + cnt"
    by auto
  have st: "stays w w'" by (rule stays_trans [OF st1 w'(5)])
  have cur': "c_current_txn (w_conn w') = (\<lambda>_. 0)" using st cur by (auto simp: stays_def)
  have "client_ok 0 w'" by (rule client_ok_tid [OF w'(2)]) (simp add: logdb_txn_current_def cur')
  then have "settled path 0 w'" by (rule settled_stays [OF set st])
  moreover have "mset (concat R') = mset (concat R) + mset (thread_records prefix cnt i)"
    using w'(4) by (simp add: thread_records_def)
  moreover have "list_all (tool_record L) (concat R')"
    using w'(4) R(1) p(3) list_all_mset [of "concat R'" "concat R @ map (\<lambda>j. (?ks @ [0], le32 (word_of_int (int j)))) [0..<cnt]" "tool_record L"]
    by (auto simp: list_all_iff tool_record_def)
  moreover have "run_threads (Suc f) dbg conn prefix None cnt (i # is) w =
       obind (run_threads (Suc f) dbg conn prefix None cnt is w') (\<lambda>(r, failed, w). Done (r, failed, w))"
    using k pt w'(1) cur' by (simp add: logdb_txn_destruct_def logdb_txn_current_def)
  moreover have "same_env (w_os w) (w_os w')" using st frame_same by (auto simp: stays_def)
  ultimately show ?thesis using w'(3) w'(6) [unfolded lf] cur' by blast
qed


lemma run_threads_store:
  assumes "settled path 0 w" "c_current_txn (w_conn w) = (\<lambda>_. 0)" "conn \<noteq> 0"
    and p: "0 \<notin> set prefix" "list_all (\<lambda>i. i < 10) is" "length prefix + 16 = L" "L < 65536" "\<not> L dvd 65536"
    and "list_all (tool_record L) (concat R)" "sections_of w = map records_bytes R"
    and "log_count (log_file (w_conn w) (w_os w)) + length is * cnt < 65536"
  shows "\<exists>w' R'. run_threads (Suc f) dbg conn prefix None cnt is w = Done (0, [], w') \<and>
     settled path 0 w' \<and> sections_of w' = map records_bytes R' \<and>
     mset (concat R') = mset (concat R) + mset (concat (map (thread_records prefix cnt) is)) \<and> same_env (w_os w) (w_os w')"
  using assms
proof (induction "is" arbitrary: w R)
  case Nil
  then show ?case by (intro exI [of _ w] exI [of _ R]) (simp add: same_env_def)
next
  case (Cons i "is")
  have i: "i < 10" "list_all (\<lambda>i. i < 10) is" and n: "log_count (log_file (w_conn w) (w_os w)) + cnt < 65536"
    using Cons.prems(5,11) by simp_all
  from run_one [OF Cons.prems(1-4) i(1) Cons.prems(6-10) n, of f dbg "is"] obtain w1 R1 where
    w1: "run_threads (Suc f) dbg conn prefix None cnt (i # is) w =
       obind (run_threads (Suc f) dbg conn prefix None cnt is w1) (\<lambda>(r, failed, w). Done (r, failed, w))"
      "settled path 0 w1" "c_current_txn (w_conn w1) = (\<lambda>_. 0)" "sections_of w1 = map records_bytes R1"
      "list_all (tool_record L) (concat R1)" "mset (concat R1) = mset (concat R) + mset (thread_records prefix cnt i)"
      "log_count (log_file (w_conn w1) (w_os w1)) \<le> log_count (log_file (w_conn w) (w_os w)) + cnt" "same_env (w_os w) (w_os w1)"
    by blast
  have "log_count (log_file (w_conn w1) (w_os w1)) + length is * cnt < 65536" using w1(7) Cons.prems(11) by simp
  from Cons.IH [OF w1(2,3) Cons.prems(3,4) i(2) Cons.prems(6-8) w1(5,4) this] obtain w' R' where
    w': "run_threads (Suc f) dbg conn prefix None cnt is w1 = Done (0, [], w')" "settled path 0 w'"
      "sections_of w' = map records_bytes R'"
      "mset (concat R') = mset (concat R1) + mset (concat (map (thread_records prefix cnt) is))" "same_env (w_os w1) (w_os w')"
    by blast
  have "run_threads (Suc f) dbg conn prefix None cnt (i # is) w = Done (0, [], w')" unfolding w1(1) w'(1) by simp
  moreover have "mset (concat R') = mset (concat R) + mset (concat (map (thread_records prefix cnt) (i # is)))"
    using w'(4) w1(6) by simp
  ultimately show ?case using w'(2,3) same_env_trans [OF w1(8) w'(5)] by blast
qed

lemma join_threads_quiet:
  "quiet (w_os w) \<Longrightarrow> \<exists>s. join_threads dbg conn is w = Done (0, w\<lparr>w_os := s\<rparr>) \<and> same_data (w_os w) s"
proof (induction "is" arbitrary: w)
  case Nil
  then show ?case by (intro exI [of _ "w_os w"]) simp
next
  case (Cons i "is")
  let ?w = "w\<lparr>w_os := popped (w_os w)\<rparr>"
  from Cons.IH [of ?w] Cons.prems obtain s where
    "join_threads dbg conn is ?w = Done (0, w\<lparr>w_os := s\<rparr>)" "same_data (popped (w_os w)) s" by auto
  then show ?case
    using pass_calls(2) [OF Cons.prems] same_data_trans [OF same_data_steps(1), of "w_os w" s] by (intro exI [of _ s]) simp
qed

section \<open>Dumping a database that has been closed\<close>

lemma records_bytes_empty: "records_bytes rs = [] \<longleftrightarrow> rs = []"
  by (cases rs) (auto simp: record_bytes_def)

lemma close_then_dump:
  assumes "settled path 0 w" "conn \<noteq> 0" "\<not> (dbg \<and> test_env (w_os w))" "sections_of w = map records_bytes R"
    and "list_all printable (concat R)" "length (concat R) < n" "heap_ok h" "plenty h"
  shows "\<exists>w1 s. logdb_close dbg 0 conn w = Done (0, w1) \<and> dump_main n dbg 0 path h (w_os w1) = Done (0, map line (concat R), s)"
proof -
  from close_then_open_sections [OF assms(1-3), of LOGDB_OPEN_EXISTING] obtain w1 c s' where
    r: "logdb_close dbg 0 conn w = Done (0, w1)" "logdb_open dbg (Some path) LOGDB_OPEN_EXISTING (w_os w1) = Done (Some c, s')"
      "settled path 0 \<lparr>w_os = s', w_heap = w_heap w, w_conn = c\<rparr>"
      "sections_of \<lparr>w_os = s', w_heap = w_heap w, w_conn = c\<rparr> = strip (\<lambda>S. S = []) (sections_of w)"
    by blast
  let ?w = "\<lparr>w_os = s', w_heap = h, w_conn = c\<rparr>" and ?R = "strip (\<lambda>r. r = []) R"
  have set: "settled path 0 ?w" using settled_step [OF r(3) _ assms(7,8), of s'] by simp
  have "sections_of ?w = map records_bytes ?R"
    using r(4) assms(4) by (simp add: sections_of_def strip_map records_bytes_empty)
  moreover have "client_ok 0 ?w" using set by (simp add: settled_def)
  ultimately have sc: "scannable ?R ?w" using client_scannable [of 0 ?w ?R] assms(5) by (simp add: concat_strip)
  have "list_all printable (concat ?R)" "length (concat ?R) < n" using assms(5,6) by (simp_all add: concat_strip)
  from dump_records_lists [OF sc this, of 1 dbg] obtain w2 where
    d: "dump_records n dbg 1 ?w = Done (0, map line (concat R), w2)" "w_conn w2 = c" "same_data s' (w_os w2)"
      "same_cells h (w_heap w2)"
    by (auto simp: concat_strip)
  have "w2 = ?w\<lparr>w_heap := w_heap w2, w_os := w_os w2\<rparr>" using d(2) by simp
  moreover have "heap_ok (w_heap w2)" using assms(7) d(4) by (fastforce simp: heap_ok_def same_cells_def)
  ultimately have set2: "settled path 0 w2"
    using settled_step [OF set, of "w_os w2" "w_heap w2"] d(3,4) by (simp add: same_cells_def)
  have "named path w2" using set2 by (simp add: settled_def)
  from logdb_close_quiet [OF settled_closable [OF set2], of 1 _ dbg] named_log [OF this] obtain w3 where
    "logdb_close dbg 0 1 w2 = Done (0, w3)" by force
  then have "dump_main n dbg 0 path h (w_os w1) = Done (0, map line (concat R), w_os w3)"
    using r(2) d(1) by (simp add: dump_main_def)
  with r(1) show ?thesis by blast
qed


section \<open>Properties\<close>

text \<open>C2: Closing the last connection and opening the database again gives the sections back, except for empty
  ones at the end; the process is in a state between two calls as before.\<close>

theorem close_then_open:
  assumes "settled path tid w" "conn \<noteq> 0" "\<not> (dbg \<and> test_env (w_os w))"
  shows "\<exists>w1 c s. logdb_close dbg tid conn w = Done (0, w1) \<and> logdb_open dbg (Some path) flags (w_os w1) = Done (Some c, s) \<and>
     settled path tid \<lparr>w_os = s, w_heap = w_heap w1, w_conn = c\<rparr> \<and>
     sections_of \<lparr>w_os = s, w_heap = w_heap w1, w_conn = c\<rparr> = strip (\<lambda>S. S = []) (sections_of w)"
  using close_then_open_sections [OF assms, of flags] by fastforce

text \<open>A section with one record and two empty ones.\<close>

theorem close_then_open_witness:
  "\<exists>w1 c s. logdb_close True 0 1 (ex_world dump_db (logdb_log_header @ [14, 0, 0, 0, 0, 0]) []) = Done (0, w1) \<and>
     logdb_open True (Some ''t'') LOGDB_OPEN_EXISTING (w_os w1) = Done (Some c, s) \<and>
     sections_of \<lparr>w_os = s, w_heap = w_heap w1, w_conn = c\<rparr> = [drop 6 dump_db]"
proof -
  let ?L = "logdb_log_header @ [14, 0, 0, 0, 0, 0]" let ?w = "ex_world dump_db ?L []"
  have cnt: "log_count ?L = 3" by (simp add: log_count_def size_defs)
  have e: "entry_at ?L 0 = 14" "entry_at ?L 1 = 0" "entry_at ?L 2 = 0" by code_simp+
  have up: "[0..<3] = [0, 1, 2]" by (simp add: upt_rec)
  have len: "length dump_db = 20" by code_simp
  have dp: "data_present ?L dump_db" unfolding data_present_def cnt up using e len by simp
  have "settled ''t'' 0 ?w" by (rule ex_settled) (use dp cnt in \<open>simp_all add: dump_db_def\<close>)
  moreover have "sections_of ?w = [drop 6 dump_db, [], []]"
    unfolding sections_of_def using e len by (simp add: db_sections_def cnt up section_of_def seg_def)
  moreover have "strip (\<lambda>S. S = []) [drop 6 dump_db, [], []] = [drop 6 dump_db]" using len by (simp add: strip_def)
  moreover have "\<not> (True \<and> test_env (w_os ?w))" by (simp add: ex_os_def)
  ultimately show ?thesis using close_then_open [of "''t''" 0 ?w 1 True LOGDB_OPEN_EXISTING] by fastforce
qed

text \<open>What the dump shows of the records of the threads.\<close>

lemma thread_lines:
  assumes "0 \<notin> set prefix" "threads \<le> 10" "cnt < 65536"
  shows "map line (concat (map (thread_records prefix cnt) [0..<threads])) =
         concat (map (\<lambda>i. map (\<lambda>j. (prefix @ [58, 116, 48 + of_nat i], int j)) [0..<cnt]) [0..<threads])"
proof -
  have one: "map line (thread_records prefix cnt i) = map (\<lambda>j. (prefix @ [58, 116, 48 + of_nat i], int j)) [0..<cnt]" if "i < threads" for i
  proof -
    have "takeWhile (\<lambda>b. b \<noteq> 0) (prefix @ [58, 116, 48 + of_nat i, 0]) = prefix @ [58, 116, 48 + of_nat i]"
      using thread_key(2) [OF assms(1), of i "[]"] that assms(2)
      unfolding append_Nil2 thread_key(1) [OF assms(1) less_le_trans [OF that assms(2)]] by simp
    then show ?thesis using sint_small assms(3) by (simp add: thread_records_def line_def)
  qed
  have "map (\<lambda>i. map line (thread_records prefix cnt i)) [0..<threads] =
      map (\<lambda>i. map (\<lambda>j. (prefix @ [58, 116, 48 + of_nat i], int j)) [0..<cnt]) [0..<threads]"
    by (rule map_cong [OF refl]) (use one in auto)
  then show ?thesis by (simp only: map_concat map_map comp_def)
qed



text \<open>C40: With LOGDB_STRESS_KEY_SUFFIX set the block for a key has no room for the terminating zero: whatever the prefix,
  the suffix and the number of threads, the stress tool overruns it for its first thread.\<close>

theorem stress_suffix_overruns:
  assumes "calm s" "other_locks s = []" "dir s path = None" "dir s (path @ LOGDB_LOG_FILE_SUFFIX) = None"
    and "\<not> pwrite_appends s" "\<not> (dbg \<and> test_env s)" "0 \<le> next_fd s" "\<forall>i. other_flock s i = L_None"
    and "heap_ok h" "plenty h" "0 < threads" "cnt \<noteq> 0"
  shows "stress_main f dbg path prefix (Some suffix) threads cnt h s = Fault OutOfBounds"
proof -
  have q: "quiet s" by (rule calm_quiet [OF assms(1)])
  have calm1: "calm (popped s)" using frame_calm [OF frame_steps(1) assms(1)] .
  obtain c s1 where o: "logdb_open dbg (Some path) LOGDB_OPEN_CREATE (popped s) = Done (Some c, s1)"
    using fresh_world [of "popped s" path dbg h 0] calm1 assms(2-10) by auto
  have "new_key prefix (Some suffix) 0 h = Fault OutOfBounds"
    using h_malloc_plenty [OF assms(10)] by (simp add: new_key_def key_string_def)
  moreover have "[0..<nat threads] = 0 # [1..<nat threads]" using assms(11) by (simp add: upt_rec)
  ultimately show ?thesis
    using pass_calls(1) [OF q] assms(11,12) o by (simp add: stress_main_def Let_def)
qed

theorem stress_suffix_overruns_witness:
  "stress_main 1 True ''t'' [107] (Some [49]) 1 1 client_heap ((ex_os [] [] [])\<lparr>dir := (\<lambda>_. None)\<rparr>) = Fault OutOfBounds"
proof -
  let ?s = "(ex_os [] [] [])\<lparr>dir := (\<lambda>_. None)\<rparr>"
  have c: "calm ?s" by (auto simp: calm_def quiet_def ex_os_def)
  have env: "other_locks ?s = []" "dir ?s ''t'' = None" "dir ?s (''t'' @ LOGDB_LOG_FILE_SUFFIX) = None" "\<not> pwrite_appends ?s"
    "\<not> (True \<and> test_env ?s)" "0 \<le> next_fd ?s" "\<forall>i. other_flock ?s i = L_None"
    by (simp_all add: ex_os_def)
  have h: "heap_ok client_heap" "plenty client_heap" by (auto simp: client_heap_def heap_ok_def plenty_def split: if_splits)
  show ?thesis by (rule stress_suffix_overruns [OF c env h]) simp_all
qed

end
