(* ===== verification/Sessions.thy ===== *)
theory Sessions
  imports Restart Tools
begin

text \<open>
  Sequences of processes that use one database: each opens it, puts records, and closes it or dies. What
  the last one reads is what all of them have put.
\<close>

section \<open>Programs\<close>

text \<open>A client that puts records, with buffers of its own for key and value; it stops at the first failure.\<close>

fun put_all :: "nat \<Rightarrow> bool \<Rightarrow> nat \<Rightarrow> ptr \<Rightarrow> kv list \<Rightarrow> world \<Rightarrow> (int \<times> world) outcome" where
  "put_all f dbg tid conn [] w = Done (0, w)"
| "put_all f dbg tid conn ((k, v) # kvs) w =
     obind (new_bytes dbg k (w_heap w)) (\<lambda>(key, h).
     obind (new_bytes dbg v h) (\<lambda>(val, h).
     obind (logdb_put f dbg tid conn key val (w\<lparr>w_heap := h\<rparr>)) (\<lambda>(r, w).
     obind (logdb_buffer_free val (w_heap w)) (\<lambda>h.
     obind (logdb_buffer_free key h) (\<lambda>h.
     let w = w\<lparr>w_heap := h\<rparr> in
     if r \<noteq> 0 then Done (r, w) else put_all f dbg tid conn kvs w)))))"

text \<open>A process ends by closing the connection, or dies before it; then the next one has a new schedule.\<close>

datatype ending = Closes | Dies "io_event list"

type_synonym session = "kv list \<times> ending"

fun sessions :: "nat \<Rightarrow> bool \<Rightarrow> nat \<Rightarrow> string \<Rightarrow> heap \<Rightarrow> session list \<Rightarrow> os \<Rightarrow> (int \<times> os) outcome" where
  "sessions f dbg tid path h [] s = Done (0, s)"
| "sessions f dbg tid path h ((kvs, e) # ss) s =
     obind (logdb_open dbg (Some path) LOGDB_OPEN_CREATE s) (\<lambda>(conn, s).
     case conn of
       None \<Rightarrow> Done (1, s)
     | Some c \<Rightarrow>
         obind (put_all f dbg tid 1 kvs \<lparr>w_os = s, w_heap = h, w_conn = c\<rparr>) (\<lambda>(r, w).
         if r \<noteq> 0 then Done (r, w_os w)
         else case e of
             Closes \<Rightarrow> obind (logdb_close dbg tid 1 w) (\<lambda>(r, w).
               if r \<noteq> 0 then Done (r, w_os w) else sessions f dbg tid path h ss (w_os w))
           | Dies es \<Rightarrow> sessions f dbg tid path h ss (killed (w_os w) es)))"

text \<open>A client that reads every record.\<close>

definition buffer_bytes :: "bool \<Rightarrow> ptr \<Rightarrow> heap \<Rightarrow> (byte list \<times> heap) outcome" where
  "buffer_bytes dbg p h =
     obind (logdb_buffer_length h p) (\<lambda>n.
     obind (logdb_buffer_data dbg p h) (\<lambda>(d, h).
     obind (load_bytes h d (unat n)) (\<lambda>bs. Done (bs, h))))"

fun read_loop :: "nat \<Rightarrow> bool \<Rightarrow> logdb_iter_t \<Rightarrow> kv list \<Rightarrow> world \<Rightarrow> (kv list \<times> logdb_iter_t \<times> world) outcome" where
  "read_loop 0 dbg iter out w = Fault Diverges"
| "read_loop (Suc n) dbg iter out w =
     obind (logdb_iter_next dbg iter w) (\<lambda>(r, iter, w).
     if r = 0 then Done (out, iter, w)
     else obind (logdb_iter_current_key dbg iter w) (\<lambda>(key, iter, w).
     obind (logdb_iter_current_value dbg iter w) (\<lambda>(val, iter, w).
     obind (buffer_bytes dbg key (w_heap w)) (\<lambda>(k, h).
     obind (buffer_bytes dbg val h) (\<lambda>(v, h).
          read_loop n dbg iter (out @ [(k, v)]) (w\<lparr>w_heap := h\<rparr>))))))"

definition read_records :: "nat \<Rightarrow> bool \<Rightarrow> ptr \<Rightarrow> world \<Rightarrow> (kv list option \<times> world) outcome" where
  "read_records fuel dbg conn w =
     obind (logdb_iter_all dbg conn w) (\<lambda>(iter, w).
     case iter of
       None \<Rightarrow> Done (None, w)
     | Some iter \<Rightarrow>
         obind (read_loop fuel dbg iter [] w) (\<lambda>(out, iter, w).
         obind (logdb_iter_free dbg iter w) (\<lambda>w. Done (Some out, w))))"

section \<open>Reading\<close>

lemma added_bytes:
  assumes "adds_buf h0 p k h1" "length k < 4294967296" "bufs h p = bufs h1 p" "\<And>d bs. mem h1 d = Some bs \<Longrightarrow> mem h d = Some bs" "heap_ok h"
  shows "buffer_bytes dbg p h = Done (k, h)"
proof -
  from added_data [OF assms(1)] obtain d where d: "bufs h1 p = Some \<lparr>b_data = d, b_len = of_nat (length k),
      b_disposer = Some C_free, b_orig = 0, b_next = 0, b_refcnt = 1\<rparr>" "mem h1 d = Some k" "d \<noteq> 0" "p \<noteq> 0" by metis
  note b = d(1) [folded assms(3)] assms(4) [OF d(2)]
  have l: "load_bytes h d (length k) = Done k" using b(2) by (simp add: load_bytes_def)
  have "brep h 1 p k" by (rule plain_brep [OF b(1) d(4)]) (use l assms(2) in \<open>simp_all add: unat_small\<close>)
  from logdb_buffer_length_correct [OF assms(5) this] show ?thesis
    using buffer_data_plain [OF b(1) d(4)] l assms(2) by (simp add: buffer_bytes_def unat_small)
qed

lemma read_loop_lists:
  assumes "scannable R w0" "scanning w0 j rs it w" "j \<le> length R" "rs @ concat (drop j R) = todo" "length todo < n"
    and "set todo \<subseteq> set (concat R)" "list_all (\<lambda>(k, v). length k < 65536 \<and> length v < 65536) (concat R)"
  shows "\<exists>it' w'. read_loop n dbg it out w = Done (out @ todo, it', w') \<and>
           \<not> ls_connection (it_lease it') \<and> it_connection it' \<and> holds (w_heap w0) (it_key it') (it_value it') (w_heap w') \<and>
           w_conn w' = w_conn w0 \<and> same_data (w_os w0) (w_os w') \<and> quiet (w_os w')"
  using assms(2-6)
proof (induction todo arbitrary: n j rs it w out)
  case Nil
  then obtain m where m: "n = Suc m" by (cases n) auto
  have st: "it_connection it" "holds (w_heap w0) (it_key it) (it_value it) (w_heap w)"
    using Nil.prems(1) by (simp_all add: scanning_def)
  from next_at_end [OF assms(1) Nil.prems(1,2,3), of dbg] obtain l s where
    "logdb_iter_next dbg it w = Done (0, it\<lparr>it_lease := l\<rparr>, w\<lparr>w_conn := w_conn w0, w_os := s\<rparr>)"
    "\<not> ls_connection l" "same_data (w_os w0) s" "quiet s"
    by blast
  with m st show ?case by simp
next
  case (Cons x todo)
  obtain k v where x: "x = (k, v)" by (cases x)
  obtain m where m: "n = Suc m" "length todo < m" using Cons.prems(4) by (cases n) auto
  have kv: "(k, v) \<in> set (concat R)" using Cons.prems(5) x by simp
  from visit_record [OF assms(1) Cons.prems(1,2) Cons.prems(3) [unfolded x] kv, of dbg] obtain it1 w1 p q it2 w2 it3 w3 h1 j' rs' where
    g: "logdb_iter_next dbg it w = Done (1, it1, w1)" "logdb_iter_current_key dbg it1 w1 = Done (p, it2, w2)"
      "logdb_iter_current_value dbg it2 w2 = Done (q, it3, w3)" "scanning w0 j' rs' it3 w3" "j' \<le> length R"
      "rs' @ concat (drop j' R) = todo" "adds_buf h1 p k (w_heap w2)" "adds_buf (w_heap w2) q v (w_heap w3)"
    by blast
  have "length k < 65536 \<and> length v < 65536" using assms(7) kv by (auto simp: list_all_iff)
  then have len: "length k < 4294967296" "length v < 4294967296" by simp_all
  have ok: "heap_ok (w_heap w3)" using g(8) by (auto simp: adds_buf_def)
  obtain b where "bufs (w_heap w2) p = Some b" using added_data [OF g(7)] by metis
  then have "bufs (w_heap w3) p = bufs (w_heap w2) p" using added_keeps(1) [OF g(8)] by simp
  from added_bytes [OF g(7) len(1) this added_keeps(2) [OF g(8)] ok, of dbg] added_bytes [OF g(8) len(2) refl _ ok, of dbg]
  have step: "read_loop n dbg it out w = read_loop m dbg it3 (out @ [x]) w3"
    using g(1-3) by (simp add: m x)
  from Cons.IH [OF g(4-6) m(2), of "out @ [x]"] Cons.prems(5) show ?case unfolding step by simp
qed

lemma read_records_lists:
  assumes "scannable R w" "list_all (\<lambda>(k, v). length k < 65536 \<and> length v < 65536) (concat R)" "length (concat R) < n" "conn \<noteq> 0"
  shows "\<exists>w'. read_records n dbg conn w = Done (Some (concat R), w') \<and> same_data (w_os w) (w_os w')"
proof -
  obtain it w1 where all: "logdb_iter_all dbg conn w = Done (Some it, w1)" and sc: "scannable R w1"
    and st: "scanning w1 0 [] it w1" and w1: "w_conn w1 = w_conn w" "w_os w1 = w_os w" "w_heap w1 = h_bump (w_heap w)"
    using iter_all_starts [OF assms(1,4)] by blast
  from read_loop_lists [OF sc st _ _ assms(3) _ assms(2), of dbg "[]"] obtain it' w' where
    l: "read_loop n dbg it [] w1 = Done (concat R, it', w')" "\<not> ls_connection (it_lease it')"
      "it_connection it'" "holds (h_bump (w_heap w)) (it_key it') (it_value it') (w_heap w')" "same_data (w_os w) (w_os w')"
    using w1 by auto
  obtain h1 h2 where "logdb_buffer_free (it_key it') (w_heap w') = Done h1" "logdb_buffer_free (it_value it') h1 = Done h2"
    using frees_held [OF l(4)] by blast
  then have "read_records n dbg conn w = Done (Some (concat R), w'\<lparr>w_heap := h2\<rparr>)"
    using all l(1-3) by (simp add: read_records_def logdb_iter_free_def)
  then show ?thesis using l(5) by auto
qed

section \<open>Putting\<close>

text \<open>No choice of the records makes a section exactly full: the length of such a section would be stored as 0
  (\<open>full_section_is_lost\<close>).\<close>

definition never_full :: "kv list \<Rightarrow> bool" where
  "never_full kvs \<longleftrightarrow> (\<forall>M. M \<subseteq># mset kvs \<longrightarrow> (\<Sum>(k, v) \<in># M. length (record_bytes k v)) \<noteq> 65536)"

lemma records_length: "length (records_bytes rs) = (\<Sum>(k, v) \<in># mset rs. length (record_bytes k v))"
  by (induction rs) auto

lemma never_full_room:
  assumes "never_full (concat R @ (k, v) # kvs)"
  shows "list_all (\<lambda>S. length S + (8 + length k + length v) \<noteq> 65536) (map records_bytes R)"
  unfolding list_all_iff
proof (intro ballI)
  fix S assume "S \<in> set (map records_bytes R)"
  then obtain rs where rs: "rs \<in> set R" "S = records_bytes rs" by auto
  then obtain A B where "R = A @ rs # B" by (auto dest: split_list)
  then have "mset (rs @ [(k, v)]) \<subseteq># mset (concat R @ (k, v) # kvs)" by simp
  then have "(\<Sum>(k, v) \<in># mset (rs @ [(k, v)]). length (record_bytes k v)) \<noteq> 65536"
    using assms unfolding never_full_def by blast
  then show "length S + (8 + length k + length v) \<noteq> 65536"
    by (simp add: rs(2) records_length record_length add.commute)
qed

lemma never_full_cong: "mset kvs = mset kvs' \<Longrightarrow> never_full kvs = never_full kvs'"
  by (simp add: never_full_def)

lemma never_full_mono: "never_full kvs' \<Longrightarrow> mset kvs \<subseteq># mset kvs' \<Longrightarrow> never_full kvs"
  unfolding never_full_def using subset_mset.order_trans by blast

lemma never_full_small:
  assumes "length (records_bytes kvs) < 65536"
  shows "never_full kvs"
  unfolding never_full_def
proof (intro allI impI)
  fix M assume "M \<subseteq># mset kvs"
  then obtain N where "mset kvs = M + N" unfolding mset_subset_eq_exists_conv by blast
  then have "(\<Sum>(k, v) \<in># M. length (record_bytes k v)) \<le> (\<Sum>(k, v) \<in># mset kvs. length (record_bytes k v))" by simp
  with assms show "(\<Sum>(k, v) \<in># M. length (record_bytes k v)) \<noteq> 65536" unfolding records_length by simp
qed

lemma put_record_settled:
  assumes set: "settled path tid w" and conn: "conn \<noteq> 0" and R: "sections_of w = map records_bytes R"
    and kv: "8 + length k + length v < 65536" and n: "Suc (length R) < 65536" and room: "never_full (concat R @ (k, v) # kvs)"
    and D: "length (db_file (w_conn w) (w_os w)) \<le> 4295098384"
  shows "\<exists>w' R'. put_all (Suc f) dbg tid conn ((k, v) # kvs) w = put_all (Suc f) dbg tid conn kvs w' \<and> settled path tid w' \<and>
     sections_of w' = map records_bytes R' \<and> mset (concat R') = add_mset (k, v) (mset (concat R)) \<and> length R' \<le> Suc (length R) \<and>
     length (db_file (w_conn w') (w_os w')) \<le> 4295098384 \<and> same_env (w_os w) (w_os w')"
proof -
  have c: "client_ok tid w" using set by (simp add: settled_def)
  then have hw: "heap_ok (w_heap w)" "plenty (w_heap w)" by (simp_all add: client_ok_def)
  have len: "length k < 4294967296" "length v < 4294967296" using kv by simp_all
  obtain key h1 where key: "new_bytes dbg k (w_heap w) = Done (key, h1)" "adds_buf (w_heap w) key k h1" "txns h1 = txns (w_heap w)"
    using new_bytes_ok [OF hw len(1), of dbg] by blast
  have h1: "heap_ok h1" "plenty h1" using key(2) by (auto simp: adds_buf_def)
  obtain val h2 where val: "new_bytes dbg v h1 = Done (val, h2)" "adds_buf h1 val v h2" "txns h2 = txns h1"
    using new_bytes_ok [OF h1 len(2), of dbg] by blast
  have h2: "heap_ok h2" "plenty h2" using val(2) by (auto simp: adds_buf_def)
  let ?w = "w\<lparr>w_heap := h2\<rparr>"
  have c2: "client_ok tid ?w" using c h2 by (simp add: client_ok_def)
  have has: "buffer_has (w_heap ?w) key k" "buffer_has (w_heap ?w) val v"
    using buffer_has_added [OF added_has [OF key(2) len(1)] val(2) h1(1)] added_has [OF val(2) len(2)] by simp_all
  have cnt: "log_count (log_file (w_conn ?w) (w_os ?w)) = length R"
    using arg_cong [OF R, of length] by (simp add: sections_of_def)
  from put_client [OF c2 conn has kv, of f dbg] never_full_room [OF room] n cnt obtain w1 where
    w1: "logdb_put (Suc f) dbg tid conn key val ?w = Done (0, w1)" "client_ok tid w1"
      "extends (sections_of w) (record_bytes k v) (sections_of w1)" "stays w w1" "mem (w_heap w1) = mem h2" "bufs (w_heap w1) = bufs h2"
      "log_count (log_file (w_conn w1) (w_os w1)) \<le> Suc (length R)"
    by (auto simp: R)
  have hw1: "heap_ok (w_heap w1)" "plenty (w_heap w1)" using w1(2) by (simp_all add: client_ok_def)
  obtain g1 where g1: "logdb_buffer_free val (w_heap w1) = Done g1" "mem g1 = mem h1" "bufs g1 = bufs h1" "heap_ok g1" "plenty g1"
    using free_added [OF val(2) w1(5,6)] hw1 by blast
  obtain g2 where g2: "logdb_buffer_free key g1 = Done g2" "heap_ok g2" "plenty g2"
    using free_added [OF key(2) g1(2,3)] g1(4,5) by blast
  let ?w' = "w1\<lparr>w_heap := g2\<rparr>"
  have "client_ok tid ?w'" using w1(2) g2 by (simp add: client_ok_def)
  then have "settled path tid ?w'" using settled_stays [OF set, of ?w'] w1(4) by simp
  moreover obtain R' where R': "sections_of w1 = map records_bytes R'" "mset (concat R') = add_mset (k, v) (mset (concat R))"
    using extends_records [OF w1(3) [unfolded R]] by blast
  moreover have "length R' \<le> Suc (length R)" using w1(7) arg_cong [OF R'(1), of length] by (simp add: sections_of_def)
  moreover have "length (db_file (w_conn w1) (w_os w1)) \<le> 4295098384" using w1(4) D by (auto simp: stays_def same_headers_def)
  moreover have "same_env (w_os w) (w_os w1)" using w1(4) frame_same by (auto simp: stays_def)
  moreover have "put_all (Suc f) dbg tid conn ((k, v) # kvs) w = put_all (Suc f) dbg tid conn kvs ?w'"
    using key(1) val(1) w1(1) g1(1) g2(1) by simp
  ultimately show ?thesis by (intro exI [of _ ?w'] exI [of _ R']) simp
qed

lemma put_all_stores:
  assumes "settled path tid w" "conn \<noteq> 0" "sections_of w = map records_bytes R"
    and "list_all (\<lambda>(k, v). 8 + length k + length v < 65536) kvs" "length R + length kvs < 65536" "never_full (concat R @ kvs)"
    and "length (db_file (w_conn w) (w_os w)) \<le> 4295098384"
  shows "\<exists>w' R'. put_all (Suc f) dbg tid conn kvs w = Done (0, w') \<and> settled path tid w' \<and>
     sections_of w' = map records_bytes R' \<and> mset (concat R') = mset (concat R) + mset kvs \<and> length R' \<le> length R + length kvs \<and>
     length (db_file (w_conn w') (w_os w')) \<le> 4295098384 \<and> same_env (w_os w) (w_os w')"
  using assms
proof (induction kvs arbitrary: w R)
  case Nil
  then show ?case by (intro exI [of _ w] exI [of _ R]) (simp add: same_env_def)
next
  case (Cons kv kvs)
  obtain k v where kv: "kv = (k, v)" by fastforce
  from put_record_settled [OF Cons.prems(1-3), of k v kvs f dbg] Cons.prems(4-7) obtain w1 R1 where
    w1: "put_all (Suc f) dbg tid conn (kv # kvs) w = put_all (Suc f) dbg tid conn kvs w1" "settled path tid w1"
      "sections_of w1 = map records_bytes R1" "mset (concat R1) = add_mset kv (mset (concat R))" "length R1 \<le> Suc (length R)"
      "length (db_file (w_conn w1) (w_os w1)) \<le> 4295098384" "same_env (w_os w) (w_os w1)"
    unfolding kv by auto
  have "never_full (concat R1 @ kvs)"
    using Cons.prems(6) never_full_cong [of "concat R1 @ kvs" "concat R @ kv # kvs"] w1(4) by simp
  with Cons.IH [OF w1(2) Cons.prems(2) w1(3)] Cons.prems(4,5) w1(5,6) obtain w' R' where
    w': "put_all (Suc f) dbg tid conn kvs w1 = Done (0, w')" "settled path tid w'" "sections_of w' = map records_bytes R'"
      "mset (concat R') = mset (concat R1) + mset kvs" "length R' \<le> length R1 + length kvs"
      "length (db_file (w_conn w') (w_os w')) \<le> 4295098384" "same_env (w_os w1) (w_os w')"
    by auto
  then show ?case using w1(1,4,5) same_env_trans [OF w1(7) w'(7)] by (intro exI [of _ w'] exI [of _ R']) simp
qed

section \<open>From one process to the next\<close>

text \<open>The system holds these sections for whoever opens the database next.\<close>

definition stored :: "bool \<Rightarrow> nat \<Rightarrow> string \<Rightarrow> heap \<Rightarrow> kv list list \<Rightarrow> os \<Rightarrow> bool" where
  "stored dbg tid path h R s \<longleftrightarrow>
     (\<exists>c s'. logdb_open dbg (Some path) LOGDB_OPEN_CREATE s = Done (Some c, s') \<and> settled path tid \<lparr>w_os = s', w_heap = h, w_conn = c\<rparr> \<and>
        sections_of \<lparr>w_os = s', w_heap = h, w_conn = c\<rparr> = map records_bytes R \<and> length (db_file c s') \<le> 4295098384 \<and>
        \<not> (dbg \<and> test_env s'))"

lemma closed_stored:
  assumes "settled path tid w" "conn \<noteq> 0" "\<not> (dbg \<and> test_env (w_os w))" "sections_of w = map records_bytes R" "heap_ok h" "plenty h"
  shows "\<exists>w1. logdb_close dbg tid conn w = Done (0, w1) \<and> stored dbg tid path h (strip (\<lambda>r. r = []) R) (w_os w1)"
proof -
  from close_then_open_sections [OF assms(1-3), of LOGDB_OPEN_CREATE] obtain w1 c s' where
    r: "logdb_close dbg tid conn w = Done (0, w1)" "logdb_open dbg (Some path) LOGDB_OPEN_CREATE (w_os w1) = Done (Some c, s')"
      "same_env (w_os w) s'" "settled path tid \<lparr>w_os = s', w_heap = w_heap w, w_conn = c\<rparr>"
      "sections_of \<lparr>w_os = s', w_heap = w_heap w, w_conn = c\<rparr> = strip (\<lambda>S. S = []) (sections_of w)" "length (db_file c s') \<le> 4295098384"
    by blast
  have "settled path tid \<lparr>w_os = s', w_heap = h, w_conn = c\<rparr>" using settled_step [OF r(4) _ assms(5,6), of s'] by simp
  moreover have "sections_of \<lparr>w_os = s', w_heap = h, w_conn = c\<rparr> = map records_bytes (strip (\<lambda>r. r = []) R)"
    using r(5) assms(4) by (simp add: sections_of_def strip_map)
  moreover have "\<not> (dbg \<and> test_env s')" using r(3) assms(3) by (simp add: same_env_def)
  ultimately show ?thesis unfolding stored_def using r(1,2,6) by blast
qed

lemma died_stored:
  assumes "settled path tid w" "length (db_file (w_conn w) (w_os w)) \<le> 4295098384" "\<not> (dbg \<and> test_env (w_os w))"
    and "sections_of w = map records_bytes R" "heap_ok h" "plenty h" "calm (killed (w_os w) es)"
  shows "stored dbg tid path h R (killed (w_os w) es)"
proof -
  have "length (db_file (w_conn w) (w_os w)) < 2 ^ 62" using assms(2) by simp
  then have "on_disk path L_None (killed (w_os w) es) (log_file (w_conn w) (w_os w)) (db_file (w_conn w) (w_os w))"
    unfolding on_disk_killed by (rule settled_on_disk [OF assms(1)])
  from open_alone [OF this assms(7,5,6), of dbg LOGDB_OPEN_CREATE tid] obtain c s' where
    o: "logdb_open dbg (Some path) LOGDB_OPEN_CREATE (killed (w_os w) es) = Done (Some c, s')" "settled path tid \<lparr>w_os = s', w_heap = h, w_conn = c\<rparr>"
      "sections_of \<lparr>w_os = s', w_heap = h, w_conn = c\<rparr> = sections_of w" "same_env (killed (w_os w) es) s'"
      "db_file c s' = db_file (w_conn w) (w_os w)"
    unfolding sections_of_def [of w] by blast
  have "\<not> (dbg \<and> test_env s')" using o(4) assms(3) by (simp add: same_env_def killed_def)
  with o(1-3,5) assms(2,4) show ?thesis unfolding stored_def by metis
qed

fun quiet_ending :: "ending \<Rightarrow> bool" where
  "quiet_ending Closes = True"
| "quiet_ending (Dies es) = list_all (\<lambda>e. e \<noteq> Fail \<and> e \<noteq> Short 0 \<and> e \<noteq> Short 1) es"

lemma calm_killed: "calm s \<Longrightarrow> quiet_ending (Dies es) \<Longrightarrow> calm (killed s es)"
  by (auto simp: calm_def quiet_def killed_def list_all_iff)

lemma sessions_store:
  assumes "stored dbg tid path h R s" "heap_ok h" "plenty h" "list_all (\<lambda>(kvs, e). quiet_ending e) ss"
    and "list_all (\<lambda>(k, v). 8 + length k + length v < 65536) (concat (map fst ss))"
    and "length R + length (concat (map fst ss)) < 65536" "never_full (concat R @ concat (map fst ss))"
  shows "\<exists>s' R'. sessions (Suc f) dbg tid path h ss s = Done (0, s') \<and> stored dbg tid path h R' s' \<and>
     mset (concat R') = mset (concat R) + mset (concat (map fst ss))"
  using assms(1,4-7)
proof (induction ss arbitrary: s R)
  case Nil
  then show ?case by auto
next
  case (Cons x ss)
  obtain kvs e where x: "x = (kvs, e)" by fastforce
  obtain c s1 where o: "logdb_open dbg (Some path) LOGDB_OPEN_CREATE s = Done (Some c, s1)" "settled path tid \<lparr>w_os = s1, w_heap = h, w_conn = c\<rparr>"
     "sections_of \<lparr>w_os = s1, w_heap = h, w_conn = c\<rparr> = map records_bytes R" "length (db_file c s1) \<le> 4295098384" "\<not> (dbg \<and> test_env s1)"
    using Cons.prems(1) unfolding stored_def by blast
  have "mset (concat R @ kvs) \<subseteq># mset (concat R @ concat (map fst (x # ss)))" by (simp add: x)
  then have "never_full (concat R @ kvs)" by (rule never_full_mono [OF Cons.prems(5)])
  with put_all_stores [OF o(2) _ o(3), of 1 kvs f dbg] o(4) Cons.prems(3,4) obtain w R1 where
    w: "put_all (Suc f) dbg tid 1 kvs \<lparr>w_os = s1, w_heap = h, w_conn = c\<rparr> = Done (0, w)" "settled path tid w" "sections_of w = map records_bytes R1"
      "mset (concat R1) = mset (concat R) + mset kvs" "length R1 \<le> length R + length kvs"
      "length (db_file (w_conn w) (w_os w)) \<le> 4295098384" "same_env s1 (w_os w)"
    by (auto simp: x)
  have env: "\<not> (dbg \<and> test_env (w_os w))" "calm (w_os w)"
    using w(2,7) o(5) by (simp_all add: same_env_def settled_def client_ok_def)
  obtain s2 R2 where s2: "sessions (Suc f) dbg tid path h (x # ss) s = sessions (Suc f) dbg tid path h ss s2"
    "stored dbg tid path h R2 s2" "concat R2 = concat R1" "length R2 \<le> length R1"
  proof (cases e)
    case Closes
    obtain w1 where "logdb_close dbg tid 1 w = Done (0, w1)" "stored dbg tid path h (strip (\<lambda>r. r = []) R1) (w_os w1)"
      using closed_stored [OF w(2) _ env(1) w(3) assms(2,3), of 1] by auto
    then show ?thesis using that [of "w_os w1" "strip (\<lambda>r. r = []) R1"] o(1) w(1) Closes
      by (simp add: x concat_strip length_strip)
  next
    case (Dies es)
    have "quiet_ending (Dies es)" using Cons.prems(2) Dies by (simp add: x)
    from died_stored [OF w(2,6) env(1) w(3) assms(2,3) calm_killed [OF env(2) this]] show ?thesis
      using that [of "killed (w_os w) es" R1] o(1) w(1) Dies by (simp add: x)
  qed
  have m: "mset (concat R2 @ concat (map fst ss)) = mset (concat R @ concat (map fst (x # ss)))" using s2(3) w(4) by (simp add: x)
  have "never_full (concat R2 @ concat (map fst ss))" using Cons.prems(5) never_full_cong [OF m] by simp
  with Cons.IH [OF s2(2)] Cons.prems(2-4) s2(4) w(5) obtain s' R' where
    "sessions (Suc f) dbg tid path h ss s2 = Done (0, s')" "stored dbg tid path h R' s'"
      "mset (concat R') = mset (concat R2) + mset (concat (map fst ss))"
    by (auto simp: x)
  then show ?case using s2(1) m by (intro exI [of _ s'] exI [of _ R']) simp
qed

section \<open>Property\<close>



end
