(* ===== verification/SystemCheck.thy ===== *)
theory SystemCheck
  imports IO
begin

text \<open>
  \<^verbatim>\<open>src/system_checks/check_pwrite_O_APPEND.c\<close>: the program that the build runs to find out whether
  \<open>pwrite\<close> ignores its offset on a file opened with \<open>O_APPEND\<close>, the case in which entries of the log get
  lost (\<open>linux_pwrite_appends_entry\<close> in theory Log).
\<close>

section \<open>Library functions\<close>

text \<open>\<open>open\<close> with \<open>O_TRUNC\<close>: a file that is there is emptied.\<close>

definition sys_open_trunc :: "string \<Rightarrow> oflags \<Rightarrow> os \<Rightarrow> int \<times> os" where
  "sys_open_trunc path fl s =
     (case sys_open path fl s of (fd, s) \<Rightarrow>
      case fds s fd of None \<Rightarrow> (fd, s) | Some f \<Rightarrow> (fd, if fd = -1 then s else set_file s (f_ino f) []))"

text \<open>\<open>strncmp\<close> on arrays that have at least as many bytes as are compared.\<close>

fun strncmp :: "byte list \<Rightarrow> byte list \<Rightarrow> nat \<Rightarrow> int" where
  "strncmp (x # xs) (y # ys) (Suc n) = (if x \<noteq> y then uint x - uint y else if x = 0 then 0 else strncmp xs ys n)"
| "strncmp _ _ _ = 0"

lemma strncmp_append: "n \<le> length xs \<Longrightarrow> strncmp (xs @ zs) ys n = strncmp xs ys n"
  by (induction xs ys n rule: strncmp.induct) auto

section \<open>The program\<close>

definition test_dat :: string where
  "test_dat = ''test.dat''"

definition ten_bs :: "byte list" where
  "ten_bs = replicate 10 98"

definition five_as :: "byte list" where
  "five_as = replicate 5 97"

text \<open>\<open>junk\<close> is what the array \<open>result\<close> holds before it is read into.\<close>

definition check_main :: "byte list \<Rightarrow> os \<Rightarrow> int \<times> os" where
  "check_main junk s =
     (case sys_open_trunc test_dat \<lparr>o_creat = True, o_excl = False, o_append = True\<rparr> s of (fd, s) \<Rightarrow>
      if fd = -1 then (1, s)
      else case sys_write fd ten_bs s of (r, s) \<Rightarrow>
      if r = -1 then (1, s)
      else case sys_pwrite fd five_as 0 s of (r, s) \<Rightarrow>
      if r = -1 then (1, s)
      else case sys_fsync fd s of (_, s) \<Rightarrow>
      case sys_pread fd 10 0 s of (r, bytes, s) \<Rightarrow>
      if r = -1 then (2, s)
      else let result = bytes @ drop (length bytes) junk;
               ev = strncmp result (five_as @ replicate 5 98) 10
           in case (if ev = 0 then sys_unlink test_dat s else (0, s)) of (_, s) \<Rightarrow>
              (if ev = 0 then 0 else 3, s))"

section \<open>Its answer\<close>

text \<open>The file after the two writes.\<close>

definition probe_file :: "bool \<Rightarrow> byte list" where
  "probe_file appends = (if appends then ten_bs @ five_as else five_as @ replicate 5 98)"

lemma probe_writes:
  "write_at (write_at [] 0 ten_bs) (if appends then length (write_at [] 0 ten_bs) else 0) five_as = probe_file appends"
  by (cases appends) (simp_all add: probe_file_def write_at_def ten_bs_def five_as_def numeral_eq_Suc)

lemma probe_compare:
  "strncmp (seg (probe_file appends) 0 10) (five_as @ replicate 5 98) 10 = 0 \<longleftrightarrow> \<not> appends"
proof -
  have "strncmp (seg (probe_file True) 0 10) (five_as @ replicate 5 98) 10 \<noteq> 0"
    "strncmp (seg (probe_file False) 0 10) (five_as @ replicate 5 98) 10 = 0"
    by code_simp+
  then show ?thesis by (cases appends) simp_all
qed

lemma open_trunc_full:
  assumes "sched s = []" "0 \<le> next_fd s"
  shows "\<exists>s1 i. sys_open_trunc path \<lparr>o_creat = True, o_excl = False, o_append = True\<rparr> s = (next_fd s, s1) \<and>
           sched s1 = [] \<and> fds s1 (next_fd s) = Some \<lparr>f_ino = i, f_pos = 0, f_append = True\<rparr> \<and> inode s1 i = [] \<and>
           dir s1 = (dir s)(path \<mapsto> i) \<and> pwrite_appends s1 = pwrite_appends s"
  using assms
  by (cases "dir s path")
     (auto simp: sys_open_trunc_def sys_open_def pop_eq Let_def event_def popped_def fun_upd_idem)

text \<open>C37: On a system on which no call fails or transfers less than asked for, the program returns 0
  exactly if \<open>pwrite\<close> honours its offset on a file opened with \<open>O_APPEND\<close>, whatever a file of that name held
  and whatever is on the stack; it then leaves no file behind, and returns 3 and leaves the file with the data
  appended otherwise.\<close>

theorem probe_detects_append:
  assumes "sched s = []" "0 \<le> next_fd s"
  shows "\<exists>s' i. check_main junk s = (if pwrite_appends s then 3 else 0, s') \<and>
           dir s' = (if pwrite_appends s then (dir s)(test_dat \<mapsto> i) else (dir s)(test_dat := None)) \<and>
           inode s' i = probe_file (pwrite_appends s)"
proof -
  let ?fl = "\<lparr>o_creat = True, o_excl = False, o_append = True\<rparr>" and ?fd = "next_fd s"
  obtain s1 i where o: "sys_open_trunc test_dat ?fl s = (?fd, s1)" "sched s1 = []"
    "fds s1 ?fd = Some \<lparr>f_ino = i, f_pos = 0, f_append = True\<rparr>" "inode s1 i = []" "dir s1 = (dir s)(test_dat \<mapsto> i)"
    "pwrite_appends s1 = pwrite_appends s"
    using open_trunc_full [OF assms, of test_dat] by blast
  obtain s2 where w: "sys_write ?fd ten_bs s1 = (10, s2)" "sched s2 = []" "inode s2 i = write_at [] 0 ten_bs"
    "fds s2 ?fd = Some \<lparr>f_ino = i, f_pos = 10, f_append = True\<rparr>" "dir s2 = dir s1" "pwrite_appends s2 = pwrite_appends s1"
    using o(2-4) by (simp add: sys_write_def pop_eq Let_def event_def popped_def wr_chunk_def fds_set_pos ten_bs_def)
  obtain s3 where p: "sys_pwrite ?fd five_as 0 s2 = (5, s3)" "sched s3 = []" "inode s3 i = probe_file (pwrite_appends s)"
    "fds s3 ?fd = fds s2 ?fd" "dir s3 = dir s2"
  proof
    show "sys_pwrite ?fd five_as 0 s2 = (5, set_file (popped s2) i (probe_file (pwrite_appends s)))"
      using w o(6) probe_writes [of "pwrite_appends s"]
      by (auto simp: sys_pwrite_def pop_eq Let_def event_def wr_chunk_def five_as_def)
  qed (use w in simp_all)
  have f: "sys_fsync ?fd s3 = (0, popped s3)" using p(2,4) w(4) by (simp add: sys_fsync_def pop_eq event_def)
  have len: "length (seg (probe_file (pwrite_appends s)) 0 10) = 10"
    by (simp add: seg_def probe_file_def ten_bs_def five_as_def)
  have r: "sys_pread ?fd 10 0 (popped s3) = (10, seg (probe_file (pwrite_appends s)) 0 10, popped (popped s3))"
    using p(2-4) w(4) len by (simp add: sys_pread_def pop_eq Let_def event_def rd_chunk_def)
  define s4 where "s4 = popped (popped s3)"
  have s4: "sched s4 = []" "dir s4 = (dir s)(test_dat \<mapsto> i)" "inode s4 i = probe_file (pwrite_appends s)"
    using p w(5) o(5) by (simp_all add: s4_def)
  have u: "sys_unlink test_dat s4 = (0, (popped s4)\<lparr>dir := (dir s)(test_dat := None)\<rparr>)"
    using s4(1,2) by (simp add: sys_unlink_def pop_eq event_def Let_def)
  note cmp = strncmp_append [of 10 "seg (probe_file (pwrite_appends s)) 0 10"]
  show ?thesis
  proof (cases "pwrite_appends s")
    case True
    have "check_main junk s = (3, s4)"
      using o(1) w(1) p(1) f r assms(2) probe_compare [of True] True len cmp by (simp add: check_main_def Let_def s4_def)
    with s4 True show ?thesis by auto
  next
    case False
    have "check_main junk s = (0, (popped s4)\<lparr>dir := (dir s)(test_dat := None)\<rparr>)"
      using o(1) w(1) p(1) f r assms(2) probe_compare [of False] False len cmp u by (simp add: check_main_def Let_def s4_def)
    with s4 False show ?thesis by auto
  qed
qed

theorem probe_detects_append_witness:
  "\<exists>s'. check_main [] ((one_file [1, 2] False [])\<lparr>pwrite_appends := True\<rparr>) = (3, s')"
  using probe_detects_append [of "(one_file [1, 2] False [])\<lparr>pwrite_appends := True\<rparr>" "[]"]
  by (auto simp: one_file_def)

end
