(* ===== verification/Skip.thy ===== *)
theory Skip
  imports Dump
begin

text \<open>
  Iterating with \<open>logdb_iter_next\<close> of \<^verbatim>\<open>src/logdb_iter.c\<close> and without reading keys and values: the records of a
  section are skipped as they should, but the first unread record at the end of a section ends the
  iteration.
\<close>

section \<open>Skipping a record\<close>

lemma lease_at_seek:
  assumes "lease_at D i (xs @ ys) l"
  shows "logdb_lease_seek dbg l (int (length xs)) = (ls_offset l + int (length xs), advance l (int (length xs)))"
    and "ls_offset l + int (length xs) \<noteq> -1"
proof -
  have "0 \<le> ls_offset l" "length xs \<le> unat (ls_len l)" using assms by (simp_all add: lease_at_def lease_usable_def)
  moreover then have "int (length xs) \<le> uint (ls_len l)" by (simp only: uint_nat of_nat_le_iff)
  ultimately show "logdb_lease_seek dbg l (int (length xs)) = (ls_offset l + int (length xs), advance l (int (length xs)))"
    "ls_offset l + int (length xs) \<noteq> -1"
    by (auto simp: logdb_lease_seek_def)
qed

lemma uint_length: "length xs \<le> unat (n :: 32 word) \<Longrightarrow> uint (of_nat (length xs) :: 32 word) = int (length xs)"
proof -
  assume le: "length xs \<le> unat n"
  have "unat n < 4294967296" using unsigned_less [of n] by simp
  with le have "length xs < 4294967296" by (rule le_less_trans)
  then show ?thesis unfolding uint_nat by (simp only: unat_small)
qed

lemma skip_record:
  assumes at: "at_record w0 j k v rs it w" and long: "8 \<le> length k + length v \<or> rs \<noteq> []"
  shows "\<exists>l. iter_advance dbg it w = Done (True, it\<lparr>it_lease := l\<rparr>, w) \<and>
             lease_at (db_file (w_conn w0) (w_os w0)) (j - 1) (records_bytes rs) l"
proof -
  let ?D = "db_file (w_conn w0) (w_os w0)" and ?l = "it_lease it"
  have l: "lease_at ?D (j - 1) (k @ v @ records_bytes rs) ?l" and it: "it_key it = 0" "it_value it = 0"
    "it_record it = \<lparr>keylen = of_nat (length k), valuelen = of_nat (length v)\<rparr>"
    using at by (simp_all add: at_record_def)
  have len: "unat (ls_len ?l) = length k + length v + length (records_bytes rs)" using l by (simp add: lease_at_def)
  have "8 \<le> unat (ls_len ?l)" using long len by (cases rs) (auto simp: record_length)
  then have far: "\<not> ls_len ?l < of_nat sizeof_data_header" by (simp add: size_defs word_less_nat_alt)
  let ?l1 = "advance ?l (int (length k))"
  have l1: "lease_at ?D (j - 1) (v @ records_bytes rs) ?l1" by (rule lease_at_split(2) [OF l])
  have k: "uint (of_nat (length k) :: 32 word) = int (length k)" "uint (of_nat (length v) :: 32 word) = int (length v)"
    using uint_length [of k "ls_len ?l"] uint_length [of v "ls_len ?l"] by (simp_all add: len)
  show ?thesis
    using far it k lease_at_seek [OF l] lease_at_seek [OF l1] lease_at_split(2) [OF l1]
    by (intro exI [of _ "advance ?l1 (int (length v))"]) (simp add: iter_advance_def)
qed

lemma at_record_verify:
  assumes "at_record w0 j k v rs it w" "scannable R w0"
  shows "verify_iter dbg it w = Done True"
  using assms by (intro verify_iter_ok) (simp_all add: at_record_def scannable_def)

lemma skip_to_next:
  assumes "scannable R w0" "at_record w0 j k v ((k', v') # rs) it w"
  shows "\<exists>it' w'. logdb_iter_next dbg it w = Done (1, it', w') \<and> at_record w0 j k' v' rs it' w'"
proof -
  obtain l where l: "iter_advance dbg it w = Done (True, it\<lparr>it_lease := l\<rparr>, w)"
    "lease_at (db_file (w_conn w0) (w_os w0)) (j - 1) (records_bytes ((k', v') # rs)) l"
    using skip_record [OF assms(2), of dbg] by auto
  have w: "it_connection (it\<lparr>it_lease := l\<rparr>)" "holds (w_heap w0) (it_key (it\<lparr>it_lease := l\<rparr>)) (it_value (it\<lparr>it_lease := l\<rparr>)) (w_heap w)"
    "same_data (w_os w0) (w_os w)" "quiet (w_os w)" "0 < j" "w_conn w = (w_conn w0)\<lparr>c_readers := c_readers (w_conn w0) + 1\<rparr>"
    using assms(2) by (simp_all add: at_record_def holds_def)
  show ?thesis
    by (rule next_reads_header [OF assms(1) l(1) at_record_verify [OF assms(2,1)] w]) (use l(2) in simp)
qed

lemma skip_last:
  assumes "scannable R w0" "at_record w0 j k v [] it w" "8 \<le> length k + length v"
  shows "\<exists>it' w'. logdb_iter_next dbg it w = Done (0, it', w')"
proof -
  obtain l where l: "iter_advance dbg it w = Done (True, it\<lparr>it_lease := l\<rparr>, w)"
    "lease_at (db_file (w_conn w0) (w_os w0)) (j - 1) [] l"
    using skip_record [OF assms(2), of dbg] assms(3) by auto
  have "ls_len l = 0" using l(2) by (simp add: lease_at_def unat_eq_0)
  then have "logdb_lease_read l (w_conn w) (of_nat sizeof_data_header) (w_os w) = Done (8, [], l, w_os w)"
    by (simp add: logdb_lease_read_def size_defs)
  moreover have "it_key it = 0" "it_value it = 0" using assms(2) by (simp_all add: at_record_def)
  ultimately show ?thesis
    using l(1) at_record_verify [OF assms(2,1), of dbg] by (simp add: logdb_iter_next_def Let_def)
qed

section \<open>Counting the records\<close>

text \<open>A client that counts: it calls \<open>logdb_iter_next\<close> until it returns 0.\<close>

fun count_loop :: "nat \<Rightarrow> bool \<Rightarrow> logdb_iter_t \<Rightarrow> world \<Rightarrow> (nat \<times> logdb_iter_t \<times> world) outcome" where
  "count_loop 0 dbg iter w = Fault Diverges"
| "count_loop (Suc n) dbg iter w =
     obind (logdb_iter_next dbg iter w) (\<lambda>(r, iter, w).
     if r = 0 then Done (0, iter, w)
     else obind (count_loop n dbg iter w) (\<lambda>(c, iter, w). Done (c + 1, iter, w)))"

lemma count_section:
  assumes "scannable R w0" "at_record w0 j k v rs it w" "last ((k, v) # rs) = (k', v')" "8 \<le> length k' + length v'"
    and "length rs < n"
  shows "\<exists>it' w'. count_loop n dbg it w = Done (length rs, it', w')"
  using assms(2-5)
proof (induction rs arbitrary: k v it w n)
  case Nil
  then obtain m where "n = Suc m" by (cases n) auto
  with skip_last [OF assms(1) Nil.prems(1), of dbg] Nil.prems(2,3) show ?case by auto
next
  case (Cons x rs)
  obtain k1 v1 where x: "x = (k1, v1)" by fastforce
  obtain m where m: "n = Suc m" "length rs < m" using Cons.prems(4) by (cases n) auto
  obtain it' w' where s: "logdb_iter_next dbg it w = Done (1, it', w')" "at_record w0 j k1 v1 rs it' w'"
    using skip_to_next [OF assms(1) Cons.prems(1) [unfolded x], of dbg] by blast
  have "last ((k1, v1) # rs) = (k', v')" using Cons.prems(2) x by simp
  from Cons.IH [OF s(2) this Cons.prems(3) m(2)] show ?case using s(1) m(1) by auto
qed

section \<open>Property\<close>

text \<open>C36: A client that goes through a database without reading the keys and values sees the records of the
  first section and no others, as soon as the last record of that section has 8 bytes of key and value or
  more: \<open>logdb_iter_next\<close> skips it, tries to read one more header from the lease that is used up, and
  returns 0 although there are later sections. A client that reads every record sees them all
  (\<open>dump_prints_every_record\<close>).\<close>

theorem skipping_loses_sections:
  assumes "scannable ((r # rs) # R) w" "conn \<noteq> 0" "last (r # rs) = (k', v')" "8 \<le> length k' + length v'"
    and "Suc (length rs) < n"
  shows "\<exists>it1 w1 it2 w2. logdb_iter_all dbg conn w = Done (Some it1, w1) \<and>
           count_loop n dbg it1 w1 = Done (length (r # rs), it2, w2)"
proof -
  obtain k v where r: "r = (k, v)" by fastforce
  obtain it w1 where all: "logdb_iter_all dbg conn w = Done (Some it, w1)" and sc: "scannable ((r # rs) # R) w1"
    and st: "scanning w1 0 [] it w1"
    using iter_all_starts [OF assms(1,2)] by blast
  obtain m where m: "n = Suc m" "length rs < m" using assms(5) by (cases n) auto
  have "find (\<lambda>i. ((r # rs) # R) ! i \<noteq> []) [0..<length ((r # rs) # R)] = Some 0"
    by (simp add: upt_conv_Cons del: upt_Suc)
  from next_in_later_section [OF sc st _ this, of k v rs dbg] r obtain it' w' where
    n: "logdb_iter_next dbg it w1 = Done (1, it', w')" "at_record w1 1 k v rs it' w'" by auto
  with count_section [OF sc n(2) _ assms(4) m(2), of dbg] assms(3) r obtain it2 w2 where
    "count_loop m dbg it' w' = Done (length rs, it2, w2)" by auto
  with n(1) have "count_loop n dbg it w1 = Done (length (r # rs), it2, w2)" by (simp add: m(1))
  with all show ?thesis by blast
qed

text \<open>A database of two sections with one record of 16 bytes each.\<close>

definition two_record :: "byte list \<times> byte list" where
  "two_record = ([107, 108, 109, 0], [7, 0, 0, 0])"

definition two_log :: "byte list" where
  "two_log = logdb_log_header @ [16, 0, 16, 0]"

definition two_db :: "byte list" where
  "two_db = logdb_header @ records_bytes [two_record] @ replicate 65520 0 @ records_bytes [two_record]"

lemma two_world_scannable: "scannable [[two_record], [two_record]] (ex_world two_db two_log [])"
proof -
  have cnt: "log_count two_log = 2" by (simp add: log_count_def size_defs two_log_def)
  have e: "entry_at two_log 0 = 16" "entry_at two_log (Suc 0) = 16" by code_simp+
  have r: "length (records_bytes [two_record]) = 16" by code_simp
  have h: "length logdb_header = 6" by code_simp
  have len: "length two_db = 65558" by (simp add: two_db_def r h)
  have s0: "seg two_db 6 16 = records_bytes [two_record]"
    unfolding two_db_def seg_def by (simp add: r h)
  define P where "P = logdb_header @ records_bytes [two_record] @ replicate 65520 0"
  have P: "two_db = P @ records_bytes [two_record]" "length P = 65542" by (simp_all add: P_def two_db_def r h)
  have s1: "seg two_db 65542 16 = records_bytes [two_record]"
    using seg_append_right [of P "records_bytes [two_record]" 16] take_all [of "records_bytes [two_record]" 16]
    unfolding P r by simp
  have up: "[0..<2] = [0, 1 :: nat]" by (simp add: upt_rec)
  have "db_sections two_log two_db = map records_bytes [[two_record], [two_record]]"
    using s0 s1 by (simp add: db_sections_def cnt section_of_def e up del: records_bytes_simps)
  moreover have "data_present two_log two_db"
    by (auto simp: data_present_iff cnt less_2_cases_iff e len)
  moreover have "6 \<le> length two_log" "even (length two_log)" by (simp_all add: two_log_def)
  moreover have "list_all (list_all (\<lambda>(k, v). k \<noteq> [] \<and> v \<noteq> [])) [[two_record], [two_record]]" by (simp add: two_record_def)
  ultimately show ?thesis
    using ex_conn_ok [of two_log two_db "[]"] heap_ok_two cnt
    by (simp add: scannable_def sections_of_def quiet_def)
       (simp add: ex_conn_def two_buffers_eq plenty_def)
qed

theorem skipping_loses_sections_witness:
  "\<exists>it1 w1 it2 w2. logdb_iter_all True 1 (ex_world two_db two_log []) = Done (Some it1, w1) \<and>
     count_loop 3 True it1 w1 = Done (1, it2, w2)"
  using skipping_loses_sections [OF two_world_scannable, of 1 "[107, 108, 109, 0]" "[7, 0, 0, 0]" 3 True]
  by (simp add: two_record_def)

end
