(* ===== verification/Heaps.thy ===== *)
theory Heaps
  imports Buffer
begin

text \<open>
  \<^verbatim>\<open>src/logdb_buffer.c\<close>: whatever a call does with the buffers, it leaves a heap in which every cell that is in
  use lies between the null pointer and the last address that has been handed out.
\<close>

section \<open>Heaps that stay well-formed\<close>

text \<open>From one heap to a later one; a computation that returns a value and a heap; and how to compose them.\<close>

definition keeps :: "heap \<Rightarrow> heap \<Rightarrow> bool" where
  "keeps h h' \<longleftrightarrow> (heap_ok h \<longrightarrow> heap_ok h') \<and> (plenty h \<longrightarrow> plenty h') \<and> brk h \<le> brk h'"

definition kept :: "('a \<times> heap) outcome \<Rightarrow> heap \<Rightarrow> bool" where
  "kept m h \<longleftrightarrow> (\<forall>r h'. m = Done (r, h') \<longrightarrow> keeps h h')"

lemma keeps_refl [simp]: "keeps h h" by (simp add: keeps_def)
lemma keeps_trans: "keeps a b \<Longrightarrow> keeps b c \<Longrightarrow> keeps a c" by (simp add: keeps_def)

lemma kept_done: "keeps h h' \<Longrightarrow> kept (Done (r, h')) h" by (simp add: kept_def)
lemma kept_fault: "kept (Fault f) h" by (simp add: kept_def)
lemma kept_bind: "kept m h \<Longrightarrow> (\<And>r h'. m = Done (r, h') \<Longrightarrow> keeps h h' \<Longrightarrow> kept (f (r, h')) h) \<Longrightarrow> kept (obind m f) h"
  by (cases m) (auto simp: kept_def)
lemma kept_bind_value: "(\<And>v. m = Done v \<Longrightarrow> kept (f v) h) \<Longrightarrow> kept (obind m f) h"
  by (cases m) (auto simp: kept_def)
lemma kept_bind_heap: "(\<And>h'. m = Done h' \<Longrightarrow> keeps h h') \<Longrightarrow> (\<And>h'. m = Done h' \<Longrightarrow> keeps h h' \<Longrightarrow> kept (f h') h) \<Longrightarrow> kept (obind m f) h"
  by (cases m) (auto simp: kept_def)

lemma kept_from: "kept m h \<Longrightarrow> keeps g h \<Longrightarrow> kept m g"
  using keeps_trans by (auto simp: kept_def)

lemma heap_ok_grow: "heap_ok h \<Longrightarrow> heap_ok (h\<lparr>brk := Suc (brk h), oom := l\<rparr>)" "heap_ok h \<Longrightarrow> heap_ok (h\<lparr>brk := Suc (brk h)\<rparr>)"
  "heap_ok h \<Longrightarrow> heap_ok (h\<lparr>oom := l\<rparr>)"
  by (fastforce simp: heap_ok_def)+

lemma kept_bind2:
  assumes "kept m g" "keeps h g" "\<And>r h'. m = Done (r, h') \<Longrightarrow> keeps g h' \<Longrightarrow> keeps h h' \<Longrightarrow> kept (f (r, h')) h"
  shows "kept (obind m f) h"
  using assms keeps_trans by (cases m) (auto simp: kept_def)

lemmas kept_get = kept_bind_value [where m = "get_buf g p" for g p]
lemmas kept_len = kept_bind_value [where m = "logdb_buffer_length g p" for g p]
lemmas kept_load = kept_bind_value [where m = "load_bytes g p n" for g p n]

lemma keeps_malloc: "h_malloc h = (a, h') \<Longrightarrow> keeps h h' \<and> a \<le> brk h'"
  by (auto simp: h_malloc_def keeps_def plenty_def heap_ok_grow split: list.splits if_splits)

lemma keeps_put: "0 < p \<Longrightarrow> p \<le> brk h \<Longrightarrow> keeps h (put_buf h p b)"
  using heap_ok_put by (auto simp: keeps_def)

lemma keeps_put_live: "bufs h p = Some b \<Longrightarrow> keeps h (put_buf h p b')"
  unfolding keeps_def using heap_ok_bound heap_ok_put by (metis plenty_put put_buf_simps(4) le_refl)

lemma keeps_mem: "0 < a \<Longrightarrow> a \<le> brk h \<Longrightarrow> keeps h (h\<lparr>mem := (mem h)(a := x)\<rparr>)"
  by (auto simp: keeps_def heap_ok_def plenty_def)

lemma keeps_drop: "keeps h (h\<lparr>mem := (mem h)(a := None)\<rparr>)" "keeps h (h\<lparr>bufs := (bufs h)(a := None)\<rparr>)"
  by (auto simp: keeps_def heap_ok_def plenty_def)

lemma keeps_brk: "keeps h h' \<Longrightarrow> a \<le> brk h \<Longrightarrow> a \<le> brk h'" by (simp add: keeps_def)

lemma get_buf_Done: "get_buf h p = Done b \<longleftrightarrow> bufs h p = Some b"
  by (auto simp: get_buf_def split: option.splits)

lemma new_direct_keeps: "logdb_buffer_new_direct dbg d n f h = (p, h') \<Longrightarrow> keeps h h'"
proof -
  assume e: "logdb_buffer_new_direct dbg d n f h = (p, h')"
  obtain a g where a: "h_malloc h = (a, g)" by fastforce
  have "keeps h (put_buf g a b)" if "a \<noteq> 0" for b
    using keeps_trans [OF _ keeps_put] keeps_malloc [OF a] that by blast
  with e keeps_malloc [OF a] show ?thesis
    by (auto simp: logdb_buffer_new_direct_def a split: if_splits)
qed

lemma new_copy_kept: "kept (logdb_buffer_new_copy dbg d n h) h"
proof -
  obtain a g where a: "h_malloc h = (a, g)" by fastforce
  have k: "keeps h g" "a \<le> brk g" using keeps_malloc [OF a] by simp_all
  have new: "keeps h h' \<and> keeps h (h'\<lparr>mem := (mem h')(a := None)\<rparr>)"
    if "a \<noteq> 0" "logdb_buffer_new_direct dbg' a n f (g\<lparr>mem := (mem g)(a := Some bs)\<rparr>) = (r, h')" for dbg' f bs r h'
    using keeps_trans [OF keeps_trans [OF k(1) keeps_mem [of a g "Some bs"]] new_direct_keeps [OF that(2)]] that(1) k(2)
      keeps_trans [OF _ keeps_drop(1)] by blast
  show ?thesis unfolding logdb_buffer_new_copy_def a prod.case Let_def
    using k(1) new by (auto intro!: kept_done kept_bind_value split: prod.split)
qed

lemma buffer_copy_kept: "kept (logdb_buffer_copy dbg p h) h"
  unfolding logdb_buffer_copy_def
proof (rule kept_bind_value)
  fix b assume "get_buf h p = Done b"
  obtain q g where q: "logdb_buffer_new_direct dbg (b_data b) (b_len b) None h = (q, g)" by fastforce
  have k: "keeps h g" by (rule new_direct_keeps [OF q])
  have "kept (obind (logdb_buffer_retain p g) (\<lambda>h. obind (get_buf h q) (\<lambda>r. Done (q, put_buf h q (r\<lparr>b_orig := p\<rparr>))))) h"
  proof (rule kept_bind_heap)
    fix g1 assume "logdb_buffer_retain p g = Done g1"
    then have "keeps g g1" using keeps_put_live by (auto simp: logdb_buffer_retain_def obind_eq_Done get_buf_Done)
    then show k1: "keeps h g1" by (rule keeps_trans [OF k])
    then show "kept (obind (get_buf g1 q) (\<lambda>r. Done (q, put_buf g1 q (r\<lparr>b_orig := p\<rparr>)))) h"
      using keeps_trans [OF _ keeps_put_live] by (auto intro!: kept_bind_value kept_done simp: get_buf_Done)
  qed
  then show "kept (case logdb_buffer_new_direct dbg (b_data b) (b_len b) None h of (result, h) \<Rightarrow>
         if result = 0 then Done (0, h)
         else obind (logdb_buffer_retain p h) (\<lambda>h. obind (get_buf h result) (\<lambda>r. Done (result, put_buf h result (r\<lparr>b_orig := p\<rparr>))))) h"
    unfolding q prod.case using k by (auto intro: kept_done)
qed

lemma append_kept: "kept (logdb_buffer_append dbg p q h) h"
proof -
  have "kept (obind (logdb_buffer_copy dbg q h) (\<lambda>(c, h). obind (get_buf h l) (\<lambda>b. Done (p, put_buf h l (b\<lparr>b_next := c\<rparr>))))) h" for l
    using keeps_trans [OF _ keeps_put_live]
    by (intro kept_bind [OF buffer_copy_kept]) (auto intro!: kept_bind_value kept_done simp: get_buf_Done)
  then show ?thesis unfolding logdb_buffer_append_def
    by (auto intro!: kept_done kept_bind_value split: option.split)
qed

lemma dispose_keeps: "dispose d p h = Done h' \<Longrightarrow> keeps h h' \<and> bufs h' = bufs h"
  by (auto simp: dispose_def keeps_def heap_ok_def plenty_def split: option.splits if_splits)

lemma data_kept: "kept (buffer_data n dbg p h) h \<and> kept (copy_chain n dbg cur acc h) h"
proof (induction n arbitrary: dbg p h cur acc)
  case (Suc n)
  note IH = Suc.IH [THEN conjunct1] Suc.IH [THEN conjunct2]
  obtain a g where a: "h_malloc h = (a, g)" by fastforce
  have k: "keeps h g" "a \<le> brk g" using keeps_malloc [OF a] by simp_all
  have new: "kept (Done (a, put_buf (h3\<lparr>mem := (mem h3)(a := x)\<rparr>) p b)) h"
    if "keeps h h3" "a \<le> brk h3" "a \<noteq> 0" "bufs h3 p = Some b'" for h3 x b b'
    using keeps_trans [OF keeps_trans [OF that(1) keeps_mem [of a h3 x]] keeps_put_live [of _ p b' b]] that(2-4)
    by (intro kept_done) simp
  have fin: "kept (obind (dispose (b_disposer b) (b_data b) h2) (\<lambda>h. Done (a,
      put_buf (h\<lparr>mem := (mem h)(a := Some bs)\<rparr>) p (b\<lparr>b_data := a, b_len := l, b_next := 0, b_disposer := Some C_free\<rparr>)))) h"
    if "keeps g h2" "a \<noteq> 0" "bufs h2 p = Some b" for h2 b bs l
  proof (rule kept_bind_heap)
    fix h3 assume "dispose (b_disposer b) (b_data b) h2 = Done h3"
    then have d: "keeps h2 h3" "bufs h3 p = Some b" using dispose_keeps that(3) by auto
    show k3: "keeps h h3" using keeps_trans [OF k(1)] keeps_trans [OF that(1) d(1)] by blast
    have "a \<le> brk h3" using keeps_brk [OF d(1) keeps_brk [OF that(1) k(2)]] .
    from new [OF k3 this that(2) d(2)] show "kept (Done (a,
      put_buf (h3\<lparr>mem := (mem h3)(a := Some bs)\<rparr>) p (b\<lparr>b_data := a, b_len := l, b_next := 0, b_disposer := Some C_free\<rparr>))) h" .
  qed
  have "kept (buffer_data (Suc n) dbg p h) h"
    unfolding buffer_data.simps a prod.case
    by (auto intro!: kept_get kept_len kept_bind2 [OF IH(2) k(1)] kept_done kept_fault fin [simplified] k(1) IH(1)
        simp: get_buf_Done split: option.split)
  moreover have "kept (copy_chain (Suc n) dbg cur acc h) h"
    unfolding copy_chain.simps
    by (auto intro!: kept_get kept_len kept_load kept_done kept_fault kept_bind2 [OF IH(1) keeps_refl] kept_from [OF IH(2)] IH
        simp: get_buf_Done split: prod.split)
  ultimately show ?case ..
qed (simp add: kept_def)

lemma free_keeps: "buffer_free n p h = Done h' \<Longrightarrow> keeps h h'"
proof (induction n p h arbitrary: h' rule: buffer_free.induct)
  case (2 n p h)
  show ?case
  proof (cases "p = 0")
    case False
    then obtain b where b: "bufs h p = Some b" using "2.prems" by (auto simp: obind_eq_Done get_buf_Done)
    let ?h = "put_buf h p (b\<lparr>b_refcnt := b_refcnt b - 1\<rparr>)"
    have k: "keeps h ?h" by (rule keeps_put_live [OF b])
    show ?thesis
    proof (cases "b_refcnt b > 1")
      case True
      with "2.prems" False b k show ?thesis by (simp add: get_buf_def)
    next
      case last: False
      obtain h1 where h1: "dispose (b_disposer b) (b_data b) ?h = Done h1"
        using "2.prems" False b last by (auto simp: get_buf_def obind_eq_Done Let_def)
      obtain h2 where h2: "(if b_orig b \<noteq> 0 then buffer_free n (b_orig b) h1 else Done h1) = Done h2"
        using "2.prems" False b last h1 by (auto simp: get_buf_def obind_eq_Done Let_def)
      obtain h3 where h3: "(if b_next b \<noteq> 0 then buffer_free n (b_next b) h2 else Done h2) = Done h3"
        "h' = h3\<lparr>bufs := (bufs h3)(p := None)\<rparr>"
        using "2.prems" False b last h1 h2 by (auto simp: get_buf_def obind_eq_Done Let_def)
      have g: "get_buf h p = Done b" using b by (simp add: get_buf_def)
      have "keeps h1 h2" using h2 "2.IH"(1) [OF False g refl last h1] by (cases "b_orig b = 0") simp_all
      moreover have "keeps h2 h3" using h3(1) "2.IH"(2) [OF False g refl last h1 h2] by (cases "b_next b = 0") simp_all
      ultimately show ?thesis
        unfolding h3(2) using keeps_trans [OF k] dispose_keeps [OF h1] keeps_trans keeps_drop(2) by blast
    qed
  qed (use "2.prems" in simp)
qed (auto split: if_splits)

lemma buffer_free_keeps: "logdb_buffer_free p h = Done h' \<Longrightarrow> keeps h h'"
  unfolding logdb_buffer_free_def by (rule free_keeps)

lemma buffer_data_kept: "kept (logdb_buffer_data dbg p h) h"
  unfolding logdb_buffer_data_def by (rule data_kept [THEN conjunct1])

lemma retain_keeps: "logdb_buffer_retain p h = Done h' \<Longrightarrow> keeps h h'"
  using keeps_put_live by (auto simp: logdb_buffer_retain_def obind_eq_Done get_buf_Done)


end
