(* ===== verification/Tests.thy ===== *)
theory Tests
  imports Sessions SystemCheck Skip Heaps
begin

text \<open>
  The tests of the repository (\<^verbatim>\<open>src/tests/testcases.def\<close>, \<^verbatim>\<open>main.c\<close>) as programs over the model, and that they
  pass.
\<close>

unbundle bit_operations_syntax

section \<open>The tests\<close>

text \<open>
  A failed assertion ends its test with the number of the assertion, which the preprocessor counts through the
  file; what it prints is left out. A string literal is a block of its own with the terminating zero.
\<close>

definition ASSERT :: "int \<Rightarrow> bool \<Rightarrow> 'a \<Rightarrow> (int \<times> 'a) outcome \<Rightarrow> (int \<times> 'a) outcome" where
  "ASSERT n cond st rest = (if cond then rest else Done (n, st))"

definition ASSERT_some :: "int \<Rightarrow> 'b option \<Rightarrow> 'a \<Rightarrow> ('b \<Rightarrow> (int \<times> 'a) outcome) \<Rightarrow> (int \<times> 'a) outcome" where
  "ASSERT_some n x st rest = (case x of None \<Rightarrow> Done (n, st) | Some y \<Rightarrow> rest y)"

definition string_literal :: "byte list \<Rightarrow> heap \<Rightarrow> ptr \<times> heap" where
  "string_literal bs h = (let a = Suc (brk h) in (a, h\<lparr>brk := a, mem := (mem h)(a := Some (bs @ [0]))\<rparr>))"

text \<open>\<open>strncmp\<close> of the block with a literal, over its whole length.\<close>

definition compare_data :: "heap \<Rightarrow> ptr \<Rightarrow> byte list \<Rightarrow> int outcome" where
  "compare_data h p bs = obind (load_bytes h p (length bs)) (\<lambda>xs. Done (strncmp xs bs (length bs)))"

definition foo :: "byte list" where "foo = [102, 111, 111]"
definition bar :: "byte list" where "bar = [98, 97, 114]"
definition baz :: "byte list" where "baz = [98, 97, 122]"
definition bar_mark :: "byte list" where "bar_mark = [98, 97, 114, 33]"
definition hello :: "byte list" where "hello = [104, 101, 108, 108, 111]"
definition world_mark :: "byte list" where "world_mark = [119, 111, 114, 108, 100, 33]"
definition test_path :: string where "test_path = ''temp.logdb''"

text \<open>What a test works on: the heap of the process and the system.\<close>

type_synonym process = "heap \<times> os"

definition process_of :: "world \<Rightarrow> process" where
  "process_of w = (w_heap w, w_os w)"

definition world_of :: "process \<Rightarrow> logdb_connection_t \<Rightarrow> world" where
  "world_of p c = \<lparr>w_os = snd p, w_heap = fst p, w_conn = c\<rparr>"

definition test_Buffers :: "bool \<Rightarrow> heap \<Rightarrow> (int \<times> heap) outcome" where
  "test_Buffers dbg h =
     (case string_literal foo h of (foo_lit, h) \<Rightarrow>
      case string_literal bar h of (bar_lit, h) \<Rightarrow>
      case string_literal baz h of (baz_lit, h) \<Rightarrow>
      obind (logdb_buffer_new_copy dbg foo_lit 3 h) (\<lambda>(buf1, h). ASSERT 1 (buf1 \<noteq> 0) h (
      obind (logdb_buffer_new_copy dbg bar_lit 3 h) (\<lambda>(buf2, h). ASSERT 2 (buf2 \<noteq> 0) h (
      case logdb_buffer_new_direct dbg baz_lit 3 None h of (buf3, h) \<Rightarrow> ASSERT 3 (buf3 \<noteq> 0) h (
      obind (logdb_buffer_append dbg buf1 buf2 h) (\<lambda>(r, h). ASSERT 4 (r \<noteq> 0) h (
      obind (logdb_buffer_length h buf1) (\<lambda>n. ASSERT 5 (6 = n) h (
      obind (logdb_buffer_length h buf2) (\<lambda>n. ASSERT 6 (3 = n) h (
      obind (logdb_buffer_data dbg buf1 h) (\<lambda>(data, h). ASSERT 7 (data \<noteq> 0) h (
      obind (compare_data h data (foo @ bar)) (\<lambda>d. ASSERT 8 (d = 0) h (
      obind (logdb_buffer_append dbg buf1 buf3 h) (\<lambda>(r, h). ASSERT 9 (r \<noteq> 0) h (
      obind (logdb_buffer_length h buf1) (\<lambda>n. ASSERT 10 (9 = n) h (
      obind (logdb_buffer_length h buf2) (\<lambda>n. ASSERT 11 (3 = n) h (
      obind (logdb_buffer_length h buf3) (\<lambda>n. ASSERT 12 (3 = n) h (
      obind (logdb_buffer_data dbg buf1 h) (\<lambda>(data, h). ASSERT 13 (data \<noteq> 0) h (
      obind (compare_data h data (foo @ bar @ baz)) (\<lambda>d. ASSERT 14 (d = 0) h (
      obind (logdb_buffer_free buf1 h) (\<lambda>h.
      obind (logdb_buffer_free buf2 h) (\<lambda>h.
      obind (logdb_buffer_free buf3 h) (\<lambda>h. Done (0, h))))))))))))))))))))))))))))))))"

definition test_OpenCloseConnection :: "bool \<Rightarrow> nat \<Rightarrow> process \<Rightarrow> (int \<times> process) outcome" where
  "test_OpenCloseConnection dbg tid p =
     (case p of (h, s) \<Rightarrow>
      obind (logdb_open dbg (Some test_path) LOGDB_OPEN_EXISTING s) (\<lambda>(conn, s).
      case conn of
        Some c \<Rightarrow> obind (logdb_close dbg tid 1 (world_of (h, s) c)) (\<lambda>(_, w). Done (15, process_of w))
      | None \<Rightarrow>
      obind (logdb_open dbg (Some test_path) LOGDB_OPEN_CREATE s) (\<lambda>(conn, s). ASSERT_some 16 conn (h, s) (\<lambda>c.
      obind (logdb_close dbg tid 1 (world_of (h, s) c)) (\<lambda>(r, w). ASSERT 17 (r = 0) (process_of w) (
      obind (logdb_open dbg (Some test_path) LOGDB_OPEN_EXISTING (w_os w)) (\<lambda>(conn, s). ASSERT_some 18 conn (w_heap w, s) (\<lambda>c.
      obind (logdb_close dbg tid 1 (world_of (w_heap w, s) c)) (\<lambda>(r, w). ASSERT 19 (r = 0) (process_of w) (
      case sys_unlink test_path (w_os w) of (_, s) \<Rightarrow> Done (0, w_heap w, s)))))))))))"

definition test_TransactionBeginRollback :: "bool \<Rightarrow> nat \<Rightarrow> process \<Rightarrow> (int \<times> process) outcome" where
  "test_TransactionBeginRollback dbg tid p =
     (case p of (h, s) \<Rightarrow>
      obind (logdb_open dbg (Some test_path) LOGDB_OPEN_CREATE s) (\<lambda>(conn, s). ASSERT_some 20 conn (h, s) (\<lambda>c.
      obind (logdb_rollback dbg tid 1 (world_of (h, s) c)) (\<lambda>(r, w). ASSERT 21 (r \<noteq> 0) (process_of w) (
      obind (logdb_begin dbg tid 1 w) (\<lambda>(r, w). ASSERT 22 (r = 0) (process_of w) (
      obind (logdb_rollback dbg tid 1 w) (\<lambda>(r, w). ASSERT 23 (r = 0) (process_of w) (
      obind (logdb_rollback dbg tid 1 w) (\<lambda>(r, w). ASSERT 24 (r \<noteq> 0) (process_of w) (
      obind (logdb_close dbg tid 1 w) (\<lambda>(r, w). ASSERT 25 (r = 0) (process_of w) (
      case sys_unlink test_path (w_os w) of (_, s) \<Rightarrow> Done (0, w_heap w, s))))))))))))))"

text \<open>The two puts of a test: the buffers refer to the literals, which nobody frees.\<close>

definition put_and_free :: "nat \<Rightarrow> bool \<Rightarrow> nat \<Rightarrow> int \<Rightarrow> ptr \<Rightarrow> ptr \<Rightarrow> world \<Rightarrow>
    (world \<Rightarrow> (int \<times> process) outcome) \<Rightarrow> (int \<times> process) outcome" where
  "put_and_free f dbg tid n key val w rest =
     obind (logdb_put f dbg tid 1 key val w) (\<lambda>(r, w). ASSERT n (r = 0) (process_of w) (
     obind (logdb_buffer_free key (w_heap w)) (\<lambda>h.
     obind (logdb_buffer_free val h) (\<lambda>h. rest (w\<lparr>w_heap := h\<rparr>)))))"

definition put_literals :: "nat \<Rightarrow> bool \<Rightarrow> nat \<Rightarrow> int \<Rightarrow> bool \<Rightarrow> byte list \<Rightarrow> byte list \<Rightarrow> world \<Rightarrow>
    (world \<Rightarrow> (int \<times> process) outcome) \<Rightarrow> (int \<times> process) outcome" where
  "put_literals f dbg tid n lengths k v w rest =
     (case string_literal k (w_heap w) of (k_lit, h) \<Rightarrow>
      case logdb_buffer_new_direct dbg k_lit (of_nat (length k)) None h of (key, h) \<Rightarrow> ASSERT n (key \<noteq> 0) (h, w_os w) (
      case string_literal v h of (v_lit, h) \<Rightarrow>
      case logdb_buffer_new_direct dbg v_lit (of_nat (length v)) None h of (val, h) \<Rightarrow> ASSERT (n + 1) (val \<noteq> 0) (h, w_os w) (
      if lengths then
        obind (logdb_buffer_length h key) (\<lambda>l. ASSERT (n + 2) (of_nat (length k) = l) (h, w_os w) (
        obind (logdb_buffer_length h val) (\<lambda>l. ASSERT (n + 3) (of_nat (length v) = l) (h, w_os w) (
        put_and_free f dbg tid (n + 4) key val (w\<lparr>w_heap := h\<rparr>) rest))))
      else put_and_free f dbg tid (n + 2) key val (w\<lparr>w_heap := h\<rparr>) rest)))"

text \<open>The end of the two tests that read a record, from the call that returns its key on.\<close>

definition check_record :: "bool \<Rightarrow> nat \<Rightarrow> int \<Rightarrow> byte list \<Rightarrow> byte list \<Rightarrow> logdb_iter_t \<Rightarrow> world \<Rightarrow> (int \<times> process) outcome" where
  "check_record dbg tid n k v iter w =
     obind (logdb_iter_current_key dbg iter w) (\<lambda>(key, iter, w). ASSERT n (key \<noteq> 0) (process_of w) (
     obind (logdb_iter_current_value dbg iter w) (\<lambda>(val, iter, w). ASSERT (n + 1) (val \<noteq> 0) (process_of w) (
     obind (logdb_buffer_length (w_heap w) key) (\<lambda>l. ASSERT (n + 2) (of_nat (length k) = l) (process_of w) (
     obind (logdb_buffer_length (w_heap w) val) (\<lambda>l. ASSERT (n + 3) (of_nat (length v) = l) (process_of w) (
     obind (logdb_buffer_data dbg key (w_heap w)) (\<lambda>(data, h). ASSERT (n + 4) (data \<noteq> 0) (h, w_os w) (
     obind (compare_data h data k) (\<lambda>d. ASSERT (n + 5) (d = 0) (h, w_os w) (
     obind (logdb_buffer_data dbg val h) (\<lambda>(data, h). ASSERT (n + 6) (data \<noteq> 0) (h, w_os w) (
     obind (compare_data h data v) (\<lambda>d. ASSERT (n + 7) (d = 0) (h, w_os w) (
     obind (logdb_iter_next dbg iter (w\<lparr>w_heap := h\<rparr>)) (\<lambda>(r, iter, w). ASSERT (n + 8) (r = 0) (process_of w) (
     obind (logdb_iter_free dbg iter w) (\<lambda>w.
     obind (logdb_close dbg tid 1 w) (\<lambda>(r, w). ASSERT (n + 9) (r = 0) (process_of w) (
     case sys_unlink test_path (w_os w) of (_, s) \<Rightarrow> Done (0, w_heap w, s))))))))))))))))))))))"

definition test_Put1 :: "nat \<Rightarrow> bool \<Rightarrow> nat \<Rightarrow> process \<Rightarrow> (int \<times> process) outcome" where
  "test_Put1 f dbg tid p =
     (case p of (h, s) \<Rightarrow>
      obind (logdb_open dbg (Some test_path) LOGDB_OPEN_CREATE s) (\<lambda>(conn, s). ASSERT_some 26 conn (h, s) (\<lambda>c.
      put_literals f dbg tid 27 True foo bar_mark (world_of (h, s) c) (\<lambda>w.
      put_literals f dbg tid 32 True hello world_mark w (\<lambda>w.
      obind (logdb_iter_all dbg 1 w) (\<lambda>(iter, w). ASSERT_some 37 iter (process_of w) (\<lambda>iter.
      obind (logdb_iter_next dbg iter w) (\<lambda>(r, iter, w). ASSERT 38 (r \<noteq> 0) (process_of w) (
      obind (logdb_iter_next dbg iter w) (\<lambda>(r, iter, w). ASSERT 39 (r \<noteq> 0) (process_of w) (
      check_record dbg tid 40 hello world_mark iter w)))))))))))"

text \<open>Setting and deleting the variable \<open>LOGDB_TEST_LOG_CREATE_RETURN_EARLY\<close>; \<open>setenv\<close> allocates.\<close>

definition sys_setenv :: "bool \<Rightarrow> os \<Rightarrow> int \<times> os" where
  "sys_setenv b s = (case sys_malloc s of (ok, s) \<Rightarrow> if ok then (0, s\<lparr>test_env := b\<rparr>) else (-1, s))"

definition sys_unsetenv :: "os \<Rightarrow> int \<times> os" where
  "sys_unsetenv s = (0, s\<lparr>test_env := False\<rparr>)"

text \<open>The second half of the test: the failing call, with the variable set, and the one that repairs what it has left.\<close>

definition recover_record :: "bool \<Rightarrow> nat \<Rightarrow> process \<Rightarrow> (int \<times> process) outcome" where
  "recover_record dbg tid p =
     (case p of (h, s) \<Rightarrow>
      case sys_setenv True s of (r, s) \<Rightarrow> ASSERT 55 (r = 0) (h, s) (
      obind (logdb_open dbg (Some test_path) LOGDB_OPEN_EXISTING s) (\<lambda>(conn, s). ASSERT 56 (conn = None) (h, s) (
      case sys_unsetenv s of (r, s) \<Rightarrow> ASSERT 57 (r = 0) (h, s) (
      obind (logdb_open dbg (Some test_path) LOGDB_OPEN_EXISTING s) (\<lambda>(conn, s). ASSERT_some 58 conn (h, s) (\<lambda>c.
      obind (logdb_iter_all dbg 1 (world_of (h, s) c)) (\<lambda>(iter, w). ASSERT_some 59 iter (process_of w) (\<lambda>iter.
      obind (logdb_iter_next dbg iter w) (\<lambda>(r, iter, w). ASSERT 60 (r \<noteq> 0) (process_of w) (
      check_record dbg tid 61 foo bar_mark iter w)))))))))))"

definition test_LogRecovery :: "nat \<Rightarrow> bool \<Rightarrow> nat \<Rightarrow> process \<Rightarrow> (int \<times> process) outcome" where
  "test_LogRecovery f dbg tid p =
     (case p of (h, s) \<Rightarrow>
      obind (logdb_open dbg (Some test_path) LOGDB_OPEN_CREATE s) (\<lambda>(conn, s). ASSERT_some 50 conn (h, s) (\<lambda>c.
      put_literals f dbg tid 51 False foo bar_mark (world_of (h, s) c) (\<lambda>w.
      obind (logdb_close dbg tid 1 w) (\<lambda>(r, w). ASSERT 54 (r = 0) (process_of w) (recover_record dbg tid (process_of w)))))))"

text \<open>The driver starts with an empty heap, runs every test whatever the ones before returned, and combines the results.\<close>

definition new_heap :: heap where
  "new_heap = \<lparr>mem = (\<lambda>_. None), bufs = (\<lambda>_. None), txns = (\<lambda>_. None), brk = 0, oom = [], disposed = []\<rparr>"

definition tests_main :: "nat \<Rightarrow> bool \<Rightarrow> nat \<Rightarrow> os \<Rightarrow> (int \<times> process) outcome" where
  "tests_main f dbg tid s =
     obind (test_Buffers dbg new_heap) (\<lambda>(r1, h).
     obind (test_OpenCloseConnection dbg tid (h, s)) (\<lambda>(r2, p).
     obind (test_TransactionBeginRollback dbg tid p) (\<lambda>(r3, p).
     obind (test_Put1 f dbg tid p) (\<lambda>(r4, p).
     obind (test_LogRecovery f dbg tid p) (\<lambda>(r5, p). Done ((((r1 OR r2) OR r3) OR r4) OR r5, p))))))"

section \<open>The first three tests pass\<close>

lemma ASSERT_holds [simp]: "cond \<Longrightarrow> ASSERT n cond st rest = rest" by (simp add: ASSERT_def)
lemma ASSERT_some_holds [simp]: "ASSERT_some n (Some x) st rest = rest x" by (simp add: ASSERT_some_def)

text \<open>The system as a test finds it, and leaves it.\<close>

definition untouched :: "process \<Rightarrow> bool" where
  "untouched p \<longleftrightarrow> (case p of (h, s) \<Rightarrow>
     heap_ok h \<and> plenty h \<and> calm s \<and> other_locks s = [] \<and> dir s test_path = None \<and> dir s (test_path @ LOGDB_LOG_FILE_SUFFIX) = None \<and>
     \<not> pwrite_appends s \<and> \<not> test_env s \<and> 0 \<le> next_fd s \<and> (\<forall>i. other_flock s i = L_None))"

text \<open>Every step of the test keeps the heap well-formed.\<close>

lemma kept_literal:
  assumes "keeps h g" "\<And>a g'. keeps h g' \<Longrightarrow> kept (f a g') h"
  shows "kept (case string_literal bs g of (a, g') \<Rightarrow> f a g') h"
proof -
  have "keeps g (snd (string_literal bs g))"
    by (fastforce simp: string_literal_def Let_def keeps_def plenty_def heap_ok_def split: if_splits)
  from assms(2) [OF keeps_trans [OF assms(1) this]] show ?thesis by (cases "string_literal bs g") simp
qed

lemma kept_direct:
  assumes "keeps h g" "\<And>p g'. keeps h g' \<Longrightarrow> kept (f p g') h"
  shows "kept (case logdb_buffer_new_direct dbg d n dis g of (p, g') \<Rightarrow> f p g') h"
  using assms(2) [OF keeps_trans [OF assms(1) new_direct_keeps]] by (simp split: prod.split)

lemma kept_step:
  assumes "kept m g" "keeps h g" "\<And>r h'. keeps h h' \<Longrightarrow> kept (f r h') h"
  shows "kept (obind m (\<lambda>(r, h'). f r h')) h"
  by (rule kept_bind2 [OF assms(1,2)]) (simp add: assms(3))

lemma kept_free:
  assumes "keeps h g" "\<And>h'. keeps h h' \<Longrightarrow> kept (f h') h"
  shows "kept (obind (logdb_buffer_free p g) f) h"
  using assms buffer_free_keeps keeps_trans by (intro kept_bind_heap) blast+

lemma kept_assert: "keeps h st \<Longrightarrow> kept rest h \<Longrightarrow> kept (ASSERT n cond st rest) h"
  by (simp add: ASSERT_def kept_done)

lemma test_Buffers_kept: "kept (test_Buffers dbg h) h"
  unfolding test_Buffers_def
  by (intro kept_literal kept_direct kept_step [OF new_copy_kept] kept_step [OF append_kept] kept_step [OF buffer_data_kept]
      kept_free kept_assert kept_bind_value kept_done keeps_refl | assumption)+

lemma test_Buffers_value:
  "case test_Buffers True new_heap of Done (r, h) \<Rightarrow> r = 0 | Fault f \<Rightarrow> False"
  "case test_Buffers False new_heap of Done (r, h) \<Rightarrow> r = 0 | Fault f \<Rightarrow> False"
  by code_simp+

lemma test_Buffers_passes: "\<exists>h. test_Buffers dbg new_heap = Done (0, h) \<and> heap_ok h \<and> plenty h"
proof -
  have "heap_ok new_heap" "plenty new_heap" by (simp_all add: new_heap_def heap_ok_def plenty_def)
  then show ?thesis
    using test_Buffers_value test_Buffers_kept [of dbg new_heap]
    by (cases dbg) (auto simp: kept_def keeps_def split: outcome.splits)
qed

lemma test_open:
  assumes "untouched (h, s)"
  shows "\<exists>c s'. logdb_open dbg (Some test_path) LOGDB_OPEN_CREATE s = Done (Some c, s') \<and> settled test_path tid (world_of (h, s') c) \<and>
     sections_of (world_of (h, s') c) = [] \<and> c_current_txn c = (\<lambda>_. 0) \<and> \<not> test_env s' \<and> length (db_file c s') \<le> 4294967302"
proof -
  have a: "calm s" "other_locks s = []" "dir s test_path = None" "dir s (test_path @ LOGDB_LOG_FILE_SUFFIX) = None" "\<not> pwrite_appends s"
    "\<not> (dbg \<and> test_env s)" "0 \<le> next_fd s" "\<forall>i. other_flock s i = L_None" "heap_ok h" "plenty h"
    using assms by (simp_all add: untouched_def)
  have "\<not> test_env s" using assms by (simp add: untouched_def)
  with fresh_world [OF a, of tid] show ?thesis by (fastforce simp: world_of_def same_env_def)
qed

lemma test_close:
  assumes "settled test_path tid w" "\<not> test_env (w_os w)"
  shows "\<exists>w1 r s. logdb_close dbg tid 1 w = Done (0, w1) \<and> w_heap w1 = w_heap w \<and> sys_unlink test_path (w_os w1) = (r, s) \<and>
     untouched (w_heap w1, s)"
proof -
  have n: "named test_path w" using assms(1) by (simp add: settled_def)
  from logdb_close_quiet [OF settled_closable [OF assms(1)] _ named_log [OF n, THEN conjunct1], of 1 dbg] obtain w1 where
    w1: "logdb_close dbg tid 1 w = Done (0, w1)" "same_env (w_os w) (w_os w1)"
      "dir (w_os w1) = (dir (w_os w))(test_path @ LOGDB_LOG_FILE_SUFFIX := None)" "next_fd (w_os w1) = next_fd (w_os w)" "w_heap w1 = w_heap w"
    by auto
  have c: "calm (w_os w)" "other_locks (w_os w) = []" "\<not> pwrite_appends (w_os w)" "heap_ok (w_heap w)" "plenty (w_heap w)"
    "\<forall>i. other_flock (w_os w) i = L_None"
    using assms(1) by (simp_all add: settled_def client_ok_def ready_def conn_ok_def)
  have d: "dir (w_os w) test_path \<noteq> None" "0 \<le> next_fd (w_os w)" using n by (auto simp: named_def Let_def split: option.splits)
  have calm1: "calm (w_os w1)" by (rule same_env_calm [OF w1(2) c(1)])
  have d1: "dir (w_os w1) test_path \<noteq> None" using d(1) w1(3) suffix_differs [of test_path] by auto
  let ?s = "(popped (w_os w1))\<lparr>dir := (dir (w_os w1))(test_path := None)\<rparr>"
  have u: "snd (sys_unlink test_path (w_os w1)) = ?s" by (rule unlink_quiet [OF calm_quiet [OF calm1] d1])
  have e: "same_env (w_os w) ?s" by (rule same_env_trans [OF w1(2) unlink_same(1)])
  have "untouched (w_heap w1, ?s)"
    using same_env_calm [OF e c(1)] e c(2-6) d(2) w1(3-5) assms(2) by (simp add: untouched_def same_env_def)
  then show ?thesis using w1(1,5) u by (metis prod.collapse)
qed

lemma open_missing:
  assumes "quiet s" "dir s path = None"
  shows "logdb_open dbg (Some path) LOGDB_OPEN_EXISTING s = Done (None, popped (popped s))"
proof -
  have q: "quiet (popped s)" using assms(1) by simp
  show ?thesis using pass_calls(1) [OF assms(1)] quiet_event [OF q] assms(2)
    by (simp add: logdb_open_def Let_def sys_open_def pop_eq has_flag_def LOGDB_OPEN_EXISTING_def LOGDB_OPEN_CREATE_def)
qed

lemma untouched_popped: "untouched (h, s) \<Longrightarrow> untouched (h, popped s)"
  using frame_calm [OF frame_steps(1), of s] by (auto simp: untouched_def)

lemma test_OpenCloseConnection_passes:
  assumes "untouched p"
  shows "\<exists>p'. test_OpenCloseConnection dbg tid p = Done (0, p') \<and> untouched p'"
proof -
  obtain h s where p: "p = (h, s)" by fastforce
  have m: "logdb_open dbg (Some test_path) LOGDB_OPEN_EXISTING s = Done (None, popped (popped s))"
    by (rule open_missing) (use assms calm_quiet in \<open>auto simp: p untouched_def\<close>)
  have u: "untouched (h, popped (popped s))" using assms untouched_popped by (simp add: p)
  obtain c s1 where o: "logdb_open dbg (Some test_path) LOGDB_OPEN_CREATE (popped (popped s)) = Done (Some c, s1)"
    "settled test_path tid (world_of (h, s1) c)" "\<not> test_env s1"
    using test_open [OF u, of dbg tid] by blast
  have e: "\<not> (dbg \<and> test_env (w_os (world_of (h, s1) c)))" using o(3) by (simp add: world_of_def)
  from close_then_open_sections [OF o(2) _ e, of 1 LOGDB_OPEN_EXISTING] obtain w1 c2 s2 where
    r: "logdb_close dbg tid 1 (world_of (h, s1) c) = Done (0, w1)" "w_heap w1 = h"
      "logdb_open dbg (Some test_path) LOGDB_OPEN_EXISTING (w_os w1) = Done (Some c2, s2)" "same_env s1 s2"
      "settled test_path tid (world_of (h, s2) c2)"
    by (auto simp: world_of_def)
  have "\<not> test_env (w_os (world_of (h, s2) c2))" using o(3) r(4) by (simp add: world_of_def same_env_def)
  from test_close [OF r(5) this, of dbg] obtain w2 x s3 where
    "logdb_close dbg tid 1 (world_of (h, s2) c2) = Done (0, w2)" "sys_unlink test_path (w_os w2) = (x, s3)" "untouched (w_heap w2, s3)"
    by blast
  then show ?thesis using m o(1) r(1-3) by (simp add: test_OpenCloseConnection_def p process_of_def)
qed
lemma rollback_nothing:
  assumes "settled path tid w"
  shows "logdb_rollback dbg tid 1 w = Done (-1, w)"
  using assms by (simp add: settled_def client_ok_def logdb_rollback_def verify_connection_def Let_def)

lemma begin_rollback:
  assumes "settled path tid w"
  shows "\<exists>w1. logdb_begin dbg tid 1 w = Done (0, w1) \<and>
     logdb_rollback dbg tid 1 w1 = Done (0, w\<lparr>w_heap := h_bump (w_heap w), w_os := popped (popped (w_os w))\<rparr>)"
proof -
  let ?h = "w_heap w" let ?n = "Suc (brk ?h)" and ?c = "w_conn w" and ?s = "w_os w"
  have a: "quiet ?s" "heap_ok ?h" "plenty ?h" "c_alive ?c" "c_version ?c = LOGDB_VERSION" "c_current_txn ?c tid = 0"
    using assms calm_quiet by (simp_all add: settled_def client_ok_def logdb_txn_current_def)
  let ?h1 = "(h_bump ?h)\<lparr>txns := (txns ?h)(?n := Some \<lparr>t_outer = 0, t_buf = 0\<rparr>)\<rparr>"
  let ?w1 = "w\<lparr>w_heap := ?h1, w_os := popped ?s, w_conn := ?c\<lparr>c_current_txn := (c_current_txn ?c)(tid := ?n)\<rparr>\<rparr>"
  have "logdb_begin dbg tid 1 w = Done (0, ?w1)"
    using a set_current_quiet [of "w\<lparr>w_heap := ?h1\<rparr>" tid ?n]
    by (simp add: logdb_begin_def verify_connection_def logdb_txn_begin_implicit_def h_malloc_plenty put_txn_def logdb_txn_current_def)
  moreover have "(txns ?h)(?n := None) = txns ?h" using heap_ok_none [OF a(2)] by (auto simp: fun_eq_iff)
  moreover have "(c_current_txn ?c)(tid := 0) = c_current_txn ?c" using a(6) by (auto simp: fun_eq_iff)
  moreover have "quiet (w_os ?w1)" using a(1) by simp
  note cur = set_current_quiet [OF this, of tid 0]
  ultimately show ?thesis using a(4,5)
    by (intro exI [of _ ?w1]) (simp add: logdb_rollback_def verify_connection_def Let_def logdb_txn_current_def logdb_txn_close_def
        fuel_of_def get_txn_def cur put_txn_def)
qed

lemma test_TransactionBeginRollback_passes:
  assumes "untouched p"
  shows "\<exists>p'. test_TransactionBeginRollback dbg tid p = Done (0, p') \<and> untouched p'"
proof -
  obtain h s where p: "p = (h, s)" by fastforce
  obtain c s1 where o: "logdb_open dbg (Some test_path) LOGDB_OPEN_CREATE s = Done (Some c, s1)"
    "settled test_path tid (world_of (h, s1) c)" "\<not> test_env s1"
    using test_open [OF assms [unfolded p], of dbg tid] by blast
  let ?w = "world_of (h, s1) c"
  let ?w2 = "?w\<lparr>w_heap := h_bump h, w_os := popped (popped s1)\<rparr>"
  have w: "w_os ?w = s1" "w_heap ?w = h" by (simp_all add: world_of_def)
  obtain w1 where b: "logdb_begin dbg tid 1 ?w = Done (0, w1)" "logdb_rollback dbg tid 1 w1 = Done (0, ?w2)"
    using begin_rollback [OF o(2), of dbg] unfolding w by blast
  have "heap_ok h" "plenty h" using assms by (simp_all add: p untouched_def)
  then have "settled test_path tid ?w2"
    using settled_step [OF o(2), of "popped (popped s1)" "h_bump h"] same_data_trans [OF same_data_steps(1) same_data_steps(1)]
    by (simp add: w)
  moreover have "\<not> test_env (w_os ?w2)" using o(3) by simp
  ultimately obtain w3 x s3 where
    "logdb_close dbg tid 1 ?w2 = Done (0, w3)" "sys_unlink test_path (w_os w3) = (x, s3)" "untouched (w_heap w3, s3)"
    using test_close by blast
  then show ?thesis
    using o(1) b rollback_nothing [OF o(2), of dbg] rollback_nothing [OF \<open>settled test_path tid ?w2\<close>, of dbg]
    by (simp add: test_TransactionBeginRollback_def p)
qed

section \<open>Buffers over literals\<close>

definition literal_at :: "heap \<Rightarrow> ptr \<Rightarrow> ptr \<Rightarrow> byte list \<Rightarrow> bool" where
  "literal_at h p a xs \<longleftrightarrow> p \<noteq> 0 \<and> a \<noteq> 0 \<and> mem h a = Some (xs @ [0]) \<and>
     bufs h p = Some \<lparr>b_data = a, b_len = of_nat (length xs), b_disposer = None, b_orig = 0, b_next = 0, b_refcnt = 1\<rparr>"

lemma literal_buffer:
  assumes "heap_ok h" "plenty h"
  shows "\<exists>a p h1 h2. string_literal xs h = (a, h1) \<and> logdb_buffer_new_direct dbg a (of_nat (length xs)) None h1 = (p, h2) \<and>
     heap_ok h2 \<and> plenty h2 \<and> literal_at h2 p a xs \<and> bufs h p = None \<and> (\<forall>q b ys. literal_at h q b ys \<longrightarrow> literal_at h2 q b ys)"
proof -
  let ?a = "Suc (brk h)" let ?h1 = "h\<lparr>brk := ?a, mem := (mem h)(?a := Some (xs @ [0]))\<rparr>" let ?p = "Suc ?a"
  obtain h2 where h2: "logdb_buffer_new_direct dbg ?a (of_nat (length xs)) None ?h1 = (?p, h2)"
    "h2 = put_buf (h_bump ?h1) ?p \<lparr>b_data = ?a, b_len = of_nat (length xs), b_disposer = None, b_orig = 0, b_next = 0, b_refcnt = 1\<rparr>"
    using new_direct_plenty [of ?h1 dbg ?a "of_nat (length xs)" None] assms(2) by (simp add: plenty_def)
  have s: "string_literal xs h = (?a, ?h1)" by (simp add: string_literal_def Let_def)
  have "keeps h ?h1" using assms(1) by (fastforce simp: keeps_def plenty_def heap_ok_def split: if_splits)
  then have "keeps h h2" using keeps_trans new_direct_keeps [OF h2(1)] by blast
  moreover have "mem h ?a = None" "bufs h ?p = None" using heap_ok_none [OF assms(1)] by auto
  moreover from this have "literal_at h2 q b ys" if "literal_at h q b ys" for q b ys
    using that by (auto simp: h2(2) literal_at_def)
  ultimately show ?thesis using assms s h2 by (simp add: keeps_def literal_at_def)
qed

lemma literal_has: "literal_at h p a xs \<Longrightarrow> length xs < 4294967296 \<Longrightarrow> buffer_has h p xs"
  using plain_brep [of h p _ xs] by (fastforce simp: literal_at_def buffer_has_def load_bytes_def unat_small)

lemma literal_length: "literal_at h p a xs \<Longrightarrow> length xs < 4294967296 \<Longrightarrow> heap_ok h \<Longrightarrow> logdb_buffer_length h p = Done (of_nat (length xs))"
  using literal_has logdb_buffer_length_correct by (fastforce simp: buffer_has_def)

lemma literal_free:
  assumes "literal_at g p a xs"
  shows "\<exists>g'. logdb_buffer_free p g = Done g' \<and> keeps g g' \<and> mem g' = mem g \<and> bufs g' = (bufs g)(p := None)"
proof -
  let ?b = "\<lparr>b_data = a, b_len = of_nat (length xs), b_disposer = None, b_orig = 0, b_next = 0, b_refcnt = 1\<rparr>"
  have b: "bufs g p = Some ?b" "p \<noteq> 0" using assms by (simp_all add: literal_at_def)
  have "dispose (b_disposer ?b) (b_data ?b) (put_buf g p (?b\<lparr>b_refcnt := b_refcnt ?b - 1\<rparr>)) = Done (put_buf g p (?b\<lparr>b_refcnt := b_refcnt ?b - 1\<rparr>))"
    by (simp add: dispose_def)
  from logdb_buffer_free_single [OF b _ _ _ this] have
    "logdb_buffer_free p g = Done (drop_buf (put_buf g p (?b\<lparr>b_refcnt := b_refcnt ?b - 1\<rparr>)) p)" by simp
  with buffer_free_keeps [OF this] show ?thesis by (auto simp: fun_eq_iff)
qed

lemma put_literals_settled:
  assumes "settled test_path tid w" "8 + length k + length v < 65536" "length (sections_of w) < 65535"
    and "list_all (\<lambda>S. length S + (8 + length k + length v) \<noteq> 65536) (sections_of w)"
  shows "\<exists>w'. (\<forall>n lengths rest. put_literals (Suc f) dbg tid n lengths k v w rest = rest w') \<and> settled test_path tid w' \<and>
     extends (sections_of w) (record_bytes k v) (sections_of w') \<and> same_env (w_os w) (w_os w') \<and>
     (length (db_file (w_conn w) (w_os w)) \<le> 4294967302 \<longrightarrow> length (db_file (w_conn w') (w_os w')) \<le> 4294967302) \<and>
     (sections_of w \<noteq> [] \<and> length (last (sections_of w)) + (8 + length k + length v) < 65536 \<longrightarrow>
        sections_of w' = butlast (sections_of w) @ [last (sections_of w) @ record_bytes k v])"
proof -
  have c: "client_ok tid w" "heap_ok (w_heap w)" "plenty (w_heap w)" using assms(1) by (simp_all add: settled_def client_ok_def)
  have len: "length k < 4294967296" "length v < 4294967296" using assms(2) by simp_all
  obtain a p h1 h2 where k: "string_literal k (w_heap w) = (a, h1)" "logdb_buffer_new_direct dbg a (of_nat (length k)) None h1 = (p, h2)"
    "heap_ok h2" "plenty h2" "literal_at h2 p a k"
    using literal_buffer [OF c(2,3), of k dbg] by blast
  obtain b q h3 h4 where v: "string_literal v h2 = (b, h3)" "logdb_buffer_new_direct dbg b (of_nat (length v)) None h3 = (q, h4)"
    "heap_ok h4" "plenty h4" "literal_at h4 q b v" "bufs h2 q = None" "literal_at h4 p a k"
    using literal_buffer [OF k(3,4), of v dbg] k(5) by blast
  have ne: "p \<noteq> q" "p \<noteq> 0" "q \<noteq> 0" using k(5) v(5,6) by (auto simp: literal_at_def)
  let ?w = "w\<lparr>w_heap := h4\<rparr>"
  have cw: "client_ok tid ?w" using c(1) v(3,4) by (simp add: client_ok_def)
  have has: "buffer_has (w_heap ?w) p k" "buffer_has (w_heap ?w) q v" using literal_has v(5,7) len by simp_all
  have cnt: "Suc (log_count (log_file (w_conn ?w) (w_os ?w))) < 65536" using assms(3) by (simp add: sections_of_def)
  from put_client [OF cw _ has assms(2) cnt, of 1 f dbg] assms(4) obtain w1 where
    w1: "logdb_put (Suc f) dbg tid 1 p q ?w = Done (0, w1)" "client_ok tid w1" "stays w w1"
      "extends (sections_of w) (record_bytes k v) (sections_of w1)" "mem (w_heap w1) = mem h4" "bufs (w_heap w1) = bufs h4"
      "sections_of w \<noteq> [] \<and> length (last (sections_of w)) + (8 + length k + length v) < 65536 \<longrightarrow>
        sections_of w1 = butlast (sections_of w) @ [last (sections_of w) @ record_bytes k v]"
    by auto
  have hw: "heap_ok (w_heap w1)" "plenty (w_heap w1)" using w1(2) by (simp_all add: client_ok_def)
  have "literal_at (w_heap w1) p a k" using v(7) w1(5,6) by (simp add: literal_at_def)
  then obtain g1 where g1: "logdb_buffer_free p (w_heap w1) = Done g1" "keeps (w_heap w1) g1" "mem g1 = mem h4" "bufs g1 = (bufs h4)(p := None)"
    using literal_free w1(5,6) by metis
  have "literal_at g1 q b v" using v(5) g1(3,4) ne by (simp add: literal_at_def)
  then obtain g2 where g2: "logdb_buffer_free q g1 = Done g2" "keeps g1 g2" using literal_free by blast
  let ?w' = "w1\<lparr>w_heap := g2\<rparr>"
  have "client_ok tid ?w'" using w1(2) hw g1(2) g2(2) by (simp add: client_ok_def keeps_def)
  then have "settled test_path tid ?w'" using settled_stays [OF assms(1), of ?w'] w1(3) by simp
  moreover have put: "put_and_free (Suc f) dbg tid m p q ?w rest = rest ?w'" for m rest
    using w1(1) g1(1) g2(1) by (simp add: put_and_free_def)
  have "put_literals (Suc f) dbg tid n lengths k v w rest = rest ?w'" for n lengths rest
    using k(1,2) v(1,2) ne literal_length [OF v(7) len(1) v(3)] literal_length [OF v(5) len(2) v(3)]
    by (simp add: put_literals_def put)
  moreover have "same_env (w_os w) (w_os w1)" using w1(3) frame_same by (auto simp: stays_def)
  moreover have "length (db_file (w_conn w) (w_os w)) \<le> 4294967302 \<longrightarrow> length (db_file (w_conn w1) (w_os w1)) \<le> 4294967302"
    using w1(3) by (auto simp: stays_def same_headers_def)
  ultimately show ?thesis using w1(4,7) by (intro exI [of _ ?w']) simp
qed

section \<open>Reading a record back\<close>

lemma strncmp_self: "strncmp xs xs n = 0"
proof (induction xs arbitrary: n)
  case (Cons x xs)
  then show ?case by (cases n) simp_all
qed simp

lemma added_checks:
  assumes "adds_buf h0 p k h1" "length k < 4294967296" "bufs h p = bufs h1 p" "\<And>d bs. mem h1 d = Some bs \<Longrightarrow> mem h d = Some bs" "heap_ok h"
  shows "p \<noteq> 0" "logdb_buffer_length h p = Done (of_nat (length k))"
    "\<exists>d. d \<noteq> 0 \<and> logdb_buffer_data dbg p h = Done (d, h) \<and> compare_data h d k = Done 0"
proof -
  from added_data [OF assms(1)] obtain d where d: "bufs h1 p = Some \<lparr>b_data = d, b_len = of_nat (length k),
      b_disposer = Some C_free, b_orig = 0, b_next = 0, b_refcnt = 1\<rparr>" "mem h1 d = Some k" "d \<noteq> 0" "p \<noteq> 0" by metis
  note b = d(1) [folded assms(3)] assms(4) [OF d(2)]
  have l: "load_bytes h d (length k) = Done k" using b(2) by (simp add: load_bytes_def)
  have "brep h 1 p k" by (rule plain_brep [OF b(1) d(4)]) (use l assms(2) in \<open>simp_all add: unat_small\<close>)
  from logdb_buffer_length_correct [OF assms(5) this] show "logdb_buffer_length h p = Done (of_nat (length k))" .
  then show "\<exists>d. d \<noteq> 0 \<and> logdb_buffer_data dbg p h = Done (d, h) \<and> compare_data h d k = Done 0"
    using buffer_data_plain [OF b(1) d(4)] l d(3) by (intro exI [of _ d]) (simp add: compare_data_def strncmp_self)
  show "p \<noteq> 0" by (rule d(4))
qed

lemma settled_scannable:
  assumes "settled path tid w" "sections_of w = map records_bytes R" "list_all (list_all (\<lambda>(k, v). k \<noteq> [] \<and> v \<noteq> [])) R"
  shows "scannable R w"
  using assms calm_quiet by (simp add: settled_def client_ok_def ready_def scannable_def)

lemma check_record_passes:
  assumes set: "settled test_path tid w0" and env: "\<not> test_env (w_os w0)" and sc: "scannable R w0"
    and at: "at_record w0 j k v rs it w" "j \<le> length R" "rs @ concat (drop j R) = []" "(k, v) \<in> set (concat R)"
    and len: "length k < 4294967296" "length v < 4294967296"
  shows "\<exists>p'. check_record dbg tid n k v it w = Done (0, p') \<and> untouched p'"
proof -
  from key_and_value [OF sc at(1,2,4), of dbg] obtain p q it1 w1 it2 w2 h1 where
    g: "logdb_iter_current_key dbg it w = Done (p, it1, w1)" "logdb_iter_current_value dbg it1 w1 = Done (q, it2, w2)"
      "scanning w0 j rs it2 w2" "adds_buf h1 p k (w_heap w1)" "adds_buf (w_heap w1) q v (w_heap w2)"
    by blast
  have ok: "heap_ok (w_heap w2)" using g(5) by (auto simp: adds_buf_def)
  obtain b where "bufs (w_heap w1) p = Some b" using added_data [OF g(4)] by metis
  then have pb: "bufs (w_heap w2) p = bufs (w_heap w1) p" using added_keeps(1) [OF g(5)] by simp
  note K = added_checks [OF g(4) len(1) pb added_keeps(2) [OF g(5)] ok] and V = added_checks [OF g(5) len(2) refl _ ok]
  obtain d where d: "d \<noteq> 0" "logdb_buffer_data dbg p (w_heap w2) = Done (d, w_heap w2)" "compare_data (w_heap w2) d k = Done 0"
    using K(3) by blast
  obtain e where e: "e \<noteq> 0" "logdb_buffer_data dbg q (w_heap w2) = Done (e, w_heap w2)" "compare_data (w_heap w2) e v = Done 0"
    using V(3) by blast
  from next_at_end [OF sc g(3) at(2,3), of dbg] obtain l s where
    nx: "logdb_iter_next dbg it2 w2 = Done (0, it2\<lparr>it_lease := l\<rparr>, w2\<lparr>w_conn := w_conn w0, w_os := s\<rparr>)"
      "\<not> ls_connection l" "same_data (w_os w0) s"
    by blast
  have st: "it_connection it2" "holds (w_heap w0) (it_key it2) (it_value it2) (w_heap w2)" using g(3) by (simp_all add: scanning_def)
  obtain g1 g2 where fr: "logdb_buffer_free (it_key it2) (w_heap w2) = Done g1" "logdb_buffer_free (it_value it2) g1 = Done g2"
    "same_cells (w_heap w0) g2"
    using frees_held [OF st(2)] by blast
  let ?w3 = "w2\<lparr>w_conn := w_conn w0, w_os := s, w_heap := g2\<rparr>"
  have free: "logdb_iter_free dbg (it2\<lparr>it_lease := l\<rparr>) (w2\<lparr>w_conn := w_conn w0, w_os := s\<rparr>) = Done ?w3"
    using st(1) nx(2) fr(1,2) by (simp add: logdb_iter_free_def)
  have "heap_ok (w_heap w0)" using sc by (simp add: scannable_def)
  then have hg: "heap_ok g2" "plenty g2" using same_cells_ok [OF fr(3)] fr(3) by (simp_all add: same_cells_def)
  have eq: "?w3 = w0\<lparr>w_heap := g2, w_os := s\<rparr>" by simp
  have "settled test_path tid ?w3" unfolding eq by (rule settled_step [OF set nx(3) hg])
  moreover have "\<not> test_env (w_os ?w3)" using env same_data_same [OF nx(3)] by (simp add: same_env_def)
  ultimately obtain w4 x s4 where
    cl: "logdb_close dbg tid 1 ?w3 = Done (0, w4)" "sys_unlink test_path (w_os w4) = (x, s4)" "untouched (w_heap w4, s4)"
    using test_close [of tid ?w3 dbg] by blast
  have same: "w2\<lparr>w_heap := w_heap w2\<rparr> = w2" by simp
  show ?thesis
    unfolding check_record_def
    using g(1,2) K(1,2) V(1,2) d e nx(1) free cl by (simp add: same)
qed

section \<open>The tests that put records\<close>

lemma ASSERT_fails [simp]: "\<not> cond \<Longrightarrow> ASSERT n cond st rest = Done (n, st)" by (simp add: ASSERT_def)

lemmas literals = foo_def bar_mark_def hello_def world_mark_def

lemma test_Put1_passes:
  assumes "untouched p"
  shows "\<exists>p'. test_Put1 (Suc f) dbg tid p = Done (0, p') \<and> untouched p'"
proof -
  obtain h s where p: "p = (h, s)" by fastforce
  obtain c s1 where o: "logdb_open dbg (Some test_path) LOGDB_OPEN_CREATE s = Done (Some c, s1)"
    "settled test_path tid (world_of (h, s1) c)" "sections_of (world_of (h, s1) c) = []" "\<not> test_env s1"
    using test_open [OF assms [unfolded p], of dbg tid] by blast
  let ?w = "world_of (h, s1) c"
  have "8 + length foo + length bar_mark < 65536" "8 + length hello + length world_mark < 65536" by (simp_all add: literals)
  note len = this
  from put_literals_settled [OF o(2) len(1), of f dbg] o(3) obtain w1 where
    w1: "\<And>n b rest. put_literals (Suc f) dbg tid n b foo bar_mark ?w rest = rest w1" "settled test_path tid w1"
      "extends [] (record_bytes foo bar_mark) (sections_of w1)" "same_env (w_os ?w) (w_os w1)"
    by auto
  have S1: "sections_of w1 = [record_bytes foo bar_mark]" using w1(3) by (simp add: extends_def)
  have rb: "length (record_bytes foo bar_mark) = 15" by (simp add: record_length literals)
  from put_literals_settled [OF w1(2) len(2), of f dbg] obtain w2 where
    w2: "\<And>n b rest. put_literals (Suc f) dbg tid n b hello world_mark w1 rest = rest w2" "settled test_path tid w2" "same_env (w_os w1) (w_os w2)"
      "sections_of w2 = [record_bytes foo bar_mark @ record_bytes hello world_mark]"
    unfolding S1 using rb by (auto simp: literals)
  let ?R = "[[(foo, bar_mark), (hello, world_mark)]]"
  have "sections_of w2 = map records_bytes ?R" by (simp add: w2(4) records_bytes_def)
  then have "scannable ?R w2" using settled_scannable [OF w2(2)] by (simp add: literals)
  from iter_all_starts [OF this, of 1 dbg] obtain it w3 where
    it: "logdb_iter_all dbg 1 w2 = Done (Some it, w3)" "scannable ?R w3" "scanning w3 0 [] it w3"
      "w_conn w3 = w_conn w2" "w_os w3 = w_os w2" "w_heap w3 = h_bump (w_heap w2)"
    by auto
  have hw: "heap_ok (w_heap w2)" "plenty (w_heap w2)" using w2(2) by (simp_all add: settled_def client_ok_def)
  have eq: "w3 = w2\<lparr>w_heap := h_bump (w_heap w2), w_os := w_os w2\<rparr>" using it(4-6) by simp
  have set3: "settled test_path tid w3" unfolding eq by (rule settled_step [OF w2(2)]) (use hw in simp_all)
  from next_record [OF it(2,3), of foo bar_mark "[(hello, world_mark)]" dbg] obtain it1 w4 j rs where
    n1: "logdb_iter_next dbg it w3 = Done (1, it1, w4)" "at_record w3 j foo bar_mark rs it1 w4" "j \<le> 1"
      "rs @ concat (drop j ?R) = [(hello, world_mark)]"
    by auto
  have "0 < j" using n1(2) by (simp add: at_record_def)
  then have j: "j = 1" using n1(3) by simp
  then have "rs = [(hello, world_mark)]" using n1(4) by simp
  with skip_to_next [OF it(2), of j foo bar_mark hello world_mark "[]" it1 w4 dbg] n1(2) obtain it2 w5 where
    n2: "logdb_iter_next dbg it1 w4 = Done (1, it2, w5)" "at_record w3 j hello world_mark [] it2 w5"
    by blast
  have "\<not> test_env (w_os w3)" using o(4) w1(4) w2(3) it(5) by (simp add: same_env_def world_of_def)
  from check_record_passes [OF set3 this it(2) n2(2), of dbg 40] len j obtain p' where
    "check_record dbg tid 40 hello world_mark it2 w5 = Done (0, p')" "untouched p'"
    by auto
  then show ?thesis
    using o(1) w1(1) w2(1) it(1) n1(1) n2(1) by (simp add: test_Put1_def p)
qed

text \<open>A database that has been closed: its log is behind the sections, the log file is gone.\<close>

definition at_rest :: "string \<Rightarrow> nat \<Rightarrow> byte list \<Rightarrow> os \<Rightarrow> bool" where
  "at_rest path i M s \<longleftrightarrow>
     dir s path = Some i \<and> i < next_ino s \<and> log_in (inode s i) M \<and> take 6 (inode s i) = logdb_header \<and>
     length (inode s i) < 2 ^ 62 \<and> log_ok M \<and> data_present M (inode s i) \<and> 0 \<le> next_fd s \<and>
     dir s (path @ LOGDB_LOG_FILE_SUFFIX) = None \<and> calm s \<and> other_locks s = [] \<and> (\<forall>i. other_flock s i = L_None) \<and> \<not> pwrite_appends s"

lemma close_rests:
  assumes "settled path tid w" "conn \<noteq> 0" "length (db_file (w_conn w) (w_os w)) < 2 ^ 61"
  shows "\<exists>w1 i M. logdb_close dbg tid conn w = Done (0, w1) \<and> w_heap w1 = w_heap w \<and> at_rest path i M (w_os w1) \<and>
     db_sections M (inode (w_os w1) i) = strip (\<lambda>S. S = []) (sections_of w)"
proof -
  have c: "calm (w_os w)" "other_locks (w_os w) = []" "\<forall>i. other_flock (w_os w) i = L_None" "\<not> pwrite_appends (w_os w)"
    using assms(1) by (simp_all add: settled_def client_ok_def ready_def conn_ok_def)
  from close_leaves [OF assms, of dbg] obtain w1 i M where
    w1: "logdb_close dbg tid conn w = Done (0, w1)" "w_heap w1 = w_heap w" "same_env (w_os w) (w_os w1)"
      "dir (w_os w1) path = Some i" "i < next_ino (w_os w1)" "log_in (inode (w_os w1) i) M" "take 6 (inode (w_os w1) i) = logdb_header"
      "length (inode (w_os w1) i) < 2 ^ 62" "log_ok M" "data_present M (inode (w_os w1) i)" "0 \<le> next_fd (w_os w1)"
      "dir (w_os w1) (path @ LOGDB_LOG_FILE_SUFFIX) = None" "db_sections M (inode (w_os w1) i) = strip (\<lambda>S. S = []) (sections_of w)"
    by auto
  have "at_rest path i M (w_os w1)"
    unfolding at_rest_def using w1(4-12) same_env_calm [OF w1(3) c(1)] w1(3) c(2-4) by (simp add: same_env_def)
  with w1(1,2,13) show ?thesis by blast
qed

lemma record_left:
  assumes "untouched (h, s)"
  shows "\<exists>h' s' i M. test_LogRecovery (Suc f) dbg tid (h, s) = recover_record dbg tid (h', s') \<and> at_rest test_path i M s' \<and>
     db_sections M (inode s' i) = [record_bytes foo bar_mark] \<and> heap_ok h' \<and> plenty h'"
proof -
  obtain c s1 where o: "logdb_open dbg (Some test_path) LOGDB_OPEN_CREATE s = Done (Some c, s1)"
    "settled test_path tid (world_of (h, s1) c)" "sections_of (world_of (h, s1) c) = []" "length (db_file c s1) \<le> 4294967302"
    using test_open [OF assms, of dbg tid] by blast
  let ?w = "world_of (h, s1) c"
  have len: "8 + length foo + length bar_mark < 65536" by (simp add: literals)
  have w: "w_conn ?w = c" "w_os ?w = s1" by (simp_all add: world_of_def)
  from put_literals_settled [OF o(2) len, of f dbg] o(3,4) obtain w1 where
    w1: "\<And>n b rest. put_literals (Suc f) dbg tid n b foo bar_mark ?w rest = rest w1" "settled test_path tid w1"
      "extends [] (record_bytes foo bar_mark) (sections_of w1)" "length (db_file (w_conn w1) (w_os w1)) \<le> 4294967302"
    unfolding w by auto
  have S1: "sections_of w1 = [record_bytes foo bar_mark]" using w1(3) by (simp add: extends_def)
  have "length (db_file (w_conn w1) (w_os w1)) < 2 ^ 61" using w1(4) by simp
  from close_rests [OF w1(2) _ this, of 1 dbg] obtain w2 i M where
    w2: "logdb_close dbg tid 1 w1 = Done (0, w2)" "w_heap w2 = w_heap w1" "at_rest test_path i M (w_os w2)"
      "db_sections M (inode (w_os w2) i) = strip (\<lambda>S. S = []) (sections_of w1)"
    by auto
  have "length (record_bytes foo bar_mark) = 15" by (simp add: record_length literals)
  then have "record_bytes foo bar_mark \<noteq> []" by auto
  then have "strip (\<lambda>S. S = []) [record_bytes foo bar_mark] = [record_bytes foo bar_mark]"
    using strip_simps(2) [of "\<lambda>S. S = []" "[]" "record_bytes foo bar_mark"] by simp
  moreover have "heap_ok (w_heap w1)" "plenty (w_heap w1)" using w1(2) by (simp_all add: settled_def client_ok_def)
  ultimately show ?thesis
    using o(1) w1(1) w2 by (intro exI [of _ "w_heap w2"] exI [of _ "w_os w2"] exI [of _ i] exI [of _ M])
      (simp add: test_LogRecovery_def process_of_def S1)
qed

lemma read_back:
  assumes set: "settled test_path tid w" and env: "\<not> test_env (w_os w)" and S: "sections_of w = [record_bytes foo bar_mark]"
  shows "\<exists>it w1 it1 w2 p'. logdb_iter_all dbg 1 w = Done (Some it, w1) \<and> logdb_iter_next dbg it w1 = Done (1, it1, w2) \<and>
     check_record dbg tid n foo bar_mark it1 w2 = Done (0, p') \<and> untouched p'"
proof -
  let ?R = "[[(foo, bar_mark)]]"
  have "sections_of w = map records_bytes ?R" by (simp add: S records_bytes_def)
  then have "scannable ?R w" using settled_scannable [OF set] by (simp add: literals)
  from iter_all_starts [OF this, of 1 dbg] obtain it w1 where
    it: "logdb_iter_all dbg 1 w = Done (Some it, w1)" "scannable ?R w1" "scanning w1 0 [] it w1"
      "w_conn w1 = w_conn w" "w_os w1 = w_os w" "w_heap w1 = h_bump (w_heap w)"
    by auto
  have hw: "heap_ok (w_heap w)" "plenty (w_heap w)" using set by (simp_all add: settled_def client_ok_def)
  have eq: "w1 = w\<lparr>w_heap := h_bump (w_heap w), w_os := w_os w\<rparr>" using it(4-6) by simp
  have set1: "settled test_path tid w1" unfolding eq by (rule settled_step [OF set]) (use hw in simp_all)
  from next_record [OF it(2,3), of foo bar_mark "[]" dbg] obtain it1 w2 j rs where
    n1: "logdb_iter_next dbg it w1 = Done (1, it1, w2)" "at_record w1 j foo bar_mark rs it1 w2" "j \<le> length ?R" "rs @ concat (drop j ?R) = []"
    by auto
  have "\<not> test_env (w_os w1)" using env it(5) by simp
  from check_record_passes [OF set1 this it(2) n1(2-4), of dbg n] it(1) n1(1) show ?thesis by (auto simp: literals)
qed

lemma setenv_quiet: "calm s \<Longrightarrow> sys_setenv b s = (0, (popped s)\<lparr>test_env := b\<rparr>)"
  using pass_calls [OF calm_quiet] by (simp add: sys_setenv_def)

lemma at_rest_env: "at_rest path i M s \<Longrightarrow> at_rest path i M ((popped s)\<lparr>test_env := b\<rparr>)"
  using frame_calm [OF frame_steps(1), of s] by (simp add: at_rest_def calm_def quiet_def)

text \<open>In a debug build the call fails where the variable says, and the next one repairs the database.\<close>

lemma recover_record_passes:
  assumes rest: "at_rest test_path i M s" and S: "db_sections M (inode s i) = [record_bytes foo bar_mark]" and h: "heap_ok h" "plenty h"
  shows "\<exists>p'. recover_record True tid (h, s) = Done (0, p') \<and> untouched p'"
proof -
  let ?s = "(popped s)\<lparr>test_env := True\<rparr>"
  have r: "at_rest test_path i M ?s" "calm s" using at_rest_env [OF rest] rest by (simp_all add: at_rest_def)
  then have a: "dir ?s test_path = Some i" "i < next_ino ?s" "log_in (inode ?s i) M" "take 6 (inode ?s i) = logdb_header" "0 \<le> next_fd ?s"
    "quiet ?s" "dir ?s (test_path @ LOGDB_LOG_FILE_SUFFIX) = None" "\<forall>i. other_flock ?s i = L_None" "\<not> pwrite_appends ?s" "test_env ?s"
    using calm_quiet by (simp_all add: at_rest_def)
  from logdb_open_interrupted [OF a, of LOGDB_OPEN_EXISTING] obtain s1 t J where
    o: "logdb_open True (Some test_path) LOGDB_OPEN_EXISTING ?s = Done (None, s1)" "take 6 J \<noteq> logdb_log_header" "s1 = left_behind test_path J t"
      "same_env ?s t" "dir t = dir ?s" "inode t i = inode ?s i" "next_ino ?s < next_ino t" "next_fd ?s \<le> next_fd t"
    by blast
  let ?t = "t\<lparr>test_env := False\<rparr>"
  have e: "s1\<lparr>test_env := False\<rparr> = left_behind test_path J ?t" by (simp add: o(3) left_behind_def)
  have "calm t" by (rule same_env_calm [OF o(4)]) (use r(1) in \<open>simp add: at_rest_def\<close>)
  then have c: "calm ?t" by (simp add: calm_def quiet_def)
  have b: "dir ?t test_path = Some i" "i < next_ino ?t" "log_in (inode ?t i) M" "take 6 (inode ?t i) = logdb_header" "length (inode ?t i) < 2 ^ 62"
    "log_ok M" "data_present M (inode ?t i)" "0 \<le> next_fd ?t" "other_locks ?t = []" "\<forall>i. other_flock ?t i = L_None" "\<not> pwrite_appends ?t"
    "\<not> (True \<and> test_env ?t)"
    using r(1) o(4-8) by (auto simp: at_rest_def same_env_def)
  from open_left_behind [OF b(1-7) o(2) b(8) c b(9-12) h, of LOGDB_OPEN_EXISTING tid] obtain c' s2 where
    o2: "logdb_open True (Some test_path) LOGDB_OPEN_EXISTING (left_behind test_path J ?t) = Done (Some c', s2)"
      "settled test_path tid (world_of (h, s2) c')" "sections_of (world_of (h, s2) c') = db_sections M (inode ?t i)" "same_env ?t s2"
    by (auto simp: world_of_def)
  have "\<not> test_env (w_os (world_of (h, s2) c'))" using o2(4) by (simp add: same_env_def world_of_def)
  moreover have "sections_of (world_of (h, s2) c') = [record_bytes foo bar_mark]" using o2(3) o(6) S by simp
  ultimately obtain it w1 it1 w2 p' where
    "logdb_iter_all True 1 (world_of (h, s2) c') = Done (Some it, w1)" "logdb_iter_next True it w1 = Done (1, it1, w2)"
      "check_record True tid 61 foo bar_mark it1 w2 = Done (0, p')" "untouched p'"
    using read_back [OF o2(2), of True 61] by blast
  then show ?thesis
    using setenv_quiet [OF r(2), of True] o(1) o2(1) by (simp add: recover_record_def sys_unsetenv_def e)
qed

text \<open>A release build does not look at the variable: the call that is meant to fail succeeds.\<close>

lemma recover_record_fails:
  assumes rest: "at_rest test_path i M s"
  shows "\<exists>s'. recover_record False tid (h, s) = Done (56, h, s')"
proof -
  let ?s = "(popped s)\<lparr>test_env := True\<rparr>"
  have r: "at_rest test_path i M ?s" "calm s" using at_rest_env [OF rest] rest by (simp_all add: at_rest_def)
  then have a: "quiet ?s" "dir ?s test_path = Some i" "log_in (inode ?s i) M" "take 6 (inode ?s i) = logdb_header"
    "dir ?s (test_path @ LOGDB_LOG_FILE_SUFFIX) = None" "\<not> pwrite_appends ?s" "\<not> (False \<and> test_env ?s)" "0 \<le> next_fd ?s"
    "\<forall>i. other_flock ?s i = L_None"
    using calm_quiet by (simp_all add: at_rest_def)
  from logdb_open_quiet [OF a, of LOGDB_OPEN_EXISTING] show ?thesis
    using setenv_quiet [OF r(2), of True] by (auto simp: recover_record_def)
qed

section \<open>All tests\<close>

lemma first_four_pass:
  assumes "untouched (new_heap, s)"
  shows "\<exists>p. tests_main (Suc f) dbg tid s = test_LogRecovery (Suc f) dbg tid p \<and> untouched p"
proof -
  obtain h where b: "test_Buffers dbg new_heap = Done (0, h)" "heap_ok h" "plenty h" using test_Buffers_passes by blast
  then have "untouched (h, s)" using assms by (simp add: untouched_def)
  then obtain p where o: "test_OpenCloseConnection dbg tid (h, s) = Done (0, p)" "untouched p"
    using test_OpenCloseConnection_passes by blast
  obtain q where t: "test_TransactionBeginRollback dbg tid p = Done (0, q)" "untouched q"
    using test_TransactionBeginRollback_passes [OF o(2)] by blast
  obtain r where u: "test_Put1 (Suc f) dbg tid q = Done (0, r)" "untouched r" using test_Put1_passes [OF t(2)] by blast
  have "obind m (\<lambda>(r5, p). Done (r5, p)) = m" for m :: "(int \<times> process) outcome" by (cases m) auto
  then show ?thesis using b(1) o(1) t(1) u by (intro exI [of _ r]) (simp add: tests_main_def)
qed

text \<open>C20: The tests of the repository, run one after the other by their driver on a system in which nothing fails and
  there is no file \<open>temp.logdb\<close>. In a debug build all five pass: the driver returns 0 and leaves no files behind.
  In a release build it returns 56: the last test sets a variable to make an open fail, and asserts that it
  has failed, but a release build of the library ignores the variable.\<close>

theorem tests_pass:
  assumes "calm s" "other_locks s = []" "dir s test_path = None" "dir s (test_path @ LOGDB_LOG_FILE_SUFFIX) = None"
    and "\<not> pwrite_appends s" "\<not> test_env s" "0 \<le> next_fd s" "\<forall>i. other_flock s i = L_None"
  shows "(\<exists>h s'. tests_main (Suc f) True tid s = Done (0, h, s') \<and> dir s' test_path = None \<and> dir s' (test_path @ LOGDB_LOG_FILE_SUFFIX) = None) \<and>
     (\<exists>h s'. tests_main (Suc f) False tid s = Done (56, h, s'))"
proof -
  have "heap_ok new_heap" "plenty new_heap" by (simp_all add: new_heap_def heap_ok_def plenty_def)
  then have u: "untouched (new_heap, s)" using assms by (simp add: untouched_def)
  obtain h t where p: "tests_main (Suc f) True tid s = test_LogRecovery (Suc f) True tid (h, t)" "untouched (h, t)"
    using first_four_pass [OF u, of f True tid] by fastforce
  obtain g v where q: "tests_main (Suc f) False tid s = test_LogRecovery (Suc f) False tid (g, v)" "untouched (g, v)"
    using first_four_pass [OF u, of f False tid] by fastforce
  obtain h' s' i M where r: "test_LogRecovery (Suc f) True tid (h, t) = recover_record True tid (h', s')" "at_rest test_path i M s'"
    "db_sections M (inode s' i) = [record_bytes foo bar_mark]" "heap_ok h'" "plenty h'"
    using record_left [OF p(2)] by blast
  obtain g' v' j N where w: "test_LogRecovery (Suc f) False tid (g, v) = recover_record False tid (g', v')" "at_rest test_path j N v'"
    using record_left [OF q(2)] by blast
  from recover_record_passes [OF r(2-5), of tid] recover_record_fails [OF w(2), of tid g'] show ?thesis
    unfolding p(1) q(1) r(1) w(1) by (auto simp: untouched_def)
qed

theorem tests_pass_witness:
  "(\<exists>h s'. tests_main 1 True 0 ((ex_os [] [] [Short 3, Full])\<lparr>dir := (\<lambda>_. None)\<rparr>) = Done (0, h, s') \<and>
      dir s' test_path = None \<and> dir s' (test_path @ LOGDB_LOG_FILE_SUFFIX) = None) \<and>
   (\<exists>h s'. tests_main 1 False 0 ((ex_os [] [] [Short 3, Full])\<lparr>dir := (\<lambda>_. None)\<rparr>) = Done (56, h, s'))"
  using tests_pass [of "(ex_os [] [] [Short 3, Full])\<lparr>dir := (\<lambda>_. None)\<rparr>" 0 0] by (simp add: ex_os_def calm_def quiet_def)

end
