(* ===== verification/Threads.thy ===== *)
theory Threads
  imports Lock
begin

text \<open>
  The lock functions of \<^verbatim>\<open>src/logdb_log.c\<close> run by several threads at once: every load, compare and
  exchange, addition, allocation and \<open>fcntl\<close> call is a step of its own, and the steps of different
  threads interleave freely. The atomic operations of C11 the code uses are sequentially consistent,
  and so is this model. Theory Lock runs the same functions one call at a time; theory Alone
  relates the two.
\<close>

section \<open>Shared memory\<close>

text \<open>The list of blocks with its pointers. The cell 0 is \<open>log->lock\<close>, the cell \<open>a\<close> is \<open>a->next\<close>.\<close>

record lock_node =
  n_block :: logdb_log_lock_t
  n_next :: ptr

record lock_mem =
  first :: ptr
  nodes :: "ptr \<Rightarrow> lock_node option"

definition cell :: "lock_mem \<Rightarrow> ptr \<Rightarrow> ptr option" where
  "cell m dest = (if dest = 0 then Some (first m) else map_option n_next (nodes m dest))"

definition set_cell :: "lock_mem \<Rightarrow> ptr \<Rightarrow> ptr \<Rightarrow> lock_mem" where
  "set_cell m dest p =
     (if dest = 0 then m\<lparr>first := p\<rparr>
      else m\<lparr>nodes := (nodes m)(dest := map_option (n_next_update (\<lambda>_. p)) (nodes m dest))\<rparr>)"

text \<open>The counter of an index in a block; None when the index is outside of the block.\<close>

definition counter :: "lock_mem \<Rightarrow> ptr \<Rightarrow> 32 word \<Rightarrow> int option" where
  "counter m p i =
     (case nodes m p of
        None \<Rightarrow> None
      | Some n \<Rightarrow> let k = lock_slot (n_block n) i in
                  if k < length (locks (n_block n)) then Some (locks (n_block n) ! k) else None)"

definition set_counter :: "lock_mem \<Rightarrow> ptr \<Rightarrow> 32 word \<Rightarrow> int \<Rightarrow> lock_mem" where
  "set_counter m p i v =
     m\<lparr>nodes := (nodes m)(p := map_option (\<lambda>n. n\<lparr>n_block := (n_block n)\<lparr>locks :=
        (locks (n_block n))[lock_slot (n_block n) i := v]\<rparr>\<rparr>) (nodes m p))\<rparr>"

section \<open>The steps of a call\<close>

text \<open>
  Where a thread is inside \<open>logdb_log_lock\<close> or \<open>logdb_log_unlock\<close>, with the local variables that are
  still needed. \<open>Load\<close> to \<open>Set_lock\<close> belong to \<open>logdb_log_lock\<close>, \<open>Clear_lock\<close> is the start of
  \<open>logdb_log_unlock\<close>, and the two \<open>Inproc\<close> points are \<open>logdb_log_inproc_unlock\<close>, called after a
  failure (True) or by \<open>logdb_log_unlock\<close> (False).
\<close>

datatype pc =
    Load ptr                  \<comment> \<open>\<open>lock = atomic_load (dest)\<close>\<close>
  | Tryagain1 ptr ptr         \<comment> \<open>the label, with \<open>dest\<close> and \<open>lock\<close>\<close>
  | Swap_cell ptr ptr ptr     \<comment> \<open>the exchange of \<open>dest\<close>, with \<open>lock\<close> and \<open>newlock\<close>\<close>
  | Read_value ptr            \<comment> \<open>\<open>value = lock->locks[lockindex]\<close>\<close>
  | Tryagain2 ptr int         \<comment> \<open>the label, with \<open>lock\<close> and \<open>value\<close>\<close>
  | Set_lock
  | Clear_lock
  | Inproc_load bool
  | Inproc_walk bool ptr
  | Returned int
  | Unlocked
  | Crashed fault

text \<open>
  One step of a call for \<open>index\<close> and \<open>type\<close> on the log with descriptor \<open>fd\<close>. \<open>newlock\<close> is the address
  that \<open>calloc\<close> gives out if it succeeds; \<open>spurious\<close> makes a weak compare and exchange fail.
\<close>

fun pc_step :: "int \<Rightarrow> 32 word \<Rightarrow> logdb_log_lock_type \<Rightarrow> ptr \<Rightarrow> bool \<Rightarrow> pc \<Rightarrow> lock_mem \<times> os \<Rightarrow> pc \<times> lock_mem \<times> os" where
  "pc_step fd index type newlock spurious (Load dest) (m, s) =
     (case cell m dest of
        None \<Rightarrow> (Crashed (BadPtr dest), m, s)
      | Some lock \<Rightarrow> (Tryagain1 dest lock, m, s))"
| "pc_step fd index type newlock spurious (Tryagain1 dest lock) (m, s) =
     (let insert = (case sys_malloc s of (ok, s) \<Rightarrow>
        if ok then (Swap_cell dest lock newlock,
                    m\<lparr>nodes := (nodes m)(newlock \<mapsto> \<lparr>n_block = new_block index, n_next = lock\<rparr>)\<rparr>, s)
        else (Returned (-1), m, s))
      in if lock = 0 then insert
         else case nodes m lock of
           None \<Rightarrow> (Crashed (BadPtr lock), m, s)
         | Some n \<Rightarrow>
             if startindex (n_block n) > index then insert
             else if index - startindex (n_block n) > 127 then (Load lock, m, s)
             else (Read_value lock, m, s))"
| "pc_step fd index type newlock spurious (Swap_cell dest lock new) (m, s) =
     (case cell m dest of
        None \<Rightarrow> (Crashed (BadPtr dest), m, s)
      | Some p \<Rightarrow>
          if p = lock then (Read_value new, set_cell m dest new, s)
          else (Tryagain1 dest p, m\<lparr>nodes := (nodes m)(new := None)\<rparr>, s))"
| "pc_step fd index type newlock spurious (Read_value lock) (m, s) =
     (case counter m lock index of
        None \<Rightarrow> (Crashed OutOfBounds, m, s)
      | Some value \<Rightarrow> (Tryagain2 lock value, m, s))"
| "pc_step fd index type newlock spurious (Tryagain2 lock value) (m, s) =
     (let exchange = (\<lambda>v. case counter m lock index of
        None \<Rightarrow> (Crashed OutOfBounds, m, s)
      | Some current \<Rightarrow>
          if current = value \<and> \<not> spurious then (Set_lock, set_counter m lock index v, s)
          else (Tryagain2 lock current, m, s))
      in if type = LOCK_READ \<and> value \<ge> 0 then exchange (value + 1)
         else if type = LOCK_WRITE \<and> value = 0 then exchange (-1)
         else (Returned (-2), m, s))"
| "pc_step fd index type newlock spurious Set_lock (m, s) =
     (case sys_fcntl_setlk fd (if type = LOCK_READ then L_Shared else L_Exclusive)
             (logdb_log_offset index) sizeof_log_entry s of (r, s) \<Rightarrow>
      (if r = -1 then Inproc_load True else Returned 0, m, s))"
| "pc_step fd index type newlock spurious Clear_lock (m, s) =
     (case sys_fcntl_setlk fd L_None (logdb_log_offset index) sizeof_log_entry s of (_, s) \<Rightarrow>
      (Inproc_load False, m, s))"
| "pc_step fd index type newlock spurious (Inproc_load failed) (m, s) = (Inproc_walk failed (first m), m, s)"
| "pc_step fd index type newlock spurious (Inproc_walk failed lock) (m, s) =
     (case nodes m lock of
        None \<Rightarrow> (Crashed (BadPtr lock), m, s)
      | Some n \<Rightarrow>
          if startindex (n_block n) + 127 < index then (Inproc_walk failed (n_next n), m, s)
          else if type = LOCK_NONE then (Crashed Abort, m, s)
          else case counter m lock index of
            None \<Rightarrow> (Crashed OutOfBounds, m, s)
          | Some v \<Rightarrow> (if failed then Returned (-3) else Unlocked,
                       set_counter m lock index (if type = LOCK_READ then v - 1 else v + 1), s))"
| "pc_step fd index type newlock spurious pc (m, s) = (pc, m, s)"

section \<open>The threads of a process\<close>

datatype thread = Idle | Call "32 word" logdb_log_lock_type pc

text \<open>\<open>held\<close> are the locks that were given out and not given back yet.\<close>

record process =
  p_mem :: lock_mem
  p_sys :: os
  threads :: "thread list"
  held :: holders

text \<open>The list of blocks from the address \<open>p\<close> on.\<close>

inductive links :: "(ptr \<Rightarrow> lock_node option) \<Rightarrow> ptr \<Rightarrow> ptr list \<Rightarrow> bool" where
  links_end: "links N 0 []"
| links_node: "\<lbrakk>p \<noteq> 0; N p = Some n; links N (n_next n) ps\<rbrakk> \<Longrightarrow> links N p (p # ps)"

inductive_simps links_Nil [simp]: "links N p []"
inductive_simps links_Cons: "links N p (q # ps)"

definition block_at :: "lock_mem \<Rightarrow> ptr \<Rightarrow> logdb_log_lock_t" where
  "block_at m p = n_block (the (nodes m p))"

text \<open>
  The sections at which blocks may start: their blocks are apart from each other and end before the
  index wraps. A section may be asked for if it is one of them or if a block holds it already; without
  such a discipline the locks do not work (\<open>lower_index_hides_block\<close> in theory Lock).
\<close>

definition spaced :: "32 word set \<Rightarrow> bool" where
  "spaced S \<longleftrightarrow> (\<forall>i \<in> S. unat i + 127 < 4294967296 \<and> (\<forall>j \<in> S. i < j \<longrightarrow> unat i + 127 < unat j))"

definition may_ask :: "32 word set \<Rightarrow> lock_mem \<Rightarrow> 32 word \<Rightarrow> bool" where
  "may_ask S m i \<longleftrightarrow> i \<in> S \<or> (\<exists>ps. links (nodes m) (first m) ps \<and> (\<exists>p \<in> set ps. covers (block_at m p) i))"

text \<open>No lock of another process conflicts with one of this process.\<close>

definition within :: "region \<Rightarrow> nat \<Rightarrow> bool" where
  "within r b \<longleftrightarrow> r_start r \<le> b \<and> (r_len r = 0 \<or> b < r_start r + r_len r)"

definition compatible :: "os \<Rightarrow> bool" where
  "compatible s \<longleftrightarrow> (\<forall>r \<in> set (other_locks s). \<forall>b. within r b \<longrightarrow> \<not> conflicts r (my_locks s (r_ino r) b))"

text \<open>
  What one thread, or the world outside of the process, may do next. Other processes and other system
  calls of this one change the system in any way that keeps the descriptors and the record locks of this
  process, and the kernel gives no other process a lock that conflicts with them.
\<close>

inductive thread_step :: "int \<Rightarrow> 32 word set \<Rightarrow> process \<Rightarrow> process \<Rightarrow> bool" for fd S where
  create: "thread_step fd S x (x\<lparr>threads := threads x @ [Idle]\<rparr>)"
| call_lock: "\<lbrakk>k < length (threads x); threads x ! k = Idle; t \<noteq> LOCK_NONE; may_ask S (p_mem x) i\<rbrakk> \<Longrightarrow>
    thread_step fd S x (x\<lparr>threads := (threads x)[k := Call i t (Load 0)]\<rparr>)"
| call_unlock: "\<lbrakk>k < length (threads x); threads x ! k = Idle; (i, t) \<in> set (held x)\<rbrakk> \<Longrightarrow>
    thread_step fd S x (x\<lparr>threads := (threads x)[k := Call i t Clear_lock], held := remove1 (i, t) (held x)\<rparr>)"
| run: "\<lbrakk>k < length (threads x); threads x ! k = Call i t pc; a \<noteq> 0; nodes (p_mem x) a = None;
    pc_step fd i t a spurious pc (p_mem x, p_sys x) = (pc', m', s')\<rbrakk> \<Longrightarrow>
    thread_step fd S x (x\<lparr>p_mem := m', p_sys := s', threads := (threads x)[k := Call i t pc']\<rparr>)"
| return_lock: "\<lbrakk>k < length (threads x); threads x ! k = Call i t (Returned r)\<rbrakk> \<Longrightarrow>
    thread_step fd S x (x\<lparr>threads := (threads x)[k := Idle], held := (if r = 0 then (i, t) # held x else held x)\<rparr>)"
| return_unlock: "\<lbrakk>k < length (threads x); threads x ! k = Call i t Unlocked\<rbrakk> \<Longrightarrow>
    thread_step fd S x (x\<lparr>threads := (threads x)[k := Idle]\<rparr>)"
| others: "\<lbrakk>fds s' = fds (p_sys x); my_locks s' = my_locks (p_sys x); compatible s'\<rbrakk> \<Longrightarrow>
    thread_step fd S x (x\<lparr>p_sys := s'\<rparr>)"

inductive_cases thread_stepE: "thread_step fd S x y"

text \<open>A process that has just opened its log.\<close>

definition fresh_process :: "os \<Rightarrow> process" where
  "fresh_process s = \<lparr>p_mem = \<lparr>first = 0, nodes = (\<lambda>_. None)\<rparr>, p_sys = s, threads = [], held = []\<rparr>"

section \<open>Lists of linked blocks\<close>

lemma links_unique: "links N p ps \<Longrightarrow> links N p qs \<Longrightarrow> ps = qs"
proof (induction ps arbitrary: p qs)
  case (Cons q ps)
  then show ?case by (cases qs) (auto simp: links_Cons)
next
  case Nil
  then show ?case by (cases qs) (auto simp: links_Cons)
qed

lemma links_member: "links N p ps \<Longrightarrow> q \<in> set ps \<Longrightarrow> q \<noteq> 0 \<and> (\<exists>n. N q = Some n)"
  by (induction rule: links.induct) auto

lemma links_frame:
  "links N p ps \<Longrightarrow> (\<And>q. q \<in> set ps \<Longrightarrow> map_option n_next (N' q) = map_option n_next (N q)) \<Longrightarrow> links N' p ps"
proof (induction rule: links.induct)
  case (links_node p N n ps)
  from links_node.prems [of p] obtain n' where n': "N' p = Some n'" "n_next n' = n_next n"
    using links_node.hyps(2) by auto
  from links_node have "links N' (n_next n) ps" by simp
  with links_node.hyps(1) n' show ?case by (simp add: links_Cons)
qed (rule links.links_end)

lemma links_head: "links N p ps \<Longrightarrow> p = 0 \<and> ps = [] \<or> p \<in> set ps"
  by (auto elim: links.cases)

lemma links_append:
  "links N p (xs @ ys) \<Longrightarrow> xs \<noteq> [] \<Longrightarrow> links N (n_next (the (N (last xs)))) ys"
proof (induction xs arbitrary: p)
  case (Cons x xs)
  then show ?case by (cases xs) (auto simp: links_Cons)
qed simp

lemma links_distinct: "links N p ps \<Longrightarrow> distinct ps"
proof (rule ccontr)
  assume l: "links N p ps" and "\<not> distinct ps"
  then obtain q xs ys zs where ps: "ps = xs @ [q] @ ys @ [q] @ zs" using not_distinct_decomp by blast
  have tail: "links N q (q # ws)" if w: "links N p (vs @ q # ws)" for vs ws
  proof (cases vs rule: rev_cases)
    case Nil
    then show ?thesis using w by (simp add: links_Cons)
  next
    case (snoc us u)
    have "links N (n_next (the (N u))) (q # ws)" using links_append [of N p vs "q # ws"] w snoc by simp
    then show ?thesis by (simp add: links_Cons)
  qed
  have "links N q (q # ys @ [q] @ zs)" "links N q (q # zs)"
    using tail [of xs "ys @ [q] @ zs"] tail [of "xs @ [q] @ ys" zs] l ps by simp_all
  then have "q # ys @ [q] @ zs = q # zs" by (rule links_unique)
  then show False by (metis append_Cons append_self_conv2 list.inject not_Cons_self2 append.assoc append_Nil same_append_eq append_is_Nil_conv)
qed

lemma links_next:
  assumes "links N p ps" "q \<in> set ps" "N q = Some n"
  shows "n_next n = 0 \<or> n_next n \<in> set ps"
proof -
  obtain xs ys where ps: "ps = xs @ q # ys" using assms(2) by (auto simp: in_set_conv_decomp)
  then have "links N (n_next n) ys" using links_append [of N p "xs @ [q]" ys] assms by simp
  then show ?thesis using links_head ps by fastforce
qed

text \<open>A node that points to the value of a cell, put into the cell.\<close>

lemma links_insert:
  assumes "links (nodes m) (first m) (xs @ ys)" "distinct (xs @ ys)" "dest = (if xs = [] then 0 else last xs)"
    and "cell m dest = Some p" "nodes m a = Some n" "n_next n = p" "a \<noteq> 0" "a \<notin> set (xs @ ys)"
  shows "links (nodes m) p ys \<and> links (nodes (set_cell m dest a)) (first (set_cell m dest a)) (xs @ a # ys)"
proof (cases xs rule: rev_cases)
  case Nil
  with assms show ?thesis by (auto simp: cell_def set_cell_def intro: links_node)
next
  case (snoc zs z)
  then have z: "dest = z" using assms(3) by simp
  have "z \<noteq> 0" using links_member [OF assms(1), of z] snoc by simp
  let ?N = "nodes (set_cell m z a)"
  have N: "?N q = (if q = z then map_option (n_next_update (\<lambda>_. a)) (nodes m q) else nodes m q)" for q
    using \<open>z \<noteq> 0\<close> by (simp add: set_cell_def)
  obtain nd where nd: "nodes m z = Some nd" "n_next nd = p"
    using assms(4) z \<open>z \<noteq> 0\<close> by (auto simp: cell_def)
  have ys: "links (nodes m) p ys"
    using links_append [of "nodes m" "first m" xs ys] assms(1) snoc nd by simp
  have ne: "q \<noteq> z" if "q \<in> set zs \<union> set ys" for q using assms(2) snoc that by auto
  have ys': "links ?N p ys" by (rule links_frame [OF ys]) (use ne N in simp)
  have pre: "links ?N q (ws @ z # a # ys)" if "links (nodes m) q (ws @ z # ys)" "set ws \<subseteq> set zs" for q ws
    using that
  proof (induction ws arbitrary: q rule: list.induct)
    case Nil
    have "a \<noteq> z" using assms(8) snoc by auto
    then have "?N a = Some n" "?N z = Some (nd\<lparr>n_next := a\<rparr>)" using N assms(5) nd(1) by simp_all
    moreover have "q = z" using Nil by (simp add: links_Cons)
    ultimately show ?case using \<open>z \<noteq> 0\<close> assms(6,7) ys' by (simp add: links_Cons)
  next
    case (Cons x ws)
    then show ?case using ne [of x] N by (auto simp: links_Cons)
  qed
  have "first (set_cell m z a) = first m" using \<open>z \<noteq> 0\<close> by (simp add: set_cell_def)
  then show ?thesis using pre [of "first m" zs] assms(1) snoc ys z by simp
qed

section \<open>Inserting a block\<close>

lemma blocks_ok_append:
  "blocks_ok (xs @ ys) \<longleftrightarrow> blocks_ok xs \<and> blocks_ok ys \<and>
     (\<forall>b \<in> set xs. \<forall>c \<in> set ys. unat (startindex b) + 127 < unat (startindex c))"
  by (induction xs) (auto simp: list_all_iff)

lemma blocks_ok_insert:
  assumes "blocks_ok (xs @ ys)" "unat i + 127 < 4294967296"
    and "\<And>b. b \<in> set xs \<Longrightarrow> unat (startindex b) + 127 < unat i" "\<And>b. b \<in> set ys \<Longrightarrow> unat i + 127 < unat (startindex b)"
  shows "blocks_ok (xs @ new_block i # ys)"
    and "lock_value (xs @ new_block i # ys) j = lock_value (xs @ ys) j"
proof -
  show ok: "blocks_ok (xs @ new_block i # ys)"
    using assms by (auto simp: blocks_ok_append list_all_iff) (auto simp: new_block_def)
  show "lock_value (xs @ new_block i # ys) j = lock_value (xs @ ys) j"
  proof (cases "covers (new_block i) j")
    case True
    then have "\<not> covers b j" if "b \<in> set (xs @ ys)" for b
      using that assms(3,4) [of b] by (auto simp: covers_nat new_block_def)
    then have none: "find (\<lambda>b. covers b j) (xs @ ys) = None" by (simp only: find_None_iff) blast
    have "lock_value (xs @ new_block i # ys) j = 0"
      using lock_value_covered [OF ok, of "length xs" j] True covers_new [OF assms(2) True] by (simp add: nth_append)
    with none show ?thesis by (simp add: lock_value_def)
  next
    case False
    have "find (\<lambda>b. covers b j) (xs @ new_block i # ys) = find (\<lambda>b. covers b j) (xs @ ys)"
      using False by (induction xs) simp_all
    then show ?thesis by (simp add: lock_value_def)
  qed
qed

section \<open>Correct lists\<close>

definition blocks :: "lock_mem \<Rightarrow> ptr list \<Rightarrow> logdb_log_lock_t list" where
  "blocks m ps = map (block_at m) ps"

lemma blocks_simps [simp]:
  "blocks m [] = []" "blocks m (p # ps) = block_at m p # blocks m ps" "blocks m (ps @ qs) = blocks m ps @ blocks m qs"
  "length (blocks m ps) = length ps"
  by (simp_all add: blocks_def)

definition mem_ok :: "32 word set \<Rightarrow> lock_mem \<Rightarrow> ptr list \<Rightarrow> bool" where
  "mem_ok S m ps \<longleftrightarrow> links (nodes m) (first m) ps \<and> distinct ps \<and> blocks_ok (blocks m ps) \<and>
     (\<forall>p \<in> set ps. startindex (block_at m p) \<in> S)"

text \<open>Memory only changes so that the listed blocks stay listed and stay where they are.\<close>

definition evolves :: "lock_mem \<Rightarrow> ptr list \<Rightarrow> lock_mem \<Rightarrow> ptr list \<Rightarrow> bool" where
  "evolves m ps m' ps' \<longleftrightarrow> set ps \<subseteq> set ps' \<and> (\<forall>p \<in> set ps. startindex (block_at m' p) = startindex (block_at m p))"

lemma evolves_refl [simp]: "evolves m ps m ps"
  by (simp add: evolves_def)

lemma mem_ok_private:
  assumes "mem_ok S m ps" "a \<notin> set ps"
  shows "mem_ok S (m\<lparr>nodes := (nodes m)(a := x)\<rparr>) ps" "evolves m ps (m\<lparr>nodes := (nodes m)(a := x)\<rparr>) ps"
    "blocks (m\<lparr>nodes := (nodes m)(a := x)\<rparr>) ps = blocks m ps"
proof -
  have at: "block_at (m\<lparr>nodes := (nodes m)(a := x)\<rparr>) p = block_at m p" if "p \<in> set ps" for p
    using assms(2) that by (auto simp: block_at_def)
  show b: "blocks (m\<lparr>nodes := (nodes m)(a := x)\<rparr>) ps = blocks m ps"
    using at by (simp add: blocks_def)
  show "evolves m ps (m\<lparr>nodes := (nodes m)(a := x)\<rparr>) ps" using at by (simp add: evolves_def)
  have "links ((nodes m)(a := x)) (first m) ps"
    by (rule links_frame [of "nodes m"]) (use assms in \<open>auto simp: mem_ok_def\<close>)
  with assms at b show "mem_ok S (m\<lparr>nodes := (nodes m)(a := x)\<rparr>) ps" by (simp add: mem_ok_def)
qed

lemma block_at_set_counter:
  "block_at (set_counter m p i v) q =
     (if q = p \<and> nodes m p \<noteq> None then (block_at m p)\<lparr>locks := (locks (block_at m p))[lock_slot (block_at m p) i := v]\<rparr>
      else block_at m q)"
  by (auto simp: block_at_def set_counter_def)

lemma set_counter_list:
  assumes "links (nodes m) (first m) ps" "k < length ps"
  shows "links (nodes (set_counter m (ps ! k) i v)) (first (set_counter m (ps ! k) i v)) ps"
    "blocks (set_counter m (ps ! k) i v) ps = set_lock (blocks m ps) k (lock_slot (blocks m ps ! k) i) v"
    "counter m (ps ! k) i = (let b = blocks m ps ! k; n = lock_slot b i in
       if n < length (locks b) then Some (locks b ! n) else None)"
proof -
  obtain n where n: "nodes m (ps ! k) = Some n" using links_member [OF assms(1), of "ps ! k"] assms(2) by auto
  show "links (nodes (set_counter m (ps ! k) i v)) (first (set_counter m (ps ! k) i v)) ps"
    using assms(1) n by (auto simp: set_counter_def intro!: links_frame [of "nodes m"])
  show "blocks (set_counter m (ps ! k) i v) ps = set_lock (blocks m ps) k (lock_slot (blocks m ps ! k) i) v"
    using assms(2) links_distinct [OF assms(1)] n
    by (auto simp: blocks_def set_lock_def block_at_set_counter nth_list_update nth_eq_iff_index_eq intro!: nth_equalityI)
  show "counter m (ps ! k) i = (let b = blocks m ps ! k; n = lock_slot b i in
       if n < length (locks b) then Some (locks b ! n) else None)"
    using n assms(2) by (simp add: counter_def blocks_def block_at_def Let_def)
qed

lemma mem_ok_set_counter:
  assumes "mem_ok S m ps" "p \<in> set ps" "covers (block_at m p) i"
  shows "mem_ok S (set_counter m p i v) ps" "evolves m ps (set_counter m p i v) ps"
    "lock_value (blocks (set_counter m p i v) ps) j = (if j = i then v else lock_value (blocks m ps) j)"
    "counter m p i = Some (lock_value (blocks m ps) i)"
proof -
  let ?m = "set_counter m p i v"
  obtain k where k: "k < length ps" "ps ! k = p" using assms(2) by (auto simp: in_set_conv_nth)
  have ok: "blocks_ok (blocks m ps)" and l: "links (nodes m) (first m) ps" using assms(1) by (simp_all add: mem_ok_def)
  have kb: "k < length (blocks m ps)" "covers (blocks m ps ! k) i" using k assms(3) by (simp_all add: blocks_def)
  note c = set_counter_list [OF l k(1), of i, unfolded k(2)]
  have start: "startindex (block_at ?m q) = startindex (block_at m q)" for q
    by (simp add: block_at_set_counter)
  show "evolves m ps ?m ps" using start by (simp add: evolves_def)
  show "mem_ok S ?m ps" using assms(1) blocks_ok_set_lock [OF ok kb(1)] start c(1,2) by (simp add: mem_ok_def)
  show "lock_value (blocks ?m ps) j = (if j = i then v else lock_value (blocks m ps) j)"
    using lock_value_set_lock [OF ok kb] c(2) by simp
  show "counter m p i = Some (lock_value (blocks m ps) i)"
    using lock_value_covered [OF ok kb] lock_slot_less [OF kb(2)] blocks_ok_nth [OF ok kb(1)] c(3) by (simp add: Let_def)
qed

lemma set_cell_block [simp]: "block_at (set_cell m dest a) q = block_at m q"
  by (cases "nodes m dest") (auto simp: block_at_def set_cell_def)

lemma mem_ok_insert:
  assumes ok: "mem_ok S m ps" and S: "spaced S" "i \<in> S \<or> (\<exists>p \<in> set ps. covers (block_at m p) i)"
    and dest: "dest = 0 \<or> dest \<in> set ps \<and> unat (startindex (block_at m dest)) + 127 < unat i" "cell m dest = Some p"
    and p: "p = 0 \<or> p \<in> set ps \<and> i < startindex (block_at m p)"
    and a: "nodes m a = Some \<lparr>n_block = new_block i, n_next = p\<rparr>" "a \<noteq> 0" "a \<notin> set ps"
  shows "\<exists>ps'. mem_ok S (set_cell m dest a) ps' \<and> evolves m ps (set_cell m dest a) ps' \<and> set ps' = insert a (set ps) \<and>
           covers (block_at (set_cell m dest a) a) i \<and>
           (\<forall>j. lock_value (blocks (set_cell m dest a) ps') j = lock_value (blocks m ps) j)"
proof -
  let ?m = "set_cell m dest a"
  have l: "links (nodes m) (first m) ps" "distinct ps" "blocks_ok (blocks m ps)"
    and starts: "\<And>q. q \<in> set ps \<Longrightarrow> startindex (block_at m q) \<in> S"
    using ok by (simp_all add: mem_ok_def)
  obtain xs ys where split: "ps = xs @ ys" "dest = (if xs = [] then 0 else last xs)"
  proof (cases "dest = 0")
    case False
    then obtain us vs where "ps = us @ dest # vs" using dest(1) by (auto simp: in_set_conv_decomp)
    then show ?thesis using that [of "us @ [dest]" vs] by simp
  qed (use that [of "[]" ps] in simp)
  have links: "links (nodes m) p ys \<and> links (nodes ?m) (first ?m) (xs @ a # ys)"
    by (rule links_insert [OF _ _ split(2) dest(2) a(1) _ a(2)]) (use l(1,2) a(3) split(1) in simp_all)
  have "q \<noteq> 0" if "q \<in> set ps" for q using links_member [OF l(1) that] by simp
  then have xy: "ps = xs @ ys" "if dest = 0 then xs = [] else xs \<noteq> [] \<and> last xs = dest"
    "links (nodes m) p ys" "links (nodes ?m) (first ?m) (xs @ a # ys)"
    using split links by (auto split: if_splits)
  have sorted: "blocks_ok (blocks m xs @ blocks m ys)" using l(3) xy(1) by (simp add: blocks_def)
  have before: "unat (startindex (block_at m q)) + 127 < unat i" if q: "q \<in> set xs" for q
  proof -
    obtain xs' where d: "xs = xs' @ [dest]"
      using xy(2) q by (cases xs rule: rev_cases) (auto split: if_splits)
    then have "dest \<noteq> 0" using xy(2) by (auto split: if_splits)
    then have lt: "unat (startindex (block_at m dest)) + 127 < unat i" using dest(1) by simp
    have "\<forall>b \<in> set xs'. unat (startindex (block_at m b)) + 127 < unat (startindex (block_at m dest))"
      using sorted d by (simp add: blocks_def blocks_ok_append)
    with d q lt show ?thesis by fastforce
  qed
  have after: "i < startindex (block_at m q)" if q: "q \<in> set ys" for q
  proof -
    obtain ys' where ys: "ys = p # ys'" "p \<noteq> 0" using xy(3) q by (auto elim: links.cases)
    have "blocks_ok (blocks m (p # ys'))" using sorted ys by (simp add: blocks_ok_append)
    then show ?thesis using q ys p by (auto simp: blocks_def list_all_iff word_less_nat_alt)
  qed
  have none: "\<not> covers (block_at m q) i" if "q \<in> set ps" for q
    using that xy(1) before [of q] after [of q] by (auto simp: covers_nat word_less_nat_alt)
  then have i: "i \<in> S" "unat i + 127 < 4294967296" using S by (auto simp: spaced_def)
  have apart: "unat i + 127 < unat (startindex (block_at m q))" if "q \<in> set ys" for q
    using S(1) i(1) starts [of q] after [OF that] xy(1) that by (auto simp: spaced_def)
  have "block_at m a = new_block i" using a(1) by (simp add: block_at_def)
  then have new: "block_at ?m a = new_block i" by simp
  have bl: "blocks ?m (xs @ a # ys) = blocks m xs @ new_block i # blocks m ys"
    using new by (simp add: blocks_def)
  note ins = blocks_ok_insert [OF sorted i(2)]
  have "blocks_ok (blocks ?m (xs @ a # ys))"
    unfolding bl by (rule ins(1)) (use before apart in \<open>auto simp: blocks_def\<close>)
  moreover have "lock_value (blocks ?m (xs @ a # ys)) j = lock_value (blocks m ps) j" for j
  proof -
    have "blocks m ps = blocks m xs @ blocks m ys" using xy(1) by (simp add: blocks_def)
    then show ?thesis unfolding bl by (simp only:) (rule ins(2), use before apart in \<open>auto simp: blocks_def\<close>)
  qed
  moreover have "startindex (block_at m a) = i" using new by (simp add: new_block_def)
  ultimately show ?thesis
    using xy l(2) a starts i(1) new covers_self
    by (intro exI [of _ "xs @ a # ys"]) (auto simp: mem_ok_def evolves_def)
qed

section \<open>The invariant of a call\<close>

definition asked :: "32 word set \<Rightarrow> lock_mem \<Rightarrow> ptr list \<Rightarrow> 32 word \<Rightarrow> bool" where
  "asked S m ps i \<longleftrightarrow> i \<in> S \<or> (\<exists>p \<in> set ps. covers (block_at m p) i)"

definition behind :: "lock_mem \<Rightarrow> ptr list \<Rightarrow> ptr \<Rightarrow> 32 word \<Rightarrow> bool" where
  "behind m ps dest i \<longleftrightarrow> dest = 0 \<or> dest \<in> set ps \<and> unat (startindex (block_at m dest)) + 127 < unat i"

definition has_block :: "lock_mem \<Rightarrow> ptr list \<Rightarrow> 32 word \<Rightarrow> bool" where
  "has_block m ps i \<longleftrightarrow> (\<exists>p \<in> set ps. covers (block_at m p) i)"

fun pc_ok :: "32 word set \<Rightarrow> lock_mem \<Rightarrow> ptr list \<Rightarrow> 32 word \<Rightarrow> pc \<Rightarrow> bool" where
  "pc_ok S m ps i (Load dest) = (behind m ps dest i \<and> asked S m ps i)"
| "pc_ok S m ps i (Tryagain1 dest lock) = (behind m ps dest i \<and> (lock = 0 \<or> lock \<in> set ps) \<and> asked S m ps i)"
| "pc_ok S m ps i (Swap_cell dest lock new) =
     (behind m ps dest i \<and> (lock = 0 \<or> lock \<in> set ps \<and> i < startindex (block_at m lock)) \<and> asked S m ps i \<and>
      nodes m new = Some \<lparr>n_block = new_block i, n_next = lock\<rparr> \<and> new \<noteq> 0 \<and> new \<notin> set ps)"
| "pc_ok S m ps i (Read_value lock) = (lock \<in> set ps \<and> covers (block_at m lock) i)"
| "pc_ok S m ps i (Tryagain2 lock value) = (lock \<in> set ps \<and> covers (block_at m lock) i)"
| "pc_ok S m ps i Set_lock = has_block m ps i"
| "pc_ok S m ps i Clear_lock = has_block m ps i"
| "pc_ok S m ps i (Inproc_load failed) = has_block m ps i"
| "pc_ok S m ps i (Inproc_walk failed lock) =
     (has_block m ps i \<and> lock \<in> set ps \<and> startindex (block_at m lock) \<le> i)"
| "pc_ok S m ps i (Returned r) = (r = 0 \<longrightarrow> has_block m ps i)"
| "pc_ok S m ps i Unlocked = True"
| "pc_ok S m ps i (Crashed e) = False"

text \<open>The block a call has allocated and not published, and the lock on whose counter it has a share.\<close>

fun own_node :: "pc \<Rightarrow> ptr option" where
  "own_node (Swap_cell dest lock new) = Some new"
| "own_node _ = None"

fun owns :: "pc \<Rightarrow> bool" where
  "owns Set_lock = True"
| "owns Clear_lock = True"
| "owns (Inproc_load failed) = True"
| "owns (Inproc_walk failed lock) = True"
| "owns (Returned r) = (r = 0)"
| "owns _ = False"

lemma evolves_at: "evolves m ps m' ps' \<Longrightarrow> p \<in> set ps \<Longrightarrow> p \<in> set ps' \<and> startindex (block_at m' p) = startindex (block_at m p)"
  by (auto simp: evolves_def)

lemma evolves_covers:
  "evolves m ps m' ps' \<Longrightarrow> p \<in> set ps \<Longrightarrow> covers (block_at m p) i \<Longrightarrow> p \<in> set ps' \<and> covers (block_at m' p) i"
  by (auto simp: evolves_def covers_nat)

lemma evolves_preds:
  assumes "evolves m ps m' ps'"
  shows "asked S m ps i \<Longrightarrow> asked S m' ps' i" "behind m ps dest i \<Longrightarrow> behind m' ps' dest i"
    "has_block m ps i \<Longrightarrow> has_block m' ps' i"
  using evolves_covers [OF assms] evolves_at [OF assms] unfolding asked_def behind_def has_block_def by metis+

lemma pc_ok_evolves:
  assumes "pc_ok S m ps i pc" "evolves m ps m' ps'"
    and "\<And>a. own_node pc = Some a \<Longrightarrow> nodes m' a = nodes m a \<and> a \<notin> set ps'"
  shows "pc_ok S m' ps' i pc"
  using assms(1,3) evolves_preds [OF assms(2)] evolves_covers [OF assms(2)] evolves_at [OF assms(2)]
  by (cases pc) auto

lemma mem_okD:
  assumes "mem_ok S m ps"
  shows "links (nodes m) (first m) ps" "blocks_ok (blocks m ps)"
  using assms by (simp_all add: mem_ok_def)

lemma mem_ok_node: "mem_ok S m ps \<Longrightarrow> p \<in> set ps \<Longrightarrow> \<exists>n. nodes m p = Some n \<and> block_at m p = n_block n"
  using links_member by (fastforce simp: mem_ok_def block_at_def)

lemma mem_ok_cell:
  assumes "mem_ok S m ps" "dest = 0 \<or> dest \<in> set ps"
  shows "\<exists>p. cell m dest = Some p \<and> (p = 0 \<or> p \<in> set ps)"
proof (cases "dest = 0")
  case True
  then show ?thesis using links_head [OF mem_okD(1) [OF assms(1)]] by (auto simp: cell_def)
next
  case False
  then obtain n where "nodes m dest = Some n" "dest \<in> set ps" using assms mem_ok_node by blast
  then show ?thesis using False links_next [OF mem_okD(1) [OF assms(1)]] by (auto simp: cell_def)
qed

text \<open>The list is sorted, so the block of an index comes after every block that starts before it.\<close>

lemma block_ahead:
  assumes "mem_ok S m ps" "has_block m ps i" "q \<in> set ps" "nodes m q = Some n"
    "unat (startindex (block_at m q)) + 127 < unat i"
  shows "n_next n \<in> set ps \<and> startindex (block_at m (n_next n)) \<le> i"
proof -
  obtain xs ys where ps: "ps = xs @ q # ys" using assms(3) by (auto simp: in_set_conv_decomp)
  obtain p where p: "p \<in> set ps" "covers (block_at m p) i" using assms(2) by (auto simp: has_block_def)
  have sorted: "blocks_ok (blocks m xs @ blocks m (q # ys))" using mem_okD(2) [OF assms(1)] ps by (simp add: blocks_def)
  have "p \<in> set ys"
  proof (rule ccontr)
    assume "p \<notin> set ys"
    then have "p = q \<or> unat (startindex (block_at m p)) + 127 < unat (startindex (block_at m q))"
      using p(1) ps sorted by (auto simp: blocks_ok_append blocks_def)
    then show False using assms(5) p(2) by (auto simp: covers_nat)
  qed
  moreover have "links (nodes m) (n_next n) ys"
    using links_append [of "nodes m" "first m" "xs @ [q]" ys] mem_okD(1) [OF assms(1)] assms(4) ps by simp
  ultimately obtain ys' where ys: "ys = n_next n # ys'" by (auto elim: links.cases)
  have "blocks_ok (blocks m (n_next n # ys'))" using sorted ys by (simp add: blocks_ok_append blocks_def)
  then have "unat (startindex (block_at m (n_next n))) \<le> unat (startindex (block_at m p))"
    using \<open>p \<in> set ys\<close> ys by (auto simp: blocks_def list_all_iff)
  then show ?thesis using p(2) ps ys by (auto simp: covers_nat word_le_nat_alt)
qed

lemma head_before:
  assumes "mem_ok S m ps" "has_block m ps i"
  shows "first m \<in> set ps \<and> startindex (block_at m (first m)) \<le> i"
proof -
  obtain p where p: "p \<in> set ps" "covers (block_at m p) i" using assms(2) by (auto simp: has_block_def)
  then obtain ys where ps: "ps = first m # ys" using mem_okD(1) [OF assms(1)] by (auto elim: links.cases)
  have "unat (startindex (block_at m (first m))) \<le> unat (startindex (block_at m p))"
    using mem_okD(2) [OF assms(1)] p(1) ps by (auto simp: blocks_def list_all_iff)
  with p(2) ps show ?thesis by (auto simp: covers_nat word_le_nat_alt)
qed

text \<open>What a step does to the counters, seen from the locks the call owns.\<close>

definition counts :: "pc \<Rightarrow> logdb_log_lock_type \<Rightarrow> int" where
  "counts pc t = (if owns pc then lock_delta t else 0)"

text \<open>The part of a step that concerns the memory.\<close>

definition step_mem :: "32 word set \<Rightarrow> 32 word \<Rightarrow> logdb_log_lock_type \<Rightarrow> ptr \<Rightarrow> lock_mem \<Rightarrow> ptr list \<Rightarrow> pc \<Rightarrow>
    lock_mem \<Rightarrow> ptr list \<Rightarrow> pc \<Rightarrow> bool" where
  "step_mem S i t a m ps pc m' ps' pc' \<longleftrightarrow>
     mem_ok S m' ps' \<and> evolves m ps m' ps' \<and> pc_ok S m' ps' i pc' \<and>
     (\<forall>b. b \<notin> set ps \<and> b \<noteq> a \<and> own_node pc \<noteq> Some b \<longrightarrow> nodes m' b = nodes m b \<and> b \<notin> set ps') \<and>
     (\<forall>b. own_node pc' = Some b \<longrightarrow> b = a \<and> own_node pc = None) \<and>
     (\<forall>j. lock_value (blocks m' ps') j =
          lock_value (blocks m ps) j + (if j = i then counts pc' t - counts pc t else 0)) \<and>
     (owns pc' \<and> \<not> owns pc \<longrightarrow> lock_allowed t (lock_value (blocks m ps) i))"

lemma step_mem_still:
  "\<lbrakk>mem_ok S m ps; pc_ok S m ps i pc'; own_node pc' = None; owns pc' = owns pc\<rbrakk> \<Longrightarrow> step_mem S i t a m ps pc m ps pc'"
  by (simp add: step_mem_def counts_def)

lemma step_mem_counter:
  assumes "mem_ok S m ps" "p \<in> set ps" "covers (block_at m p) i" "pc_ok S m ps i pc'" "own_node pc' = None"
    and "v = lock_value (blocks m ps) i + counts pc' t - counts pc t"
    and "owns pc' \<and> \<not> owns pc \<longrightarrow> lock_allowed t (lock_value (blocks m ps) i)"
  shows "step_mem S i t a m ps pc (set_counter m p i v) ps pc'"
  using mem_ok_set_counter(1,2) [OF assms(1-3), where v = v] mem_ok_set_counter(3) [OF assms(1-3), where v = v]
    assms pc_ok_evolves [OF assms(4), of "set_counter m p i v" ps]
  by (simp add: step_mem_def) (auto simp: set_counter_def)

lemma start_limit:
  assumes "mem_ok S m ps" "p \<in> set ps"
  shows "unat (startindex (block_at m p) + 127) = unat (startindex (block_at m p)) + 127"
proof -
  obtain k where "k < length ps" "ps ! k = p" using assms(2) by (auto simp: in_set_conv_nth)
  then have "unat (startindex (block_at m p)) + 127 < 4294967296"
    using blocks_ok_nth [OF mem_okD(2) [OF assms(1)], of k] by (simp add: blocks_def)
  then show ?thesis by (simp add: unat_plus_if')
qed

lemma beyond_block:
  assumes "mem_ok S m ps" "p \<in> set ps" "\<not> startindex (block_at m p) > i" "i - startindex (block_at m p) > 127"
  shows "unat (startindex (block_at m p)) + 127 < unat i"
proof -
  have "\<not> covers (block_at m p) i" using assms(4) by (simp add: covers_def linorder_not_le)
  then show ?thesis using assms(3) by (auto simp: covers_nat word_less_nat_alt)
qed

lemma in_block: "\<lbrakk>\<not> startindex b > i; \<not> i - startindex b > 127\<rbrakk> \<Longrightarrow> covers b i"
  by (simp add: covers_def linorder_not_less)

text \<open>A block for the index is allocated and set up.\<close>

lemma alloc_step:
  assumes "mem_ok S m ps" "behind m ps dest i" "asked S m ps i"
    and "lock = 0 \<or> lock \<in> set ps \<and> i < startindex (block_at m lock)" "a \<noteq> 0" "nodes m a = None"
  shows "step_mem S i t a m ps (Tryagain1 dest lock)
           (m\<lparr>nodes := (nodes m)(a \<mapsto> \<lparr>n_block = new_block i, n_next = lock\<rparr>)\<rparr>) ps (Swap_cell dest lock a)"
proof -
  have a: "a \<notin> set ps" using mem_ok_node [OF assms(1)] assms(6) by fastforce
  note p = mem_ok_private [OF assms(1) a, of "Some \<lparr>n_block = new_block i, n_next = lock\<rparr>"]
  show ?thesis
    using p assms a evolves_preds [OF p(2)] evolves_at [OF p(2)]
    by (auto simp: step_mem_def counts_def)
qed

lemma swap_step:
  assumes "mem_ok S m ps" "spaced S" "pc_ok S m ps i (Swap_cell dest lock new)" "cell m dest = Some lock" "new \<noteq> a"
  shows "\<exists>ps'. step_mem S i t a m ps (Swap_cell dest lock new) (set_cell m dest new) ps' (Read_value new)"
proof -
  from mem_ok_insert [OF assms(1,2), of i dest lock new] assms(3,4)
  obtain ps' where ps': "mem_ok S (set_cell m dest new) ps'" "evolves m ps (set_cell m dest new) ps'"
    "set ps' = insert new (set ps)" "covers (block_at (set_cell m dest new) new) i"
    "\<forall>j. lock_value (blocks (set_cell m dest new) ps') j = lock_value (blocks m ps) j"
    by (auto simp: asked_def behind_def)
  have "nodes (set_cell m dest new) b = nodes m b" if "b \<notin> set ps" for b
    using that assms(3) by (auto simp: set_cell_def behind_def)
  with ps' assms(3) show ?thesis by (intro exI [of _ ps']) (auto simp: step_mem_def counts_def)
qed

lemma swap_fails:
  assumes "mem_ok S m ps" "pc_ok S m ps i (Swap_cell dest lock new)" "cell m dest = Some p"
  shows "step_mem S i t a m ps (Swap_cell dest lock new) (m\<lparr>nodes := (nodes m)(new := None)\<rparr>) ps (Tryagain1 dest p)"
proof -
  have new: "new \<notin> set ps" using assms(2) by simp
  have "dest = 0 \<or> dest \<in> set ps" using assms(2) by (auto simp: behind_def)
  then have "p = 0 \<or> p \<in> set ps" using mem_ok_cell [OF assms(1)] assms(3) by fastforce
  moreover note p = mem_ok_private [OF assms(1) new, of None]
  ultimately show ?thesis using assms(2) evolves_preds [OF p(2)] by (auto simp: step_mem_def counts_def)
qed

text \<open>The three steps with several outcomes: the search that looks at a block, the exchange of the counter,
  and the search of the unlocking function.\<close>

lemma tryagain_step:
  assumes ok: "mem_ok S m ps" "pc_ok S m ps i (Tryagain1 dest lock)" and t: "t \<noteq> LOCK_NONE" and a: "a \<noteq> 0" "nodes m a = None"
    and step: "pc_step fd i t a spurious (Tryagain1 dest lock) (m, s) = (pc', m', s')"
  shows "\<exists>ps'. step_mem S i t a m ps (Tryagain1 dest lock) m' ps' pc'"
proof -
  obtain good s1 where mal: "sys_malloc s = (good, s1)" by fastforce
  show ?thesis
  proof (cases "lock = 0 \<or> i < startindex (block_at m lock)")
    case True
    have "(pc', m') = (if good then (Swap_cell dest lock a, m\<lparr>nodes := (nodes m)(a \<mapsto> \<lparr>n_block = new_block i, n_next = lock\<rparr>)\<rparr>)
                       else (Returned (-1), m))"
      using step mal True ok(2) mem_ok_node [OF ok(1), of lock] by (auto simp: Let_def split: if_splits)
    then show ?thesis
      using True ok(2) alloc_step [OF ok(1), of dest i lock a] a
      by (auto split: if_splits intro!: exI [of _ ps] step_mem_still [OF ok(1)])
  next
    case False
    then obtain n where n: "nodes m lock = Some n" "block_at m lock = n_block n" "lock \<in> set ps"
      using ok(2) mem_ok_node [OF ok(1), of lock] by auto
    have r: "m' = m" "pc' = (if i - startindex (block_at m lock) > 127 then Load lock else Read_value lock)"
      using step False n by (auto simp: Let_def split: if_splits)
    have "pc_ok S m ps i pc'"
      using r(2) False n beyond_block [OF ok(1) n(3), of i] in_block [of i "block_at m lock"] ok(2)
      by (auto simp: behind_def)
    moreover have "own_node pc' = None" "owns pc' = owns (Tryagain1 dest lock)" using r(2) by simp_all
    ultimately show ?thesis using r(1) step_mem_still [OF ok(1)] by blast
  qed
qed

lemma exchange_step:
  assumes ok: "mem_ok S m ps" "pc_ok S m ps i (Tryagain2 lock v)" and t: "t \<noteq> LOCK_NONE"
    and step: "pc_step fd i t a spurious (Tryagain2 lock v) (m, s) = (pc', m', s')"
  shows "\<exists>ps'. step_mem S i t a m ps (Tryagain2 lock v) m' ps' pc'"
proof -
  have h: "lock \<in> set ps" "covers (block_at m lock) i" using ok(2) by simp_all
  have c: "counter m lock i = Some (lock_value (blocks m ps) i)" by (rule mem_ok_set_counter(4) [OF ok(1) h])
  define w where "w = lock_value (blocks m ps) i"
  consider "pc' = Set_lock" "m' = set_counter m lock i (w + lock_delta t)" "lock_allowed t w"
    | "pc' = Tryagain2 lock w" "m' = m" | "pc' = Returned (-2)" "m' = m"
    using step c t
    by (auto simp: Let_def lock_allowed_def lock_delta_def w_def [symmetric] split: if_splits)
  then show ?thesis
  proof cases
    case 1
    have "has_block m ps i" using h by (auto simp: has_block_def)
    then show ?thesis
      using 1 h by (auto simp: w_def counts_def intro!: exI [of _ ps] step_mem_counter [OF ok(1) h])
  qed (use h in \<open>auto intro!: exI [of _ ps] step_mem_still [OF ok(1)]\<close>)
qed

lemma walk_step:
  assumes ok: "mem_ok S m ps" "pc_ok S m ps i (Inproc_walk failed lock)" and t: "t \<noteq> LOCK_NONE"
    and step: "pc_step fd i t a spurious (Inproc_walk failed lock) (m, s) = (pc', m', s')"
  shows "\<exists>ps'. step_mem S i t a m ps (Inproc_walk failed lock) m' ps' pc'"
proof -
  have h: "has_block m ps i" "lock \<in> set ps" "startindex (block_at m lock) \<le> i" using ok(2) by simp_all
  obtain n where n: "nodes m lock = Some n" "block_at m lock = n_block n" using mem_ok_node [OF ok(1) h(2)] by blast
  note lim = start_limit [OF ok(1) h(2)]
  show ?thesis
  proof (cases "startindex (block_at m lock) + 127 < i")
    case True
    then have "m' = m" "pc' = Inproc_walk failed (n_next n)" using step n by auto
    moreover have "n_next n \<in> set ps \<and> startindex (block_at m (n_next n)) \<le> i"
      using block_ahead [OF ok(1) h(1,2) n(1)] True by (simp add: word_less_nat_alt lim)
    ultimately show ?thesis using h(1) by (auto intro!: exI [of _ ps] step_mem_still [OF ok(1)])
  next
    case False
    then have cov: "covers (block_at m lock) i" using h(3) by (auto simp: covers_nat word_less_nat_alt word_le_nat_alt lim)
    note c = mem_ok_set_counter(4) [OF ok(1) h(2) cov]
    have "pc' = (if failed then Returned (-3) else Unlocked)"
      "m' = set_counter m lock i (lock_value (blocks m ps) i - lock_delta t)"
      using step n False c t by (auto simp: lock_delta_def split: logdb_log_lock_type.splits)
    then show ?thesis
      by (auto simp: counts_def intro!: exI [of _ ps] step_mem_counter [OF ok(1) h(2) cov])
  qed
qed

lemma pc_step_mem:
  assumes ok: "mem_ok S m ps" "spaced S" "pc_ok S m ps i pc" and t: "t \<noteq> LOCK_NONE" and a: "a \<noteq> 0" "nodes m a = None"
    and step: "pc_step fd i t a spurious pc (m, s) = (pc', m', s')"
  shows "\<exists>ps'. step_mem S i t a m ps pc m' ps' pc'"
proof (cases pc)
  case (Load dest)
  then obtain p where p: "cell m dest = Some p" "p = 0 \<or> p \<in> set ps"
    using mem_ok_cell [OF ok(1), of dest] ok(3) by (auto simp: behind_def)
  with Load step have "pc' = Tryagain1 dest p" "m' = m" by auto
  then show ?thesis using Load ok p(2) by (auto intro!: exI [of _ ps] step_mem_still)
next
  case (Tryagain1 dest lock)
  then show ?thesis using tryagain_step [OF ok(1) _ t a] ok(3) step by blast
next
  case (Swap_cell dest lock new)
  then obtain p where p: "cell m dest = Some p" using mem_ok_cell [OF ok(1), of dest] ok(3) by (auto simp: behind_def)
  have "new \<noteq> a" using ok(3) a Swap_cell by auto
  then show ?thesis
    using step p Swap_cell swap_step [OF ok(1,2), of i dest lock new a t] swap_fails [OF ok(1), of i dest lock new p t a] ok(3)
    by (cases "p = lock") auto
next
  case (Read_value lock)
  then have c: "counter m lock i = Some (lock_value (blocks m ps) i)"
    using mem_ok_set_counter(4) [OF ok(1)] ok(3) by simp
  show ?thesis using step Read_value ok c by (auto intro!: exI [of _ ps] step_mem_still)
next
  case (Tryagain2 lock v)
  then show ?thesis using exchange_step [OF ok(1) _ t] ok(3) step by blast
next
  case Set_lock
  then show ?thesis using step ok by (auto split: prod.splits if_splits intro!: exI [of _ ps] step_mem_still)
next
  case Clear_lock
  then show ?thesis using step ok by (auto split: prod.splits intro!: exI [of _ ps] step_mem_still)
next
  case (Inproc_load failed)
  then have "pc' = Inproc_walk failed (first m)" "m' = m" using step by auto
  then show ?thesis using Inproc_load ok head_before [OF ok(1)] by (auto intro!: exI [of _ ps] step_mem_still)
next
  case (Inproc_walk failed lock)
  then show ?thesis using walk_step [OF ok(1) _ t] ok(3) step by blast
qed (use step ok in \<open>auto intro!: exI [of _ ps] step_mem_still\<close>)

end
