(* ===== verification/Exclusion.thy ===== *)
theory Exclusion
  imports Threads Commit
begin

text \<open>
  What the locks of \<^verbatim>\<open>src/logdb_log.c\<close> promise when threads interleave (theory Threads): the counters agree
  with the locks that are held, a write lock excludes every other holder in the process and in others,
  and no call ever uses a bad pointer. The abstract table of locks is the locale \<open>rw_locks\<close> of theory Lock.
\<close>

section \<open>What a step does to the record locks\<close>

text \<open>The two bytes of the log entry of a section.\<close>

definition entry_bytes :: "32 word \<Rightarrow> nat set" where
  "entry_bytes i = {6 + 2 * unat i, 7 + 2 * unat i}"

lemma entry_bytes_disjoint: "b \<in> entry_bytes i \<Longrightarrow> b \<in> entry_bytes j \<Longrightarrow> i = j"
proof -
  assume "b \<in> entry_bytes i" "b \<in> entry_bytes j"
  then have "unat i = unat j" by (auto simp: entry_bytes_def)
  then show "i = j" by (rule unsigned_word_eqI)
qed

lemma exclusive_others:
  assumes "compatible s" "my_locks s (r_ino r) b = L_Exclusive" "r \<in> set (other_locks s)" "within r b"
  shows "r_mode r = L_None"
proof -
  have "\<not> conflicts r L_Exclusive" using assms by (fastforce simp: compatible_def)
  then show ?thesis by (cases "r_mode r") (simp_all add: conflicts_exclusive less_eq_lock_mode_def)
qed

lemma setlk_entry:
  assumes "sys_fcntl_setlk fd mode (logdb_log_offset i) sizeof_log_entry s = (r, s')" "fds s fd = Some f" "compatible s"
  shows "fds s' = fds s" "compatible s'"
    and "ino \<noteq> f_ino f \<or> b \<notin> entry_bytes i \<Longrightarrow> my_locks s' ino b = my_locks s ino b"
    and "r \<noteq> -1 \<Longrightarrow> b \<in> entry_bytes i \<Longrightarrow> my_locks s' (f_ino f) b = mode"
proof -
  let ?p = "popped s" and ?n = "6 + 2 * unat i"
  have bytes: "?n \<le> b \<and> b < ?n + 2 \<longleftrightarrow> b \<in> entry_bytes i" for b by (auto simp: entry_bytes_def)
  have r: "(r, s') = (if event s = Fail \<or> fcntl_conflict ?p (f_ino f) mode ?n 2 then (-1, ?p)
                      else (0, set_locks ?p (f_ino f) mode ?n 2))"
    using assms(1,2) log_offset_ge [of i]
    by (auto simp: sys_fcntl_setlk_def pop_eq Let_def log_offset_nat size_defs split: if_splits)
  have my: "my_locks (set_locks ?p (f_ino f) mode ?n 2) ino b =
      (if ino = f_ino f \<and> b \<in> entry_bytes i then mode else my_locks s ino b)" for ino b
    using bytes [of b] by (auto simp: set_locks_def)
  show "fds s' = fds s" using r by (auto split: if_splits)
  show "ino \<noteq> f_ino f \<or> b \<notin> entry_bytes i \<Longrightarrow> my_locks s' ino b = my_locks s ino b"
    using r my [of ino b] by (auto split: if_splits)
  show "r \<noteq> -1 \<Longrightarrow> b \<in> entry_bytes i \<Longrightarrow> my_locks s' (f_ino f) b = mode"
    using r my [of "f_ino f" b] by (auto split: if_splits)
  show "compatible s'"
  proof (cases "event s = Fail \<or> fcntl_conflict ?p (f_ino f) mode ?n 2")
    case True
    then show ?thesis using r assms(3) by (simp add: compatible_def)
  next
    case False
    then have no: "\<not> (overlaps q (f_ino f) ?n 2 \<and> conflicts q mode)" if "q \<in> set (other_locks s)" for q
      using that by (auto simp: fcntl_conflict_def list_ex_iff)
    have "\<not> conflicts q (my_locks s' (r_ino q) b)" if q: "q \<in> set (other_locks s)" "within q b" for q b
    proof (cases "r_ino q = f_ino f \<and> b \<in> entry_bytes i")
      case True
      then have "overlaps q (f_ino f) ?n 2" using q(2) by (auto simp: within_def overlaps_def entry_bytes_def)
      then show ?thesis using no q(1) True False r my by auto
    next
      case other: False
      then show ?thesis using assms(3) q False r my [of "r_ino q" b] by (auto simp: compatible_def)
    qed
    then show ?thesis using r False by (auto simp: compatible_def)
  qed
qed

text \<open>The part of a step that concerns the system.\<close>

definition locking :: "pc \<Rightarrow> bool" where
  "locking pc \<longleftrightarrow> pc = Set_lock \<or> pc = Clear_lock"

lemma pc_step_sys:
  assumes "pc_step fd i t a spurious pc (m, s) = (pc', m', s')" "fds s fd = Some f" "compatible s" "t \<noteq> LOCK_NONE"
  shows "fds s' = fds s" "compatible s'"
    and "ino \<noteq> f_ino f \<or> b \<notin> entry_bytes i \<or> \<not> locking pc \<Longrightarrow> my_locks s' ino b = my_locks s ino b"
    and "pc' = Returned 0 \<Longrightarrow> pc \<noteq> Returned 0 \<Longrightarrow>
         pc = Set_lock \<and> (b \<in> entry_bytes i \<longrightarrow> my_locks s' (f_ino f) b = (if t = LOCK_READ then L_Shared else L_Exclusive))"
proof -
  have still: "s' = s \<or> s' = popped s" if "\<not> locking pc"
    using assms(1) that
    by (cases pc) (auto simp: locking_def sys_malloc_def pop_eq Let_def split: option.splits if_splits)
  have comp: "compatible (popped s)" using assms(3) by (simp add: compatible_def)
  have set: "\<exists>r mode. sys_fcntl_setlk fd mode (logdb_log_offset i) sizeof_log_entry s = (r, s') \<and>
      (pc = Set_lock \<longrightarrow> mode = (if t = LOCK_READ then L_Shared else L_Exclusive) \<and> (pc' = Returned 0 \<longrightarrow> r \<noteq> -1)) \<and>
      (pc = Clear_lock \<longrightarrow> pc' \<noteq> Returned 0)" if "locking pc"
    using assms(1) that by (auto simp: locking_def split: prod.splits if_splits) blast+
  show "fds s' = fds s" "compatible s'"
    "ino \<noteq> f_ino f \<or> b \<notin> entry_bytes i \<or> \<not> locking pc \<Longrightarrow> my_locks s' ino b = my_locks s ino b"
  proof -
    show "fds s' = fds s"
      using still set setlk_entry(1) [OF _ assms(2,3)] by (cases "locking pc") auto
    show "compatible s'"
      using still set setlk_entry(2) [OF _ assms(2,3)] comp assms(3) by (cases "locking pc") auto
    assume "ino \<noteq> f_ino f \<or> b \<notin> entry_bytes i \<or> \<not> locking pc"
    then show "my_locks s' ino b = my_locks s ino b"
      using still set setlk_entry(3) [OF _ assms(2,3), of _ i _ s' ino b] by (cases "locking pc") auto
  qed
  assume r: "pc' = Returned 0" "pc \<noteq> Returned 0"
  have "pc = Set_lock"
    using assms(1,4) r by (cases pc) (auto simp: Let_def split: option.splits if_splits prod.splits)
  then show "pc = Set_lock \<and> (b \<in> entry_bytes i \<longrightarrow> my_locks s' (f_ino f) b = (if t = LOCK_READ then L_Shared else L_Exclusive))"
    using set r setlk_entry(4) [OF _ assms(2,3)] by (auto simp: locking_def)
qed

section \<open>The locks as a table of counters\<close>

lemma mset_filter_held: "mset (held_at hs i) = filter_mset (\<lambda>h. fst h = i) (mset hs)"
  by (simp add: held_at_def)

lemma exclusive_perm: "exclusive hs \<Longrightarrow> mset hs' = mset hs \<Longrightarrow> exclusive hs'"
proof -
  assume ex: "exclusive hs" and eq: "mset hs' = mset hs"
  have sets: "set hs' = set hs" using eq by (rule mset_eq_setD)
  have "mset (held_at hs' i) = mset (held_at hs i)" for i using eq by (simp add: mset_filter_held)
  then show "exclusive hs'" using ex sets by (auto simp: exclusive_def) (metis mset_single_iff_right mset.simps)
qed

lemma held_sum_perm: "mset hs' = mset hs \<Longrightarrow> held_sum hs' i = held_sum hs i"
proof -
  assume eq: "mset hs' = mset hs"
  have "held_sum hs i = sum_mset (image_mset (\<lambda>h. lock_delta (snd h)) (mset (held_at hs i)))" for hs
    unfolding held_sum_def by (metis mset_map sum_mset_sum_list)
  then show "held_sum hs' i = held_sum hs i" using eq by (simp add: mset_filter_held)
qed

context rw_locks
begin

lemma agrees_perm: "agrees l hs \<Longrightarrow> mset hs' = mset hs \<Longrightarrow> agrees l hs'"
  using exclusive_perm [of hs hs'] held_sum_perm [of hs' hs] by (simp add: agrees_def)

lemma agrees_give_head: "agrees l ((i, t) # hs) \<Longrightarrow> give_lock l i t l' \<Longrightarrow> agrees l' hs"
  using agrees_give [of l "(i, t) # hs" i t l'] by simp

lemma writer_twice: "agrees l ((i, t) # hs) \<Longrightarrow> (i, LOCK_WRITE) \<notin> set hs"
  using writer_alone [of l "(i, t) # hs" i] set_held_at [of "(i, LOCK_WRITE)" hs i]
  by (auto simp: held_at_Cons)

end

text \<open>The steps that change a counter are the abstract operations on a table of locks.\<close>

definition step_takes :: "lock_mem \<times> ptr list \<Rightarrow> 32 word \<Rightarrow> logdb_log_lock_type \<Rightarrow> lock_mem \<times> ptr list \<Rightarrow> bool" where
  "step_takes l i t l' \<longleftrightarrow>
     (\<exists>S a pc pc'. step_mem S i t a (fst l) (snd l) pc (fst l') (snd l') pc' \<and> \<not> owns pc \<and> owns pc')"

definition step_gives :: "lock_mem \<times> ptr list \<Rightarrow> 32 word \<Rightarrow> logdb_log_lock_type \<Rightarrow> lock_mem \<times> ptr list \<Rightarrow> bool" where
  "step_gives l i t l' \<longleftrightarrow>
     (\<exists>S a pc pc'. step_mem S i t a (fst l) (snd l) pc (fst l') (snd l') pc' \<and> owns pc \<and> \<not> owns pc')"

definition table_value :: "lock_mem \<times> ptr list \<Rightarrow> 32 word \<Rightarrow> int" where
  "table_value l i = lock_value (blocks (fst l) (snd l)) i"

definition table_ok :: "lock_mem \<times> ptr list \<Rightarrow> bool" where
  "table_ok l \<longleftrightarrow> (\<exists>S. mem_ok S (fst l) (snd l))"

interpretation thread_locks: rw_locks table_value table_ok step_takes step_gives
  by unfold_locales (auto simp: step_takes_def step_gives_def step_mem_def table_value_def table_ok_def counts_def)

section \<open>The invariant of the process\<close>

fun thread_ok :: "32 word set \<Rightarrow> lock_mem \<Rightarrow> ptr list \<Rightarrow> thread \<Rightarrow> bool" where
  "thread_ok S m ps Idle = True"
| "thread_ok S m ps (Call i t pc) = (t \<noteq> LOCK_NONE \<and> pc_ok S m ps i pc)"

fun thread_node :: "thread \<Rightarrow> ptr option" where
  "thread_node Idle = None"
| "thread_node (Call i t pc) = own_node pc"

fun thread_owns :: "thread \<Rightarrow> holders" where
  "thread_owns Idle = []"
| "thread_owns (Call i t pc) = (if owns pc then [(i, t)] else [])"

text \<open>Every lock with a share in a counter, and the locks that have been granted by the kernel as well.\<close>

definition owners :: "process \<Rightarrow> holders" where
  "owners x = held x @ concat (map thread_owns (threads x))"

definition granted :: "process \<Rightarrow> 32 word \<Rightarrow> logdb_log_lock_type \<Rightarrow> bool" where
  "granted x i t \<longleftrightarrow> (i, t) \<in> set (held x) \<or> Call i t (Returned 0) \<in> set (threads x)"

definition apart_nodes :: "thread list \<Rightarrow> bool" where
  "apart_nodes ths \<longleftrightarrow>
     (\<forall>k < length ths. \<forall>l < length ths. \<forall>a. thread_node (ths ! k) = Some a \<and> thread_node (ths ! l) = Some a \<longrightarrow> k = l)"

lemma apart_nodesD:
  "\<lbrakk>apart_nodes ths; k < length ths; l < length ths; thread_node (ths ! k) = Some a; thread_node (ths ! l) = Some a\<rbrakk> \<Longrightarrow> k = l"
  by (simp add: apart_nodes_def)

lemma apart_nodes_update:
  assumes "apart_nodes ths" "\<And>l a. \<lbrakk>l < length ths; l \<noteq> k; thread_node th = Some a\<rbrakk> \<Longrightarrow> thread_node (ths ! l) \<noteq> Some a"
  shows "apart_nodes (ths[k := th])"
  unfolding apart_nodes_def
proof (intro allI impI, elim conjE)
  fix k' l a assume h: "k' < length (ths[k := th])" "l < length (ths[k := th])"
    "thread_node (ths[k := th] ! k') = Some a" "thread_node (ths[k := th] ! l) = Some a"
  show "k' = l"
  proof (cases "k' = k \<or> l = k")
    case True
    then show ?thesis using h assms(2) [of k' a] assms(2) [of l a] by (cases "k' = k"; cases "l = k") simp_all
  next
    case False
    then show ?thesis using h apart_nodesD [OF assms(1), of k' l a] by simp
  qed
qed

definition process_inv :: "int \<Rightarrow> 32 word set \<Rightarrow> fdesc \<Rightarrow> ptr list \<Rightarrow> process \<Rightarrow> bool" where
  "process_inv fd S f ps x \<longleftrightarrow>
     mem_ok S (p_mem x) ps \<and>
     (\<forall>th \<in> set (threads x). thread_ok S (p_mem x) ps th) \<and>
     apart_nodes (threads x) \<and>
     (\<forall>h \<in> set (held x). has_block (p_mem x) ps (fst h)) \<and>
     thread_locks.agrees (p_mem x, ps) (owners x) \<and>
     fds (p_sys x) fd = Some f \<and> compatible (p_sys x) \<and>
     (\<forall>i. granted x i LOCK_WRITE \<longrightarrow> (\<forall>b \<in> entry_bytes i. my_locks (p_sys x) (f_ino f) b = L_Exclusive))"

lemma process_invD:
  assumes "process_inv fd S f ps x"
  shows "mem_ok S (p_mem x) ps" "th \<in> set (threads x) \<Longrightarrow> thread_ok S (p_mem x) ps th"
    "apart_nodes (threads x)" "h \<in> set (held x) \<Longrightarrow> has_block (p_mem x) ps (fst h)"
    "thread_locks.agrees (p_mem x, ps) (owners x)" "fds (p_sys x) fd = Some f" "compatible (p_sys x)"
    "granted x i LOCK_WRITE \<Longrightarrow> b \<in> entry_bytes i \<Longrightarrow> my_locks (p_sys x) (f_ino f) b = L_Exclusive"
  using assms unfolding process_inv_def by blast+

text \<open>The owners that do not belong to the thread \<open>k\<close>.\<close>

definition rest :: "process \<Rightarrow> nat \<Rightarrow> holders" where
  "rest x k = held x @ concat (map thread_owns ((threads x)[k := Idle]))"

lemma exchange_parts: "a' + p = a + n \<Longrightarrow> n + h' = p + h \<Longrightarrow> h' + a' = h + (a :: 'a :: cancel_comm_monoid_add)"
proof -
  assume e: "a' + p = a + n" "n + h' = p + h"
  have "(h' + a') + p = h' + (a' + p)" by (simp add: ac_simps)
  also have "\<dots> = a + (n + h')" unfolding e(1) by (simp add: ac_simps)
  also have "\<dots> = (h + a) + p" unfolding e(2) by (simp add: ac_simps)
  finally show ?thesis by simp
qed

lemma owners_split: "k < length (threads x) \<Longrightarrow> mset (owners x) = mset (thread_owns (threads x ! k) @ rest x k)"
  using mset_concat_update [of k "threads x" thread_owns Idle] by (simp add: owners_def rest_def ac_simps)

lemma rest_other:
  assumes "l < length (threads x)" "l \<noteq> k" "h \<in> set (thread_owns (threads x ! l))"
  shows "h \<in> set (rest x k)"
proof -
  have "threads x ! l = (threads x)[k := Idle] ! l" using assms(2) by simp
  also have "\<dots> \<in> set ((threads x)[k := Idle])" using assms(1) by (intro nth_mem) simp
  finally show ?thesis using assms(3) by (auto simp: rest_def)
qed

lemma granted_rest:
  assumes "k < length (threads x)" "granted x i t" "threads x ! k \<noteq> Call i t (Returned 0)"
  shows "(i, t) \<in> set (rest x k)"
proof (cases "(i, t) \<in> set (held x)")
  case False
  then obtain l where "l < length (threads x)" "threads x ! l = Call i t (Returned 0)"
    using assms(2) by (auto simp: granted_def in_set_conv_nth)
  then show ?thesis using assms(3) rest_other [of l x k] by fastforce
qed (simp add: rest_def)

lemma all_update: "k < length xs \<Longrightarrow> (\<forall>x \<in> set (xs[k := y]). P x) \<longleftrightarrow> P y \<and> (\<forall>l < length xs. l \<noteq> k \<longrightarrow> P (xs ! l))"
  by (auto simp: set_conv_nth nth_list_update)

text \<open>A step that leaves memory and system alone.\<close>

lemma inv_bookkeeping:
  assumes inv: "process_inv fd S f ps x" and k: "k < length (threads x)"
    and th: "thread_ok S (p_mem x) ps th" "thread_node th = None" "mset (thread_owns th @ hs) = mset (thread_owns (threads x ! k) @ held x)"
    and hs: "\<And>h. h \<in> set hs \<Longrightarrow> has_block (p_mem x) ps (fst h)"
    and gr: "\<And>i. granted (x\<lparr>threads := (threads x)[k := th], held := hs\<rparr>) i LOCK_WRITE \<Longrightarrow> granted x i LOCK_WRITE"
  shows "process_inv fd S f ps (x\<lparr>threads := (threads x)[k := th], held := hs\<rparr>)"
proof -
  let ?y = "x\<lparr>threads := (threads x)[k := th], held := hs\<rparr>"
  have "mset (owners ?y) = mset (owners x)"
    using exchange_parts [OF mset_concat_update [OF k, of thread_owns th] th(3) [unfolded mset_append]]
    by (simp add: owners_def)
  then have "thread_locks.agrees (p_mem x, ps) (owners ?y)"
    using thread_locks.agrees_perm [OF process_invD(5) [OF inv]] by simp
  moreover have "\<forall>l < length (threads x). thread_ok S (p_mem x) ps (threads x ! l)"
    using process_invD(2) [OF inv] by simp
  moreover have "apart_nodes (threads ?y)"
    using apart_nodes_update [OF process_invD(3) [OF inv], of k th] th(2) by simp
  moreover have "\<forall>i. granted ?y i LOCK_WRITE \<longrightarrow> (\<forall>b \<in> entry_bytes i. my_locks (p_sys x) (f_ino f) b = L_Exclusive)"
    using process_invD(8) [OF inv] gr by blast
  ultimately show ?thesis
    using process_invD(1,6,7) [OF inv] th(1) hs k by (simp add: process_inv_def all_update)
qed

text \<open>
  A step of the thread \<open>k\<close>, in three parts: the nodes that the other threads hold, the agreement of the
  counters with the owners, and the record locks of the write locks that have been granted.
\<close>

lemma run_others:
  assumes inv: "process_inv fd S f ps x" and k: "k < length (threads x)" "threads x ! k = Call i t pc"
    and a: "nodes (p_mem x) a = None" and sm: "step_mem S i t a (p_mem x) ps pc m' ps' pc'"
  shows "l < length (threads x) \<Longrightarrow> l \<noteq> k \<Longrightarrow> thread_ok S m' ps' (threads x ! l)"
    and "apart_nodes ((threads x)[k := Call i t pc'])"
proof -
  note D = process_invD [OF inv]
  have node: "b \<notin> set ps \<and> b \<noteq> a" if th: "th \<in> set (threads x)" "thread_node th = Some b" for th b
  proof -
    obtain i' t' pc2 where "th = Call i' t' pc2" "own_node pc2 = Some b" using th(2) by (cases th) auto
    then show ?thesis using D(2) [OF th(1)] a by (cases pc2) auto
  qed
  show "thread_ok S m' ps' (threads x ! l)" if l: "l < length (threads x)" "l \<noteq> k"
  proof (cases "threads x ! l")
    case (Call i' t' pc2)
    have "pc_ok S (p_mem x) ps i' pc2" "t' \<noteq> LOCK_NONE" using D(2) [OF nth_mem [OF l(1)]] Call by simp_all
    moreover have "nodes m' b = nodes (p_mem x) b \<and> b \<notin> set ps'" if own: "own_node pc2 = Some b" for b
    proof -
      have "b \<notin> set ps" "b \<noteq> a" using node [OF nth_mem [OF l(1)], of b] Call own by simp_all
      moreover have "own_node pc \<noteq> Some b" using apart_nodesD [OF D(3) l(1) k(1), of b] l(2) Call own k(2) by auto
      ultimately show ?thesis using sm by (simp add: step_mem_def)
    qed
    moreover have "evolves (p_mem x) ps m' ps'" using sm by (simp add: step_mem_def)
    ultimately show ?thesis using pc_ok_evolves Call by simp
  qed simp
  show "apart_nodes ((threads x)[k := Call i t pc'])"
  proof (rule apart_nodes_update [OF D(3)])
    fix l b assume "l < length (threads x)" "thread_node (Call i t pc') = Some b"
    moreover have "own_node pc' = Some b \<Longrightarrow> b = a" using sm by (simp add: step_mem_def)
    ultimately show "thread_node (threads x ! l) \<noteq> Some b" using node [OF nth_mem, of l b] by auto
  qed
qed

lemma run_agrees:
  assumes agr: "thread_locks.agrees (m, ps) ((if owns pc then [(i, t)] else []) @ hs)"
    and sm: "step_mem S i t a m ps pc m' ps' pc'"
  shows "thread_locks.agrees (m', ps') ((if owns pc' then [(i, t)] else []) @ hs)"
proof -
  consider "owns pc = owns pc'" | "\<not> owns pc" "owns pc'" | "owns pc" "\<not> owns pc'" by blast
  then show ?thesis
  proof cases
    case 1
    have "table_ok (m', ps')" "\<And>j. table_value (m', ps') j = table_value (m, ps) j"
      using sm 1 by (auto simp: step_mem_def counts_def table_ok_def table_value_def)
    then show ?thesis using thread_locks.agrees_same [OF agr] 1 by simp
  next
    case 2
    then have "step_takes (m, ps) i t (m', ps')" using sm by (auto simp: step_takes_def)
    then show ?thesis using thread_locks.agrees_take [of "(m, ps)" hs] agr 2 by simp
  next
    case 3
    then have "step_gives (m, ps) i t (m', ps')" using sm by (auto simp: step_gives_def)
    then show ?thesis using thread_locks.agrees_give_head [of "(m, ps)" i t hs] agr 3 by simp
  qed
qed

lemma run_locks:
  assumes inv: "process_inv fd S f ps x" and k: "k < length (threads x)" "threads x ! k = Call i t pc"
    and step: "pc_step fd i t a spurious pc (p_mem x, p_sys x) = (pc', m', s')" and t: "t \<noteq> LOCK_NONE"
    and g: "granted (x\<lparr>p_mem := m', p_sys := s', threads := (threads x)[k := Call i t pc']\<rparr>) j LOCK_WRITE" "b \<in> entry_bytes j"
  shows "my_locks s' (f_ino f) b = L_Exclusive"
proof (cases "Call i t pc' = Call j LOCK_WRITE (Returned 0) \<and> pc \<noteq> Returned 0")
  case True
  then show ?thesis using pc_step_sys(4) [OF step process_invD(6,7) [OF inv] t, of b] g(2) by auto
next
  case False
  have old: "granted x j LOCK_WRITE"
  proof (rule ccontr)
    assume no: "\<not> granted x j LOCK_WRITE"
    then have "Call j LOCK_WRITE (Returned 0) \<in> set ((threads x)[k := Call i t pc'])"
      using g(1) by (simp add: granted_def)
    then have eq: "Call j LOCK_WRITE (Returned 0) = Call i t pc'"
      using set_update_subset_insert [of "threads x" k "Call i t pc'"] no by (auto simp: granted_def)
    with False have "pc = Returned 0" by simp
    with eq no k show False by (auto simp: granted_def set_conv_nth)
  qed
  have "b \<notin> entry_bytes i \<or> \<not> locking pc"
  proof (rule ccontr)
    assume "\<not> (b \<notin> entry_bytes i \<or> \<not> locking pc)"
    then have l: "i = j" "locking pc" using g(2) entry_bytes_disjoint by auto
    then have "(j, LOCK_WRITE) \<in> set (rest x k)"
      using granted_rest [OF k(1) old] k(2) by (auto simp: locking_def)
    moreover have "owns pc" using l(2) by (auto simp: locking_def)
    moreover have "thread_locks.agrees (p_mem x, ps) ((if owns pc then [(i, t)] else []) @ rest x k)"
      using thread_locks.agrees_perm [OF process_invD(5) [OF inv]] owners_split [of k x] k by simp
    ultimately show False using thread_locks.writer_twice [of "(p_mem x, ps)" i t "rest x k"] l(1) by simp
  qed
  then show ?thesis
    using pc_step_sys(3) [OF step process_invD(6,7) [OF inv] t, of "f_ino f" b] process_invD(8) [OF inv old g(2)] by simp
qed

lemma inv_run:
  assumes inv: "process_inv fd S f ps x" and S: "spaced S" and k: "k < length (threads x)" "threads x ! k = Call i t pc"
    and a: "a \<noteq> 0" "nodes (p_mem x) a = None"
    and step: "pc_step fd i t a spurious pc (p_mem x, p_sys x) = (pc', m', s')"
  shows "\<exists>ps'. process_inv fd S f ps' (x\<lparr>p_mem := m', p_sys := s', threads := (threads x)[k := Call i t pc']\<rparr>)"
proof -
  let ?y = "x\<lparr>p_mem := m', p_sys := s', threads := (threads x)[k := Call i t pc']\<rparr>"
  note D = process_invD [OF inv]
  have ok: "t \<noteq> LOCK_NONE" "pc_ok S (p_mem x) ps i pc" using D(2) [OF nth_mem [OF k(1)]] k(2) by simp_all
  obtain ps' where sm: "step_mem S i t a (p_mem x) ps pc m' ps' pc'"
    using pc_step_mem [OF D(1) S ok(2,1) a step] by blast
  then have ev: "evolves (p_mem x) ps m' ps'" and ok': "mem_ok S m' ps'" "pc_ok S m' ps' i pc'"
    by (simp_all add: step_mem_def)
  note others = run_others [OF inv k a(2) sm]
  have rest: "rest ?y k = rest x k" by (simp add: rest_def)
  have "thread_locks.agrees (p_mem x, ps) ((if owns pc then [(i, t)] else []) @ rest x k)"
    using thread_locks.agrees_perm [OF D(5)] owners_split [of k x] k by simp
  from run_agrees [OF this sm] have agr: "thread_locks.agrees (p_mem ?y, ps') (owners ?y)"
    using thread_locks.agrees_perm owners_split [of k ?y] k by (simp add: rest)
  have "process_inv fd S f ps' ?y"
    unfolding process_inv_def
  proof (intro conjI allI impI ballI; (elim conjE)?)
    show "mem_ok S (p_mem ?y) ps'" using ok' by simp
    show "thread_ok S (p_mem ?y) ps' th" if "th \<in> set (threads ?y)" for th
      using that all_update [OF k(1), of "Call i t pc'" "thread_ok S m' ps'"] others(1) ok(1) ok'(2) by simp
    show "apart_nodes (threads ?y)" using others(2) by simp
    show "has_block (p_mem ?y) ps' (fst h)" if "h \<in> set (held ?y)" for h
      using that D(4) [of h] evolves_preds(3) [OF ev] by simp
    show "thread_locks.agrees (p_mem ?y, ps') (owners ?y)" by (rule agr)
    show "fds (p_sys ?y) fd = Some f" "compatible (p_sys ?y)" using pc_step_sys(1,2) [OF step D(6,7) ok(1)] D(6) by simp_all
    show "my_locks (p_sys ?y) (f_ino f) b = L_Exclusive" if "granted ?y j LOCK_WRITE" "b \<in> entry_bytes j" for j b
      using run_locks [OF inv k step ok(1) that] by simp
  qed
  then show ?thesis by blast
qed

lemma granted_update:
  assumes "granted (x\<lparr>threads := (threads x)[k := th], held := hs\<rparr>) i LOCK_WRITE"
    and "th \<noteq> Call i LOCK_WRITE (Returned 0)" "(i, LOCK_WRITE) \<in> set hs \<Longrightarrow> granted x i LOCK_WRITE"
  shows "granted x i LOCK_WRITE"
  using assms set_update_subset_insert [of "threads x" k th] by (auto simp: granted_def)

lemma granted_same:
  "granted (x\<lparr>threads := (threads x)[k := th]\<rparr>) i LOCK_WRITE \<Longrightarrow> th \<noteq> Call i LOCK_WRITE (Returned 0) \<Longrightarrow>
   granted x i LOCK_WRITE"
  using set_update_subset_insert [of "threads x" k th] by (auto simp: granted_def)

lemma inv_step:
  assumes "thread_step fd S x y" "process_inv fd S f ps x" "spaced S"
  shows "\<exists>ps'. process_inv fd S f ps' y"
proof -
  note inv = assms(2)
  note D = process_invD [OF inv]
  show ?thesis
    using assms(1)
  proof (cases rule: thread_step.cases)
    case create
    have "apart_nodes (threads x @ [Idle])"
      using D(3) by (auto simp: apart_nodes_def nth_append split: if_splits)
    then show ?thesis
      using inv by (intro exI [of _ ps]) (simp add: create process_inv_def owners_def granted_def)
  next
    case (call_lock k t i)
    have asked: "asked S (p_mem x) ps i"
      using call_lock(5) links_unique mem_okD(1) [OF D(1)] by (fastforce simp: may_ask_def asked_def)
    have "process_inv fd S f ps (x\<lparr>threads := (threads x)[k := Call i t (Load 0)], held := held x\<rparr>)"
      by (rule inv_bookkeeping [OF inv call_lock(2)])
        (use call_lock(3,4) asked D(4) in \<open>auto simp: behind_def dest: granted_same\<close>)
    then show ?thesis using call_lock(1) by auto
  next
    case (call_unlock k i t)
    have "(i, t) \<in> set (owners x)" using call_unlock(4) by (simp add: owners_def)
    then have "t \<noteq> LOCK_NONE" using D(5) unfolding thread_locks.agrees_def exclusive_def by fastforce
    moreover have "has_block (p_mem x) ps i" using D(4) [OF call_unlock(4)] by simp
    moreover have "granted x j LOCK_WRITE"
      if "granted (x\<lparr>threads := (threads x)[k := Call i t Clear_lock], held := remove1 (i, t) (held x)\<rparr>) j LOCK_WRITE" for j
      by (rule granted_update [OF that]) (auto simp: granted_def dest: set_remove1_subset [THEN subsetD])
    ultimately have "process_inv fd S f ps (x\<lparr>threads := (threads x)[k := Call i t Clear_lock], held := remove1 (i, t) (held x)\<rparr>)"
      by (intro inv_bookkeeping [OF inv call_unlock(2)])
        (use call_unlock(3,4) D(4) in \<open>auto dest: set_remove1_subset [THEN subsetD]\<close>)
    then show ?thesis using call_unlock(1) by auto
  next
    case (run k i t pc a spurious pc' m' s')
    then show ?thesis using inv_run [OF inv assms(3)] by blast
  next
    case (return_lock k i t r)
    let ?hs = "if r = 0 then (i, t) # held x else held x"
    have r: "Call i t (Returned r) \<in> set (threads x)" using return_lock(2,3) nth_mem by metis
    then have "r = 0 \<longrightarrow> has_block (p_mem x) ps i" using D(2) by fastforce
    moreover have "granted x j LOCK_WRITE"
      if "granted (x\<lparr>threads := (threads x)[k := Idle], held := ?hs\<rparr>) j LOCK_WRITE" for j
      by (rule granted_update [OF that]) (use r in \<open>auto simp: granted_def split: if_splits\<close>)
    ultimately have "process_inv fd S f ps (x\<lparr>threads := (threads x)[k := Idle], held := ?hs\<rparr>)"
      by (intro inv_bookkeeping [OF inv return_lock(2)])
        (use return_lock(3) D(4) in \<open>auto split: if_splits\<close>)
    then show ?thesis using return_lock(1) by auto
  next
    case (return_unlock k i t)
    have "process_inv fd S f ps (x\<lparr>threads := (threads x)[k := Idle], held := held x\<rparr>)"
      by (rule inv_bookkeeping [OF inv return_unlock(2)])
        (use return_unlock(3) D(4) in \<open>auto dest: granted_same\<close>)
    then show ?thesis using return_unlock(1) by auto
  next
    case (others s')
    then show ?thesis using inv by (intro exI [of _ ps]) (simp add: process_inv_def owners_def granted_def)
  qed
qed

lemma inv_fresh:
  assumes "fds s fd = Some f" "compatible s"
  shows "process_inv fd S f [] (fresh_process s)"
  using assms
  by (simp add: process_inv_def fresh_process_def mem_ok_def links_end blocks_def apart_nodes_def owners_def granted_def
      thread_locks.agrees_def table_ok_def table_value_def exclusive_def held_sum_def held_at_def lock_value_def)

lemma inv_reach:
  assumes "(thread_step fd S)\<^sup>*\<^sup>* (fresh_process s) x" "spaced S" "fds s fd = Some f" "compatible s"
  shows "\<exists>ps. process_inv fd S f ps x"
  using assms(1)
proof (induction rule: rtranclp_induct)
  case base
  then show ?case using inv_fresh [OF assms(3,4)] by blast
next
  case (step y z)
  then show ?case using inv_step [OF _ _ assms(2)] by blast
qed

section \<open>A run\<close>

text \<open>A process with one thread that asks for the write lock of the first section.\<close>

definition one_thread :: "pc \<Rightarrow> lock_mem \<Rightarrow> os \<Rightarrow> process" where
  "one_thread pc m s = \<lparr>p_mem = m, p_sys = s, threads = [Call 0 LOCK_WRITE pc], held = []\<rparr>"

lemma one_thread_step:
  assumes "pc_step fd 0 LOCK_WRITE a False pc (m, s) = (pc', m', s')" "a \<noteq> 0" "nodes m a = None"
  shows "thread_step fd S (one_thread pc m s) (one_thread pc' m' s')"
  using run [of 0 "one_thread pc m s" 0 LOCK_WRITE pc a fd False pc' m' s' S] assms by (simp add: one_thread_def)

definition ten_file :: fdesc where
  "ten_file = \<lparr>f_ino = 0, f_pos = 0, f_append = True\<rparr>"

lemma ten_facts: "fds ten_os 3 = Some ten_file" "compatible ten_os" "spaced {0}"
  by (simp_all add: ten_os_def ten_file_def compatible_def one_file_def spaced_def)

lemma ten_locks: "\<exists>x. (thread_step 3 {0})\<^sup>*\<^sup>* (fresh_process ten_os) x \<and> (0, LOCK_WRITE) \<in> set (held x)"
proof -
  let ?x = "fresh_process ten_os" and ?e = "\<lparr>first = 0, nodes = (\<lambda>_. None)\<rparr>"
  let ?n = "\<lambda>v. \<lparr>n_block = (new_block 0)\<lparr>locks := (locks (new_block 0))[0 := v]\<rparr>, n_next = 0\<rparr>"
  let ?m = "\<lambda>v. \<lparr>first = 8, nodes = [8 \<mapsto> ?n v]\<rparr>" and ?m1 = "\<lparr>first = 0, nodes = [8 \<mapsto> ?n 0]\<rparr>"
  have n0: "?n 0 = \<lparr>n_block = new_block 0, n_next = 0\<rparr>" by (simp add: new_block_def list_update_same_conv)
  obtain s1 where mal: "sys_malloc ten_os = (True, s1)" "s1 = popped ten_os"
    by (simp add: sys_malloc_def pop_eq ten_os_def one_file_def event_def)
  obtain s2 where setlk: "sys_fcntl_setlk 3 L_Exclusive (logdb_log_offset 0) sizeof_log_entry s1 = (0, s2)"
    using mal(2) by (auto simp: sys_fcntl_setlk_def pop_eq Let_def ten_os_def one_file_def event_def popped_def
        fcntl_conflict_def logdb_log_offset_def size_defs)
  have slot: "lock_slot (new_block 0) 0 = 0" "length (locks (new_block 0)) = 128" "locks (new_block 0) ! 0 = 0"
    "startindex (new_block 0) = 0"
    by (simp_all add: lock_slot_def new_block_def)
  have "(thread_step 3 {0})\<^sup>*\<^sup>* ?x (?x\<lparr>threads := [Idle]\<rparr>)"
    using create [of 3 "{0}" ?x] by (auto simp: fresh_process_def)
  also have "(thread_step 3 {0})\<^sup>*\<^sup>* (?x\<lparr>threads := [Idle]\<rparr>) (one_thread (Load 0) ?e ten_os)"
    using call_lock [of 0 "?x\<lparr>threads := [Idle]\<rparr>" LOCK_WRITE "{0}" 0 3]
    by (auto simp: fresh_process_def one_thread_def may_ask_def)
  also have "(thread_step 3 {0})\<^sup>*\<^sup>* (one_thread (Load 0) ?e ten_os) (one_thread (Tryagain1 0 0) ?e ten_os)"
    by (rule r_into_rtranclp, rule one_thread_step [of _ 9]) (simp_all add: cell_def)
  also have "(thread_step 3 {0})\<^sup>*\<^sup>* (one_thread (Tryagain1 0 0) ?e ten_os) (one_thread (Swap_cell 0 0 8) ?m1 s1)"
    by (rule r_into_rtranclp, rule one_thread_step [of _ 8]) (simp_all add: mal n0)
  also have "(thread_step 3 {0})\<^sup>*\<^sup>* (one_thread (Swap_cell 0 0 8) ?m1 s1) (one_thread (Read_value 8) (?m 0) s1)"
    by (rule r_into_rtranclp, rule one_thread_step [of _ 9]) (simp_all add: cell_def set_cell_def)
  also have "(thread_step 3 {0})\<^sup>*\<^sup>* (one_thread (Read_value 8) (?m 0) s1) (one_thread (Tryagain2 8 0) (?m 0) s1)"
    by (rule r_into_rtranclp, rule one_thread_step [of _ 9]) (simp_all add: counter_def n0 slot)
  also have "(thread_step 3 {0})\<^sup>*\<^sup>* (one_thread (Tryagain2 8 0) (?m 0) s1) (one_thread Set_lock (?m (-1)) s1)"
    by (rule r_into_rtranclp, rule one_thread_step [of _ 9])
      (simp_all add: counter_def n0 slot set_counter_def Let_def fun_eq_iff)
  also have "(thread_step 3 {0})\<^sup>*\<^sup>* (one_thread Set_lock (?m (-1)) s1) (one_thread (Returned 0) (?m (-1)) s2)"
    by (rule r_into_rtranclp, rule one_thread_step [of _ 9]) (simp_all add: setlk)
  also have "(thread_step 3 {0})\<^sup>*\<^sup>* (one_thread (Returned 0) (?m (-1)) s2)
      ((one_thread (Returned 0) (?m (-1)) s2)\<lparr>threads := [Idle], held := [(0, LOCK_WRITE)]\<rparr>)"
    using return_lock [of 0 "one_thread (Returned 0) (?m (-1)) s2" 0 LOCK_WRITE 0 3 "{0}"]
    by (auto simp: one_thread_def)
  finally show ?thesis by (intro exI conjI) (assumption, simp)
qed

section \<open>Properties\<close>

text \<open>C9: Every interleaving of the atomic steps of any number of threads, with allocation failures,
  failing and spuriously failing exchanges and any behaviour of other processes, keeps the promise of
  the write lock, provided that the blocks in use are apart: whoever holds the write lock of a section is
  the only holder of a lock on it in the process, and no other process has a lock on its entry.\<close>

theorem concurrent_locks_exclude:
  assumes "(thread_step fd S)\<^sup>*\<^sup>* (fresh_process s) x" "spaced S" "fds s fd = Some f" "compatible s"
    and "(i, LOCK_WRITE) \<in> set (held x)"
  shows "held_at (held x) i = [(i, LOCK_WRITE)] \<and>
    (\<forall>r b. r \<in> set (other_locks (p_sys x)) \<and> r_ino r = f_ino f \<and> within r b \<and> b \<in> entry_bytes i \<longrightarrow> r_mode r = L_None)"
proof -
  obtain ps where inv: "process_inv fd S f ps x" using inv_reach [OF assms(1-4)] by blast
  have "(i, LOCK_WRITE) \<in> set (owners x)" using assms(5) by (simp add: owners_def)
  then have "held_at (owners x) i = [(i, LOCK_WRITE)]"
    using thread_locks.writer_alone [OF process_invD(5) [OF inv]] by blast
  moreover have "held_at (held x) i \<noteq> []" using assms(5) set_held_at [of "(i, LOCK_WRITE)" "held x" i] by auto
  ultimately have alone: "held_at (held x) i = [(i, LOCK_WRITE)]"
    by (auto simp: owners_def held_at_def append_eq_Cons_conv)
  have "r_mode r = L_None"
    if r: "r \<in> set (other_locks (p_sys x))" "r_ino r = f_ino f" "within r b" "b \<in> entry_bytes i" for r b
  proof -
    have "my_locks (p_sys x) (f_ino f) b = L_Exclusive"
      using process_invD(8) [OF inv _ r(4)] assms(5) by (simp add: granted_def)
    then show ?thesis using exclusive_others [OF process_invD(7) [OF inv] _ r(1,3)] r(2) by simp
  qed
  with alone show ?thesis by blast
qed

theorem concurrent_locks_exclude_witness:
  "\<exists>x. (thread_step 3 {0})\<^sup>*\<^sup>* (fresh_process ten_os) x \<and> held_at (held x) 0 = [(0, LOCK_WRITE)]"
  using ten_locks concurrent_locks_exclude [OF _ ten_facts(3,1,2)] by blast

text \<open>C13: In every such run no call of a lock function has used a null, freed or foreign pointer, gone past
  the end of a block or called \<open>abort\<close>, every counter is the sum of the shares of the locks that are held or
  on their way, and the linked blocks stay sorted and apart.\<close>

theorem concurrent_calls_are_safe:
  assumes "(thread_step fd S)\<^sup>*\<^sup>* (fresh_process s) x" "spaced S" "fds s fd = Some f" "compatible s"
  shows "(\<forall>i t e. Call i t (Crashed e) \<notin> set (threads x)) \<and>
    (\<exists>ps. links (nodes (p_mem x)) (first (p_mem x)) ps \<and> blocks_ok (blocks (p_mem x) ps) \<and>
          (\<forall>i. lock_value (blocks (p_mem x) ps) i = held_sum (owners x) i))"
proof -
  obtain ps where inv: "process_inv fd S f ps x" using inv_reach [OF assms] by blast
  have "Call i t (Crashed e) \<notin> set (threads x)" for i t e
    using process_invD(2) [OF inv, of "Call i t (Crashed e)"] by auto
  moreover have "lock_value (blocks (p_mem x) ps) i = held_sum (owners x) i" for i
    using process_invD(5) [OF inv] by (simp add: thread_locks.agrees_def table_value_def)
  ultimately show ?thesis using mem_okD [OF process_invD(1) [OF inv]] by blast
qed

theorem concurrent_calls_are_safe_witness:
  "\<exists>x. (thread_step 3 {0})\<^sup>*\<^sup>* (fresh_process ten_os) x \<and> (0, LOCK_WRITE) \<in> set (held x) \<and>
       (\<forall>i t e. Call i t (Crashed e) \<notin> set (threads x))"
  using ten_locks concurrent_calls_are_safe [OF _ ten_facts(3,1,2)] by blast

text \<open>
  The discipline that the blocks are apart is needed, and the program does not keep it: it looks for a
  section with room from the last one down. \<open>acquire_writes\<close> is a number of threads that acquire a write
  lease one after the other, in one process.
\<close>

definition acquire_writes ::
  "nat \<Rightarrow> logdb_connection_t \<Rightarrow> 32 word \<Rightarrow> os \<Rightarrow> ((int \<times> logdb_lease_t) list \<times> logdb_connection_t \<times> os) outcome" where
  "acquire_writes n c sz s =
     ((\<lambda>x. obind x (\<lambda>(rs, c, s). obind (logdb_lease_acquire_write 3 zero_lease c sz s)
        (\<lambda>(r, lease, c, s). Done (rs @ [(r, lease)], c, s)))) ^^ n) (Done ([], c, s))"


text \<open>
  A read lock is one \<open>fcntl\<close> lock for the whole process: with two readers of a section, the first that
  unlocks takes the lock away from the other one. The program itself takes no read locks.
\<close>

lemma reader_loses_file_lock:
  "case obind (logdb_log_lock ten_log 5 LOCK_READ ten_os) (\<lambda>(_, log, s).
        obind (logdb_log_lock log 5 LOCK_READ s) (\<lambda>(_, log, s). logdb_log_unlock log 5 LOCK_READ s)) of
     Done (log, s) \<Rightarrow> map (\<lambda>b. locks b ! 0) (l_lock log) = [1] \<and> my_locks s 0 16 = L_None
   | Fault _ \<Rightarrow> False"
  by code_simp

end
