(* ===== verification/Alone.thy ===== *)
theory Alone
  imports Exclusion
begin

text \<open>
  A thread that runs alone from some point on: its call returns, and from the start of a call on it does
  what the function of theory Lock does in one step.
\<close>

section \<open>A thread that runs alone\<close>

definition alone :: "int \<Rightarrow> 32 word \<Rightarrow> logdb_log_lock_type \<Rightarrow> ptr \<Rightarrow> pc \<times> lock_mem \<times> os \<Rightarrow> pc \<times> lock_mem \<times> os" where
  "alone fd i t a x = (case x of (pc, m, s) \<Rightarrow> pc_step fd i t a False pc (m, s))"

text \<open>Some number of steps of the thread leads from one state to another.\<close>

definition goes :: "int \<Rightarrow> 32 word \<Rightarrow> logdb_log_lock_type \<Rightarrow> ptr \<Rightarrow> pc \<times> lock_mem \<times> os \<Rightarrow> pc \<times> lock_mem \<times> os \<Rightarrow> bool" where
  "goes fd i t a x y \<longleftrightarrow> (\<exists>n. (alone fd i t a ^^ n) x = y)"

lemma goes_refl: "goes fd i t a x x"
  unfolding goes_def by (intro exI [of _ 0]) simp

lemma goes_step: "goes fd i t a (pc_step fd i t a False pc ms) y \<Longrightarrow> goes fd i t a (pc, ms) y"
  unfolding goes_def
proof (elim exE)
  fix n assume "(alone fd i t a ^^ n) (pc_step fd i t a False pc ms) = y"
  then show "\<exists>n. (alone fd i t a ^^ n) (pc, ms) = y"
    by (intro exI [of _ "Suc n"]) (simp add: funpow_Suc_right alone_def split_beta del: funpow.simps)
qed

lemma goes_trans: "goes fd i t a x y \<Longrightarrow> goes fd i t a y z \<Longrightarrow> goes fd i t a x z"
  unfolding goes_def by (metis comp_apply funpow_add)

lemma goes_to: "pc_step fd i t a False pc ms = y \<Longrightarrow> goes fd i t a y z \<Longrightarrow> goes fd i t a (pc, ms) z"
  using goes_step by blast

text \<open>The blocks of the list, as theory Lock has them.\<close>

definition lists :: "lock_mem \<Rightarrow> logdb_log_lock_t list \<Rightarrow> bool" where
  "lists m bs \<longleftrightarrow> (\<exists>ps. links (nodes m) (first m) ps \<and> blocks m ps = bs)"

lemma links_suffix: "links N p (xs @ y # ys) \<Longrightarrow> links N y (y # ys)"
proof (cases xs rule: rev_cases)
  case (snoc us u)
  assume "links N p (xs @ y # ys)"
  then have "links N (n_next (the (N u))) (y # ys)" using links_append [of N p xs "y # ys"] snoc by simp
  then show ?thesis by (simp add: links_Cons)
qed (simp add: links_Cons)

lemma cell_next:
  assumes "links (nodes m) (first m) (xs @ ys)" "dest = (if xs = [] then 0 else last xs)" "cell m dest = Some lock"
  shows "links (nodes m) lock ys"
proof (cases "xs = []")
  case False
  then have "dest \<in> set xs" using assms(2) by simp
  then obtain n where n: "dest \<noteq> 0" "nodes m dest = Some n" using links_member [OF assms(1), of dest] by auto
  then have "lock = n_next (the (nodes m (last xs)))" using assms(2,3) False by (simp add: cell_def)
  with links_append [OF assms(1) False] show ?thesis by simp
qed (use assms in \<open>simp add: cell_def\<close>)

text \<open>A block is allocated and put in front of \<open>lock\<close>.\<close>

lemma insert_goes:
  assumes "links (nodes m) (first m) (xs @ ys)" "dest = (if xs = [] then 0 else last xs)" "cell m dest = Some lock"
    and "a \<noteq> 0" "nodes m a = None" "lock = 0 \<or> startindex (block_at m lock) > i"
  shows "case sys_malloc s of (good, s1) \<Rightarrow>
      if good then \<exists>m' ys'. goes fd i t a (Tryagain1 dest lock, m, s) (Read_value (ys' ! 0), m', s1) \<and>
             links (nodes m') (first m') (xs @ ys') \<and> blocks m' ys' = new_block i # blocks m ys \<and> 0 < length ys' \<and>
             blocks m' xs = blocks m xs \<and> nodes m' 0 = nodes m 0
      else goes fd i t a (Tryagain1 dest lock, m, s) (Returned (-1), m, s1)"
proof -
  obtain good s1 where mal: "sys_malloc s = (good, s1)" by fastforce
  let ?n = "\<lparr>n_block = new_block i, n_next = lock\<rparr>"
  let ?m = "m\<lparr>nodes := (nodes m)(a \<mapsto> ?n)\<rparr>"
  have a: "a \<notin> set (xs @ ys)" using links_member [OF assms(1)] assms(5) by fastforce
  have lk: "links (nodes m) lock ys" by (rule cell_next [OF assms(1-3)])
  have node: "lock = 0 \<or> (\<exists>n. nodes m lock = Some n \<and> startindex (n_block n) > i)"
    using assms(6) links_head [OF lk] links_member [OF lk] by (auto simp: block_at_def)
  have step: "pc_step fd i t a False (Tryagain1 dest lock) (m, s) =
      (if good then (Swap_cell dest lock a, ?m, s1) else (Returned (-1), m, s1))"
    using mal node by (auto simp: Let_def)
  have "dest = 0 \<or> dest \<in> set xs" using assms(2) by auto
  then have cell: "cell ?m dest = Some lock" using assms(3,4) a by (auto simp: cell_def)
  have l: "links (nodes ?m) (first ?m) (xs @ ys)"
    by (rule links_frame [of "nodes m"]) (use assms(1) a in auto)
  have "links (nodes (set_cell ?m dest a)) (first (set_cell ?m dest a)) (xs @ a # ys)"
    using links_insert [OF l links_distinct [OF l] assms(2) cell, of a ?n] assms(4) a by simp
  moreover have "block_at ?m q = (if q = a then new_block i else block_at m q)" for q by (simp add: block_at_def)
  then have "blocks (set_cell ?m dest a) (a # ys) = new_block i # blocks m ys" "blocks (set_cell ?m dest a) xs = blocks m xs"
    using a by (auto simp: blocks_def)
  moreover have "nodes (set_cell ?m dest a) 0 = nodes m 0" using assms(4) by (simp add: set_cell_def)
  moreover have "goes fd i t a (Tryagain1 dest lock, m, s) (Read_value a, set_cell ?m dest a, s1)" if good
    by (rule goes_to [OF step], simp only: that if_True, rule goes_to [OF _ goes_refl]) (use cell in simp)
  moreover have "goes fd i t a (Tryagain1 dest lock, m, s) (Returned (-1), m, s1)" if "\<not> good"
    by (rule goes_to [OF step]) (use that in \<open>simp add: goes_refl\<close>)
  ultimately show ?thesis
    unfolding mal prod.case
    by (cases good) (simp_all only: if_True if_False, intro exI [of _ "set_cell ?m dest a"] exI [of _ "a # ys"], simp_all)
qed

text \<open>The search for a block, from a place in the list at which the cell is as it was read.\<close>

lemma find_goes:
  assumes "links (nodes m) (first m) (xs @ ys)" "dest = (if xs = [] then 0 else last xs)" "cell m dest = Some lock"
    and "a \<noteq> 0" "nodes m a = None" "find_block i (blocks m ys) s = (r, s1)"
  shows "case r of
      None \<Rightarrow> goes fd i t a (Tryagain1 dest lock, m, s) (Returned (-1), m, s1)
    | Some (k, bs) \<Rightarrow> \<exists>m' ys'. goes fd i t a (Tryagain1 dest lock, m, s) (Read_value (ys' ! k), m', s1) \<and>
        links (nodes m') (first m') (xs @ ys') \<and> blocks m' ys' = bs \<and> k < length ys' \<and> blocks m' xs = blocks m xs \<and>
        nodes m' 0 = nodes m 0"
  using assms(1-3,6)
proof (induction ys arbitrary: xs dest lock r s s1 rule: list.induct)
  case Nil
  have "lock = 0" using cell_next [OF Nil.prems(1-3)] by (auto elim: links.cases)
  then show ?case
    using insert_goes [OF Nil.prems(1-3) assms(4,5), where i = i and t = t and s = s and fd = fd] Nil.prems(4) assms(4,5)
    by (auto split: prod.splits if_splits option.splits)
next
  case (Cons y ys)
  have y: "lock = y" "y \<noteq> 0" using cell_next [OF Cons.prems(1-3)] by (auto simp: links_Cons)
  then obtain n where n: "nodes m y = Some n" "n_block n = block_at m y"
    using cell_next [OF Cons.prems(1-3)] by (auto simp: links_Cons block_at_def)
  show ?case
  proof (cases "startindex (block_at m y) > i")
    case True
    then show ?thesis
      using insert_goes [OF Cons.prems(1-3) assms(4,5), where i = i and t = t and s = s and fd = fd] Cons.prems(4) y n
      by (auto split: prod.splits if_splits option.splits)
  next
    case before: False
    show ?thesis
    proof (cases "i - startindex (block_at m y) > 127")
      case True
      obtain lock' where lock': "cell m y = Some lock'" using n y by (simp add: cell_def)
      obtain r' s2 where f: "find_block i (blocks m ys) s = (r', s2)" by fastforce
      have go: "goes fd i t a (Tryagain1 dest lock, m, s) z" if "goes fd i t a (Tryagain1 y lock', m, s) z" for z
        by (rule goes_to [of _ _ _ _ _ _ "(Load y, m, s)"], use y n before True in \<open>simp add: Let_def\<close>)
          (rule goes_to [OF _ that], use lock' in simp)
      have IH: "case r' of None \<Rightarrow> goes fd i t a (Tryagain1 y lock', m, s) (Returned (-1), m, s2)
        | Some (k, bs) \<Rightarrow> \<exists>m' ys'. goes fd i t a (Tryagain1 y lock', m, s) (Read_value (ys' ! k), m', s2) \<and>
            links (nodes m') (first m') ((xs @ [y]) @ ys') \<and> blocks m' ys' = bs \<and> k < length ys' \<and>
            blocks m' (xs @ [y]) = blocks m (xs @ [y]) \<and> nodes m' 0 = nodes m 0"
        by (rule Cons.IH) (use Cons.prems(1) lock' f in simp_all)
      have r: "r = map_option (\<lambda>(k, bs'). (Suc k, block_at m y # bs')) r'" "s1 = s2"
        using Cons.prems(4) f before True by auto
      show ?thesis
      proof (cases r')
        case None
        then show ?thesis using IH r go by simp
      next
        case (Some kb)
        obtain k bs where kb: "kb = (k, bs)" by fastforce
        with IH Some obtain m' ys' where m': "goes fd i t a (Tryagain1 y lock', m, s) (Read_value (ys' ! k), m', s2)"
          "links (nodes m') (first m') ((xs @ [y]) @ ys')" "blocks m' ys' = bs" "k < length ys'"
          "blocks m' (xs @ [y]) = blocks m (xs @ [y])" "nodes m' 0 = nodes m 0" by auto
        then show ?thesis using r Some kb go [OF m'(1)]
          by (auto intro!: exI [of _ m'] exI [of _ "y # ys'"])
      qed
    next
      case False
      have "goes fd i t a (Tryagain1 dest lock, m, s) (Read_value y, m, s)"
        by (rule goes_to [OF _ goes_refl]) (use y n before False in \<open>simp add: Let_def\<close>)
      then show ?thesis using Cons.prems(1,4) before False
        by (auto intro!: exI [of _ m] exI [of _ "y # ys"])
    qed
  qed
qed

lemma walk_goes:
  assumes "links (nodes m) lock ys"
  shows "case unlock_block i (blocks m ys) of
      Done k \<Rightarrow> k < length ys \<and> goes fd i t a (Inproc_walk failed lock, m, s) (Inproc_walk failed (ys ! k), m, s) \<and>
                \<not> startindex (block_at m (ys ! k)) + 127 < i
    | Fault e \<Rightarrow> nodes m 0 = None \<longrightarrow> goes fd i t a (Inproc_walk failed lock, m, s) (Crashed e, m, s)"
  using assms
proof (induction ys arbitrary: lock rule: list.induct)
  case Nil
  then have "lock = 0" by (auto elim: links.cases)
  then show ?case by (auto intro!: goes_to [OF _ goes_refl])
next
  case (Cons y ys)
  then obtain n where n: "lock = y" "nodes m y = Some n" "links (nodes m) (n_next n) ys" by (auto simp: links_Cons)
  have b: "n_block n = block_at m y" using n(2) by (simp add: block_at_def)
  show ?case
  proof (cases "startindex (block_at m y) + 127 < i")
    case True
    have step: "pc_step fd i t a False (Inproc_walk failed y) (m, s) = (Inproc_walk failed (n_next n), m, s)"
      using n(2) b True by simp
    show ?thesis
      using Cons.IH [OF n(3)] True n(1) goes_to [OF step]
      by (auto split: outcome.splits)
  next
    case False
    then show ?thesis using n(1) by (simp add: goes_refl)
  qed
qed

lemma unlock_goes:
  assumes "links (nodes m) (first m) ps" "nodes m 0 = None" "l_lock log = blocks m ps"
  shows "case logdb_log_inproc_unlock log i t of
      Done log' \<Rightarrow> \<exists>m'. goes fd i t a (Inproc_load failed, m, s) (if failed then Returned (-3) else Unlocked, m', s) \<and>
        links (nodes m') (first m') ps \<and> l_lock log' = blocks m' ps
    | Fault e \<Rightarrow> goes fd i t a (Inproc_load failed, m, s) (Crashed e, m, s)"
proof -
  have start: "goes fd i t a (Inproc_load failed, m, s) y" if "goes fd i t a (Inproc_walk failed (first m), m, s) y" for y
    by (rule goes_to [OF _ that]) simp
  note walk = walk_goes [OF assms(1), where i = i and fd = fd and t = t and a = a and failed = failed and s = s]
  show ?thesis
  proof (cases "unlock_block i (blocks m ps)")
    case (Fault e)
    then show ?thesis using walk start assms(2) by (simp add: logdb_log_inproc_unlock_def assms(3))
  next
    case (Done k)
    then have k: "k < length ps" "\<not> startindex (block_at m (ps ! k)) + 127 < i"
      and go: "goes fd i t a (Inproc_walk failed (first m), m, s) (Inproc_walk failed (ps ! k), m, s)"
      using walk by simp_all
    obtain n where n: "nodes m (ps ! k) = Some n" "n_block n = block_at m (ps ! k)"
      using links_member [OF assms(1), of "ps ! k"] k(1) by (auto simp: block_at_def)
    let ?b = "blocks m ps ! k"
    let ?v = "locks ?b ! lock_slot ?b i"
    note c = set_counter_list [OF assms(1) k(1), of i]
    have last: "goes fd i t a (Inproc_load failed, m, s) z"
      if "pc_step fd i t a False (Inproc_walk failed (ps ! k)) (m, s) = z" for z
      by (rule start, rule goes_trans [OF go], rule goes_to [OF that goes_refl])
    consider "t = LOCK_NONE" | "t \<noteq> LOCK_NONE" "lock_slot ?b i \<ge> length (locks ?b)"
      | "t \<noteq> LOCK_NONE" "lock_slot ?b i < length (locks ?b)" by force
    then show ?thesis
    proof cases
      case 1
      then show ?thesis using last n k(2) by (simp add: logdb_log_inproc_unlock_def assms(3) Done Let_def)
    next
      case 2
      then show ?thesis using last n k(2) c(3) by (simp add: logdb_log_inproc_unlock_def assms(3) Done Let_def)
    next
      case 3
      define v where "v = (if t = LOCK_READ then ?v - 1 else ?v + 1)"
      have res: "logdb_log_inproc_unlock log i t = Done (log\<lparr>l_lock := set_lock (blocks m ps) k (lock_slot ?b i) v\<rparr>)"
        using 3 by (simp add: logdb_log_inproc_unlock_def assms(3) Done Let_def v_def)
      have step: "pc_step fd i t a False (Inproc_walk failed (ps ! k)) (m, s) =
          (if failed then Returned (-3) else Unlocked, set_counter m (ps ! k) i v, s)"
        using 3 n k(2) c(3) by (simp add: Let_def v_def)
      show ?thesis unfolding res outcome.case
        by (intro exI conjI, rule last [OF step]) (use c(1,2) [of v] in simp_all)
    qed
  qed
qed

text \<open>A run of the threads' steps, compared with the result of a call of theory Lock.\<close>

definition ends_as :: "int \<Rightarrow> 32 word \<Rightarrow> logdb_log_lock_type \<Rightarrow> ptr \<Rightarrow> pc \<times> lock_mem \<times> os \<Rightarrow> pc \<Rightarrow> logdb_log_t \<Rightarrow> os \<Rightarrow> bool" where
  "ends_as fd i t a x pc log s \<longleftrightarrow> (\<exists>m. goes fd i t a x (pc, m, s) \<and> lists m (l_lock log))"

lemma ends_as_goes: "goes fd i t a x y \<Longrightarrow> ends_as fd i t a y pc log s \<Longrightarrow> ends_as fd i t a x pc log s"
  unfolding ends_as_def using goes_trans by blast

lemma ends_as_step: "ends_as fd i t a (pc_step fd i t a False pc ms) pc' log s \<Longrightarrow> ends_as fd i t a (pc, ms) pc' log s"
  unfolding ends_as_def using goes_step by blast

lemma unlock_ends:
  assumes "links (nodes m) (first m) ps" "nodes m 0 = None" "l_lock log = blocks m ps"
    and "logdb_log_inproc_unlock log i t = Done log'"
  shows "ends_as fd i t a (Inproc_load failed, m, s) (if failed then Returned (-3) else Unlocked) log' s"
  using unlock_goes [OF assms(1-3), where i = i and fd = fd and t = t and a = a and failed = failed and s = s]
  unfolding assms(4) outcome.case ends_as_def lists_def
  by (elim exE conjE) (intro exI conjI, assumption, assumption, simp)

lemma unlock_alone:
  assumes "lists m (l_lock log)" "nodes m 0 = None" "l_fd log = fd"
    and "logdb_log_unlock log i t s = Done (log', s')"
  shows "ends_as fd i t a (Clear_lock, m, s) Unlocked log' s'"
proof -
  obtain ps where ps: "links (nodes m) (first m) ps" "l_lock log = blocks m ps" using assms(1) by (auto simp: lists_def)
  obtain r s1 where setlk: "sys_fcntl_setlk fd L_None (logdb_log_offset i) sizeof_log_entry s = (r, s1)" by fastforce
  then have "logdb_log_inproc_unlock log i t = Done log'" "s' = s1"
    using assms(3,4) by (auto simp: logdb_log_unlock_def obind_eq_Done)
  with unlock_ends [OF ps(1) assms(2) ps(2), where failed = False and s = s1] setlk show ?thesis
    by (intro ends_as_step) simp
qed

lemma find_block_slot:
  "find_block i bs s = (Some (k, bs'), s') \<Longrightarrow> \<forall>b \<in> set bs. length (locks b) = 128 \<Longrightarrow>
   k < length bs' \<and> lock_slot (bs' ! k) i < 128 \<and> (\<forall>b \<in> set bs'. length (locks b) = 128)"
proof (induction i bs s arbitrary: k bs' s' rule: find_block.induct)
  case (1 i s)
  then show ?case by (auto simp: lock_slot_def new_block_def split: prod.splits if_splits)
next
  case (2 i b bs s)
  have slot: "lock_slot b i < 128" if "\<not> i - startindex b > 127"
    using that by (simp add: lock_slot_def word_less_nat_alt)
  consider "startindex b > i" | "\<not> startindex b > i" "i - startindex b > 127"
    | "\<not> startindex b > i" "\<not> i - startindex b > 127" by blast
  then show ?case
  proof cases
    case 1
    then show ?thesis using "2.prems" by (auto simp: lock_slot_def new_block_def split: prod.splits if_splits)
  next
    case 2
    then obtain k' bs'' where "find_block i bs s = (Some (k', bs''), s')" "k = Suc k'" "bs' = b # bs''"
      using "2.prems"(1) by (auto split: prod.splits)
    with "2.IH" [OF 2, of k' bs'' s'] "2.prems"(2) show ?thesis by simp
  next
    case 3
    then show ?thesis using "2.prems" slot by auto
  qed
qed

text \<open>From the moment at which the counter has been exchanged: the record lock, and its failure.\<close>

lemma taken_ends:
  assumes c: "links (nodes m) (first m) qs" "blocks m qs = l_lock log" "nodes m 0 = None" and fd: "l_fd log = fd"
    and t: "t = LOCK_READ \<and> mode = L_Shared \<or> t = LOCK_WRITE \<and> mode = L_Exclusive"
    and run: "(case sys_fcntl_setlk fd mode (logdb_log_offset i) sizeof_log_entry s of (q, s2) \<Rightarrow>
        if q = -1 then obind (logdb_log_inproc_unlock log i t) (\<lambda>log. Done (-3, log, s2)) else Done (0, log, s2)) = Done (r, log', s')"
  shows "ends_as fd i t a (Set_lock, m, s) (Returned r) log' s'"
proof -
  obtain q s2 where setlk: "sys_fcntl_setlk fd mode (logdb_log_offset i) sizeof_log_entry s = (q, s2)" by fastforce
  show ?thesis
  proof (cases "q = -1")
    case True
    then have u: "logdb_log_inproc_unlock log i t = Done log'" "r = -3" "s' = s2"
      using run setlk by (auto simp: obind_eq_Done)
    have "ends_as fd i t a (Inproc_load True, m, s2) (Returned r) log' s'"
      using unlock_ends [OF c(1,3) _ u(1), where failed = True and s = s2] c(2) u(2,3) by simp
    then show ?thesis by (intro ends_as_step) (use setlk t True in auto)
  next
    case False
    then have u: "r = 0" "log' = log" "s' = s2" using run setlk by auto
    have "goes fd i t a (Set_lock, m, s) (Returned 0, m, s2)"
      by (rule goes_to [OF _ goes_refl]) (use setlk t False in auto)
    moreover have "lists m (l_lock log)" using c(1,2) by (auto simp: lists_def)
    ultimately show ?thesis using u by (auto simp: ends_as_def)
  qed
qed

lemma lock_alone:
  assumes "lists m (l_lock log)" "nodes m 0 = None" "\<forall>b \<in> set (l_lock log). length (locks b) = 128" "l_fd log = fd"
    and "a \<noteq> 0" "nodes m a = None" "logdb_log_lock log i t s = Done (r, log', s')"
  shows "ends_as fd i t a (Load 0, m, s) (Returned r) log' s'"
proof -
  obtain ps where ps: "links (nodes m) (first m) ps" "l_lock log = blocks m ps" using assms(1) by (auto simp: lists_def)
  obtain found s1 where f: "find_block i (blocks m ps) s = (found, s1)" by fastforce
  have cell: "cell m 0 = Some (first m)" by (simp add: cell_def)
  have load: "goes fd i t a (Load 0, m, s) y" if "goes fd i t a (Tryagain1 0 (first m), m, s) y" for y
    by (rule goes_to [OF _ that]) (simp add: cell)
  note find = find_goes [where xs = "[]" and ys = ps and dest = 0, unfolded append_Nil if_P [OF refl], OF ps(1) refl cell assms(5,6) f,
      where fd = fd and t = t]
  show ?thesis
  proof (cases found)
    case None
    then have "r = -1" "log' = log" "s' = s1" using assms(7) f ps(2) by (auto simp: logdb_log_lock_def)
    then show ?thesis using find None load assms(1) by (auto simp: ends_as_def)
  next
    case (Some kb)
    obtain k bs where kb: "kb = (k, bs)" by fastforce
    obtain m1 qs where m1: "goes fd i t a (Tryagain1 0 (first m), m, s) (Read_value (qs ! k), m1, s1)"
      "links (nodes m1) (first m1) qs" "blocks m1 qs = bs" "k < length qs" "nodes m1 0 = None"
      using assms(2) find Some kb by auto
    have len: "length (locks (bs ! k)) = 128" "lock_slot (bs ! k) i < 128"
      using find_block_slot [OF f [unfolded Some kb]] assms(3) ps(2) by auto
    let ?b = "bs ! k"
    let ?v = "locks ?b ! lock_slot ?b i"
    note c = set_counter_list [OF m1(2,4), of i, unfolded m1(3)]
    have val: "counter m1 (qs ! k) i = Some ?v" using c(3) len by (simp add: Let_def)
    have reach: "ends_as fd i t a (Load 0, m, s) pc l s2" if "ends_as fd i t a (Tryagain2 (qs ! k) ?v, m1, s1) pc l s2" for pc l s2
      by (rule ends_as_goes [OF load [OF m1(1)]], rule ends_as_step) (use that val in simp)
    have taken: "ends_as fd i t a (Load 0, m, s) (Returned r) log' s'"
      if v: "t = LOCK_READ \<and> ?v \<ge> 0 \<and> v = ?v + 1 \<and> mode = L_Shared \<or> t = LOCK_WRITE \<and> ?v = 0 \<and> v = -1 \<and> mode = L_Exclusive"
      for v mode
    proof -
      let ?log = "log\<lparr>l_lock := set_lock bs k (lock_slot ?b i) v\<rparr>" and ?m = "set_counter m1 (qs ! k) i v"
      have z: "nodes ?m 0 = None" using m1(5) by (simp add: set_counter_def)
      have "ends_as fd i t a (Set_lock, ?m, s1) (Returned r) log' s'"
        by (rule taken_ends [where log = ?log and mode = mode, OF c(1) _ z])
          (use v c(2) f Some kb assms(4,7) ps(2) in \<open>auto simp: logdb_log_lock_def Let_def\<close>)
      then show ?thesis
        by (intro reach ends_as_step) (use val v in \<open>auto simp: Let_def\<close>)
    qed
    consider "t = LOCK_READ" "?v \<ge> 0" | "t = LOCK_WRITE" "?v = 0"
      | "\<not> (t = LOCK_READ \<and> ?v \<ge> 0)" "\<not> (t = LOCK_WRITE \<and> ?v = 0)" by blast
    then show ?thesis
    proof cases
      case 3
      have "goes fd i t a (Tryagain2 (qs ! k) ?v, m1, s1) (Returned (-2), m1, s1)"
        by (rule goes_to [OF _ goes_refl]) (use 3 in \<open>auto simp: Let_def\<close>)
      moreover have "r = -2" "log' = log\<lparr>l_lock := bs\<rparr>" "s' = s1"
        using assms(7) f Some kb ps(2) 3 by (auto simp: logdb_log_lock_def Let_def)
      ultimately show ?thesis using m1(2,3) by (intro reach) (auto simp: ends_as_def lists_def)
    qed (use taken in blast)+
  qed
qed

text \<open>The call comes to its end when the thread runs alone.\<close>

definition finishes :: "int \<Rightarrow> 32 word \<Rightarrow> logdb_log_lock_type \<Rightarrow> ptr \<Rightarrow> pc \<times> lock_mem \<times> os \<Rightarrow> bool" where
  "finishes fd i t a x \<longleftrightarrow> (\<exists>pc ms. goes fd i t a x (pc, ms) \<and> (pc = Unlocked \<or> (\<exists>r. pc = Returned r)))"

lemma finishes_goes: "goes fd i t a x y \<Longrightarrow> finishes fd i t a y \<Longrightarrow> finishes fd i t a x"
  unfolding finishes_def using goes_trans by blast

lemma finishes_step: "finishes fd i t a (pc_step fd i t a False pc ms) \<Longrightarrow> finishes fd i t a (pc, ms)"
  unfolding finishes_def using goes_step by blast

lemma finishes_end: "finishes fd i t a (Returned r, ms)" "finishes fd i t a (Unlocked, ms)"
  unfolding finishes_def using goes_refl by blast+

lemma walk_finishes:
  assumes ok: "mem_ok S m ps" "has_block m ps i" "t \<noteq> LOCK_NONE"
    and lock: "lock \<in> set ps" "startindex (block_at m lock) \<le> i"
  shows "finishes fd i t a (Inproc_walk failed lock, m, s)"
proof -
  note l = mem_okD(1) [OF ok(1)]
  obtain xs ys where ps: "ps = xs @ lock # ys" using lock(1) by (auto simp: in_set_conv_decomp)
  obtain p where p: "p \<in> set ps" "covers (block_at m p) i" using ok(2) by (auto simp: has_block_def)
  have sorted: "blocks_ok (blocks m xs @ blocks m (lock # ys))" using mem_okD(2) [OF ok(1)] ps by simp
  have suffix: "links (nodes m) lock (lock # ys)"
    using links_suffix l ps by simp
  have "p \<in> set (lock # ys)"
  proof (rule ccontr)
    assume "p \<notin> set (lock # ys)"
    then have "unat (startindex (block_at m p)) + 127 < unat (startindex (block_at m lock))"
      using p(1) ps sorted by (auto simp: blocks_ok_append blocks_def)
    then show False using lock(2) p(2) by (auto simp: covers_nat word_le_nat_alt)
  qed
  then obtain k where k: "k < length (lock # ys)" "(lock # ys) ! k = p" by (metis in_set_conv_nth)
  let ?q = "(lock # ys) ! k"
  have "blocks m (lock # ys) ! k = block_at m p"
    unfolding blocks_def nth_map [OF k(1)] k(2) by (rule refl)
  then have "covers (blocks m (lock # ys) ! k) i" using p(2) by simp
  then have u: "unlock_block i (blocks m (lock # ys)) = Done k"
    using unlock_block_ok [of "blocks m (lock # ys)" k i] sorted k(1) by (simp add: blocks_ok_append)
  have go: "goes fd i t a (Inproc_walk failed lock, m, s) (Inproc_walk failed p, m, s)"
    and here: "\<not> startindex (block_at m p) + 127 < i"
    using walk_goes [OF suffix, where i = i and fd = fd and t = t and a = a and failed = failed and s = s]
    unfolding u outcome.case k(2) by blast+
  obtain n where n: "nodes m p = Some n" "block_at m p = n_block n" using mem_ok_node [OF ok(1) p(1)] by blast
  show ?thesis
    by (rule finishes_goes [OF go], rule finishes_step)
      (use n here ok(3) mem_ok_set_counter(4) [OF ok(1) p] in \<open>simp add: finishes_end\<close>)
qed

lemma release_finishes:
  assumes "mem_ok S m ps" "has_block m ps i" "t \<noteq> LOCK_NONE"
  shows "finishes fd i t a (Inproc_load failed, m, s)" "finishes fd i t a (Clear_lock, m, s)" "finishes fd i t a (Set_lock, m, s)"
proof -
  show *: "finishes fd i t a (Inproc_load failed, m, s)" for failed s
    by (rule finishes_step) (use walk_finishes [OF assms] head_before [OF assms(1,2)] in simp)
  have set: "finishes fd i t a (if r = -1 then Inproc_load True else Returned 0, m, s)" for r s
    using * finishes_end(1) by simp
  show "finishes fd i t a (Clear_lock, m, s)"
    by (rule finishes_step) (simp add: * split: prod.split)
  show "finishes fd i t a (Set_lock, m, s)"
    by (rule finishes_step, simp only: pc_step.simps prod.case_eq_if, rule set)
qed

lemma take_finishes:
  assumes "mem_ok S m ps" "t \<noteq> LOCK_NONE" "lock \<in> set ps" "covers (block_at m lock) i"
  shows "finishes fd i t a (Read_value lock, m, s)" "finishes fd i t a (Tryagain2 lock v, m, s)"
proof -
  let ?v = "lock_value (blocks m ps) i"
  have c: "counter m lock i = Some ?v" by (rule mem_ok_set_counter(4) [OF assms(1,3,4)])
  have set: "finishes fd i t a (Set_lock, set_counter m lock i w, s)" for w
    by (rule release_finishes(3) [OF mem_ok_set_counter(1) [OF assms(1,3,4)] _ assms(2)])
      (use assms(3,4) evolves_preds(3) [OF mem_ok_set_counter(2) [OF assms(1,3,4)]] in \<open>auto simp: has_block_def\<close>)
  have now: "finishes fd i t a (Tryagain2 lock ?v, m, s)"
    by (rule finishes_step) (use c set in \<open>auto simp: Let_def finishes_end\<close>)
  then show "finishes fd i t a (Read_value lock, m, s)"
    by (intro finishes_step) (simp add: c)
  show "finishes fd i t a (Tryagain2 lock v, m, s)"
    by (rule finishes_step) (use c set now in \<open>auto simp: Let_def finishes_end\<close>)
qed

lemma swap_finishes:
  assumes "mem_ok S m ps" "spaced S" "t \<noteq> LOCK_NONE" "pc_ok S m ps i (Swap_cell dest lock new)" "cell m dest = Some lock"
  shows "finishes fd i t a (Swap_cell dest lock new, m, s)"
proof -
  obtain ps' where "step_mem S i t (Suc new) m ps (Swap_cell dest lock new) (set_cell m dest new) ps' (Read_value new)"
    using swap_step [OF assms(1,2,4,5), of "Suc new"] by auto
  then have "finishes fd i t a (Read_value new, set_cell m dest new, s)"
    by (intro take_finishes(1) [of S _ ps', OF _ assms(3)]) (simp_all add: step_mem_def)
  then show ?thesis using assms(5) by (intro finishes_step) simp
qed

lemma cell_private: "dest \<noteq> a \<Longrightarrow> cell (m\<lparr>nodes := (nodes m)(a := x)\<rparr>) dest = cell m dest"
  by (simp add: cell_def)

text \<open>The call allocates a block, and then sees the same cell.\<close>

lemma alloc_facts:
  assumes "mem_ok S m ps" "pc_ok S m ps i (Tryagain1 dest lock)" "lock = 0 \<or> i < startindex (block_at m lock)"
    and "a \<noteq> 0" "nodes m a = None" "sys_malloc s = (good, s1)"
    and m': "m' = m\<lparr>nodes := (nodes m)(a \<mapsto> \<lparr>n_block = new_block i, n_next = lock\<rparr>)\<rparr>"
  shows "mem_ok S m' ps" "pc_ok S m' ps i (Swap_cell dest lock a)"
    and "pc_step fd i t a False (Tryagain1 dest lock) (m, s) =
          (if good then (Swap_cell dest lock a, m', s1) else (Returned (-1), m, s1))"
    and "cell m' dest = cell m dest"
proof -
  have "step_mem S i LOCK_READ a m ps (Tryagain1 dest lock) m' ps (Swap_cell dest lock a)"
    unfolding m' by (rule alloc_step [OF assms(1)]) (use assms(2-5) in auto)
  then show "mem_ok S m' ps" "pc_ok S m' ps i (Swap_cell dest lock a)" unfolding step_mem_def by blast+
  show "pc_step fd i t a False (Tryagain1 dest lock) (m, s) =
      (if good then (Swap_cell dest lock a, m', s1) else (Returned (-1), m, s1))"
    using assms(2,3,6) m' mem_ok_node [OF assms(1), of lock] by (auto simp: Let_def)
  have "dest \<noteq> a" using assms(2,4,5) mem_ok_node [OF assms(1), of dest] by (auto simp: behind_def)
  then show "cell m' dest = cell m dest" unfolding m' by (rule cell_private)
qed

text \<open>The search, with a cell that has not changed since it was read.\<close>

lemma search_finishes:
  assumes "mem_ok S m ps" "spaced S" "t \<noteq> LOCK_NONE" "pc_ok S m ps i (Tryagain1 dest lock)" "cell m dest = Some lock"
    and "a \<noteq> 0" "nodes m a = None"
  shows "finishes fd i t a (Tryagain1 dest lock, m, s)"
  using assms(4,5)
proof (induction "4294967296 - (if dest = 0 then 0 else Suc (unat (startindex (block_at m dest))))" arbitrary: dest lock rule: less_induct)
  case less
  show ?case
  proof (cases "lock = 0 \<or> i < startindex (block_at m lock)")
    case True
    obtain good s1 where mal: "sys_malloc s = (good, s1)" by fastforce
    define m' where "m' = m\<lparr>nodes := (nodes m)(a \<mapsto> \<lparr>n_block = new_block i, n_next = lock\<rparr>)\<rparr>"
    note alloc = alloc_facts [OF assms(1) less.prems(1) True assms(6,7) mal m'_def]
    have "finishes fd i t a (Swap_cell dest lock a, m', s1)"
      by (rule swap_finishes [OF alloc(1) assms(2,3) alloc(2)]) (simp only: alloc(4) less.prems(2))
    then show ?thesis by (intro finishes_step) (simp only: alloc(3) finishes_end split: if_split, blast)
  next
    case False
    then obtain n where n: "nodes m lock = Some n" "block_at m lock = n_block n" "lock \<in> set ps" "lock \<noteq> 0"
      using less.prems(1) mem_ok_node [OF assms(1), of lock] by auto
    show ?thesis
    proof (cases "i - startindex (block_at m lock) > 127")
      case True
      have b: "unat (startindex (block_at m lock)) + 127 < unat i"
        using beyond_block [OF assms(1) n(3) _ True] False by simp
      obtain lock' where lock': "cell m lock = Some lock'" "lock' = 0 \<or> lock' \<in> set ps"
        using mem_ok_cell [OF assms(1), of lock] n(3) by blast
      have "finishes fd i t a (Tryagain1 lock lock', m, s)"
      proof (rule less.hyps)
        have "unat (startindex (block_at m dest)) < unat (startindex (block_at m lock))" if nz: "dest \<noteq> 0"
        proof -
          have d: "dest \<in> set ps" using less.prems(1) nz by (simp add: behind_def)
          then obtain xs ys where ps: "ps = xs @ dest # ys" by (auto simp: in_set_conv_decomp)
          obtain nd where nd: "nodes m dest = Some nd" "n_next nd = lock" using less.prems(2) nz by (auto simp: cell_def)
          have "links (nodes m) lock ys"
            using links_append [of "nodes m" "first m" "xs @ [dest]" ys] mem_okD(1) [OF assms(1)] ps nd by simp
          then obtain ys' where "ys = lock # ys'" using n(4) by (auto elim: links.cases)
          then show ?thesis using mem_okD(2) [OF assms(1)] ps by (simp add: blocks_ok_append)
        qed
        moreover have "unat (startindex (block_at m lock)) < 4294967296" using unsigned_less [of "startindex (block_at m lock)"] by simp
        ultimately show "4294967296 - (if lock = 0 then 0 else Suc (unat (startindex (block_at m lock))))
          < 4294967296 - (if dest = 0 then 0 else Suc (unat (startindex (block_at m dest))))"
          using n(4) by (auto intro!: diff_less_mono2)
        show "pc_ok S m ps i (Tryagain1 lock lock')" using less.prems(1) n(3) b lock'(2) by (simp add: behind_def)
        show "cell m lock = Some lock'" by (rule lock'(1))
      qed
      then have "finishes fd i t a (Load lock, m, s)" by (intro finishes_step) (simp add: lock')
      then show ?thesis by (intro finishes_step) (use n False True in \<open>simp add: Let_def\<close>)
    next
      case here: False
      then have "finishes fd i t a (Read_value lock, m, s)"
        by (intro take_finishes(1) [OF assms(1,3) n(3)] in_block) (use False in simp_all)
      then show ?thesis by (intro finishes_step) (use n False here in \<open>simp add: Let_def\<close>)
    qed
  qed
qed

lemma exchange_finishes:
  assumes ok: "mem_ok S m ps" "spaced S" "t \<noteq> LOCK_NONE" "pc_ok S m ps i (Swap_cell dest lock new)" and a: "a \<noteq> 0" "nodes m a = None"
  shows "finishes fd i t a (Swap_cell dest lock new, m, s)"
proof -
  obtain p where p: "cell m dest = Some p" using mem_ok_cell [OF ok(1), of dest] ok(4) by (auto simp: behind_def)
  show ?thesis
  proof (cases "p = lock")
    case True
    then show ?thesis
      by (intro swap_finishes [OF ok(1-3)]) (use ok(4) p in simp_all)
  next
    case False
    let ?m = "m\<lparr>nodes := (nodes m)(new := None)\<rparr>"
    have new: "new \<notin> set ps" "new \<noteq> a" "new \<noteq> 0" using ok(4) a by auto
    have sm: "step_mem S i t a m ps (Swap_cell dest lock new) ?m ps (Tryagain1 dest p)"
      by (rule swap_fails [OF ok(1) _ p]) (use ok(4) in simp)
    have "dest \<noteq> new" using ok(4) new by (auto simp: behind_def)
    then have "cell ?m dest = Some p" unfolding p [symmetric] by (rule cell_private)
    then have "finishes fd i t a (Tryagain1 dest p, ?m, s)"
      by (intro search_finishes [where ps = ps, OF _ ok(2,3) _ _ a(1)])
        (use sm a new in \<open>simp_all add: step_mem_def\<close>)
    then show ?thesis using False by (intro finishes_step) (simp add: p)
  qed
qed

lemma tryagain_finishes:
  assumes ok: "mem_ok S m ps" "spaced S" "t \<noteq> LOCK_NONE" "pc_ok S m ps i (Tryagain1 dest lock)" and a: "a \<noteq> 0" "nodes m a = None"
  shows "finishes fd i t a (Tryagain1 dest lock, m, s)"
proof -
  obtain p where p: "cell m dest = Some p" "p = 0 \<or> p \<in> set ps"
    using mem_ok_cell [OF ok(1), of dest] ok(4) by (auto simp: behind_def)
  have exact: "finishes fd i t a (Tryagain1 dest p, m, s)" for s
    by (intro search_finishes [OF ok(1-3) _ p(1) a]) (use ok(4) p in simp)
  show ?thesis
  proof (cases "lock = 0 \<or> i < startindex (block_at m lock)")
    case True
    obtain good s1 where mal: "sys_malloc s = (good, s1)" by fastforce
    define m' where "m' = m\<lparr>nodes := (nodes m)(a \<mapsto> \<lparr>n_block = new_block i, n_next = lock\<rparr>)\<rparr>"
    note alloc = alloc_facts [OF ok(1) ok(4) True a mal m'_def]
    have "finishes fd i t a (Swap_cell dest lock a, m', s1)"
    proof (cases "p = lock")
      case True
      show ?thesis
        by (rule swap_finishes [OF alloc(1) ok(2,3) alloc(2)]) (simp only: alloc(4) p(1) True)
    next
      case False
      have "m'\<lparr>nodes := (nodes m')(a := None)\<rparr> = m" using a(2) by (cases m) (simp add: m'_def fun_upd_idem)
      then have "pc_step fd i t a False (Swap_cell dest lock a) (m', s1) = (Tryagain1 dest p, m, s1)"
        using alloc(4) p(1) False by simp
      then show ?thesis using exact by (intro finishes_step) simp
    qed
    then show ?thesis by (intro finishes_step) (simp only: alloc(3) finishes_end split: if_split, blast)
  next
    case False
    then obtain n where n: "nodes m lock = Some n" "block_at m lock = n_block n" "lock \<in> set ps" "lock \<noteq> 0"
      using ok(4) mem_ok_node [OF ok(1), of lock] by auto
    show ?thesis
    proof (cases "i - startindex (block_at m lock) > 127")
      case True
      have b: "unat (startindex (block_at m lock)) + 127 < unat i"
        using beyond_block [OF ok(1) n(3) _ True] False by simp
      obtain q where q: "cell m lock = Some q" "q = 0 \<or> q \<in> set ps" using mem_ok_cell [OF ok(1), of lock] n(3) by blast
      have "finishes fd i t a (Tryagain1 lock q, m, s)"
        by (intro search_finishes [OF ok(1-3) _ q(1) a]) (use ok(4) n(3) b q in \<open>simp add: behind_def\<close>)
      then have "finishes fd i t a (Load lock, m, s)" by (intro finishes_step) (simp add: q(1))
      then show ?thesis by (intro finishes_step) (use n False True in \<open>simp add: Let_def\<close>)
    next
      case here: False
      then have "finishes fd i t a (Read_value lock, m, s)"
        by (intro take_finishes(1) [OF ok(1,3) n(3)] in_block) (use False in simp_all)
      then show ?thesis by (intro finishes_step) (use n False here in \<open>simp add: Let_def\<close>)
    qed
  qed
qed

lemma call_finishes:
  assumes ok: "mem_ok S m ps" "spaced S" "t \<noteq> LOCK_NONE" "pc_ok S m ps i pc" and a: "a \<noteq> 0" "nodes m a = None"
  shows "finishes fd i t a (pc, m, s)"
proof (cases pc)
  case (Load dest)
  then obtain p where p: "cell m dest = Some p" "p = 0 \<or> p \<in> set ps"
    using mem_ok_cell [OF ok(1), of dest] ok(4) by (auto simp: behind_def)
  then have "finishes fd i t a (Tryagain1 dest p, m, s)"
    by (intro search_finishes [OF ok(1-3) _ p(1) a]) (use ok(4) Load in simp)
  then show ?thesis unfolding Load by (intro finishes_step) (simp add: p(1))
next
  case (Swap_cell dest lock new)
  then show ?thesis using exchange_finishes [OF ok(1-3) _ a] ok(4) by simp
next
  case (Tryagain1 dest lock)
  then show ?thesis using tryagain_finishes [OF ok(1-3) _ a] ok(4) by simp
qed (use ok take_finishes [OF ok(1,3)] release_finishes [OF ok(1) _ ok(3)] walk_finishes [OF ok(1) _ ok(3)] finishes_end in auto)

section \<open>Properties\<close>

text \<open>C14: In every run of the threads of a process, a call that is in progress comes to its end when its
  thread runs alone from there on, wherever the other threads stopped: no thread that has been
  suspended inside a lock function can keep another one from finishing.\<close>

theorem concurrent_calls_return:
  assumes "(thread_step fd S)\<^sup>*\<^sup>* (fresh_process s) x" "spaced S" "fds s fd = Some f" "compatible s"
    and "Call i t pc \<in> set (threads x)" "a \<noteq> 0" "nodes (p_mem x) a = None"
  shows "\<exists>n pc' m' s'. (alone fd i t a ^^ n) (pc, p_mem x, p_sys x) = (pc', m', s') \<and>
           (pc' = Unlocked \<or> (\<exists>r. pc' = Returned r))"
proof -
  obtain ps where inv: "process_inv fd S f ps x" using inv_reach [OF assms(1-4)] by blast
  have "t \<noteq> LOCK_NONE" "pc_ok S (p_mem x) ps i pc" using process_invD(2) [OF inv assms(5)] by simp_all
  then have "finishes fd i t a (pc, p_mem x, p_sys x)"
    by (rule call_finishes [OF process_invD(1) [OF inv] assms(2) _ _ assms(6,7)])
  then show ?thesis unfolding finishes_def goes_def by (metis surj_pair)
qed

theorem concurrent_calls_return_witness:
  "\<exists>x n pc m s. (thread_step 3 {0})\<^sup>*\<^sup>* (fresh_process ten_os) x \<and> Call 0 LOCK_WRITE (Load 0) \<in> set (threads x) \<and>
     (alone 3 0 LOCK_WRITE 8 ^^ n) (Load 0, p_mem x, p_sys x) = (pc, m, s) \<and> (pc = Unlocked \<or> (\<exists>r. pc = Returned r))"
proof -
  let ?x = "fresh_process ten_os"
  let ?y = "?x\<lparr>threads := [Idle]\<rparr>" and ?z = "?x\<lparr>threads := [Call 0 LOCK_WRITE (Load 0)]\<rparr>"
  have "thread_step 3 {0} ?x ?y" using create [of 3 "{0}" ?x] by (simp add: fresh_process_def)
  moreover have "thread_step 3 {0} ?y ?z"
    using call_lock [of 0 ?y LOCK_WRITE "{0}" 0 3] by (simp add: fresh_process_def may_ask_def)
  ultimately have run: "(thread_step 3 {0})\<^sup>*\<^sup>* ?x ?z" by auto
  have z: "Call 0 LOCK_WRITE (Load 0) \<in> set (threads ?z)" "(8 :: ptr) \<noteq> 0" "nodes (p_mem ?z) 8 = None"
    by (simp_all add: fresh_process_def)
  show ?thesis using concurrent_calls_return [OF run ten_facts(3,1,2) z] run z(1) by blast
qed

text \<open>C15: From the start of a call on, a thread that runs alone does, step by step, what \<open>logdb_log_lock\<close> and
  \<open>logdb_log_unlock\<close> of theory Lock do at once: the same result, the same list of blocks and counters, the
  same state of the system.\<close>

theorem alone_is_sequential:
  assumes "lists m (l_lock log)" "nodes m 0 = None" "\<forall>b \<in> set (l_lock log). length (locks b) = 128"
    and "a \<noteq> 0" "nodes m a = None"
  shows "(logdb_log_lock log i t s = Done (r, log', s') \<longrightarrow>
           (\<exists>n m'. (alone (l_fd log) i t a ^^ n) (Load 0, m, s) = (Returned r, m', s') \<and> lists m' (l_lock log'))) \<and>
         (logdb_log_unlock log i t s = Done (log', s') \<longrightarrow>
           (\<exists>n m'. (alone (l_fd log) i t a ^^ n) (Clear_lock, m, s) = (Unlocked, m', s') \<and> lists m' (l_lock log')))"
  using lock_alone [OF assms(1-3) refl assms(4,5), of i t s r log' s'] unlock_alone [OF assms(1,2) refl, of i t s log' s']
  unfolding ends_as_def goes_def by blast

theorem alone_is_sequential_witness:
  "\<exists>log s n m. logdb_log_lock ten_log 5 LOCK_WRITE ten_os = Done (0, log, s) \<and>
     (alone 3 5 LOCK_WRITE 8 ^^ n) (Load 0, \<lparr>first = 0, nodes = (\<lambda>_. None)\<rparr>, ten_os) = (Returned 0, m, s) \<and> lists m (l_lock log)"
proof -
  have "case logdb_log_lock ten_log 5 LOCK_WRITE ten_os of Done (r, _) \<Rightarrow> r = 0 | Fault _ \<Rightarrow> False"
    by code_simp
  then obtain log s where run: "logdb_log_lock ten_log 5 LOCK_WRITE ten_os = Done (0, log, s)"
    by (auto split: outcome.splits prod.splits)
  have start: "lists \<lparr>first = 0, nodes = (\<lambda>_. None)\<rparr> (l_lock ten_log)"
    by (simp add: lists_def ten_log_def blocks_def links_end)
  have fd: "l_fd ten_log = 3" "\<forall>b \<in> set (l_lock ten_log). length (locks b) = 128" by (simp_all add: ten_log_def)
  from alone_is_sequential [OF start _ fd(2), of 8 5 LOCK_WRITE ten_os 0 log s] run show ?thesis
    unfolding fd(1) by auto
qed

end
