(* ===== verification/Grant.thy ===== *)
theory Grant
  imports Exclusion
begin

text \<open>
  \<^verbatim>\<open>src/logdb_lease.c\<close>, \<open>logdb_lease_acquire_write\<close> under every schedule of failures and every set of locks of
  other processes: what it does to the files and the record locks in every round of its loop, what a lease
  that it grants promises, and the one failure that it overlooks.
\<close>

section \<open>What acquiring does to the system\<close>

text \<open>
  No file changes but the log, which only grows at its end; no record lock is given up, and a new one is an
  exclusive one on the log.
\<close>

definition log_grows :: "fdesc \<Rightarrow> os \<Rightarrow> os \<Rightarrow> bool" where
  "log_grows f s s' \<longleftrightarrow> frame s s' \<and>
     (\<forall>j. \<exists>zs. inode s' j = inode s j @ zs \<and> (j = f_ino f \<or> zs = [])) \<and>
     (compatible s \<longrightarrow> compatible s') \<and>
     (\<forall>j b. my_locks s' j b = my_locks s j b \<or> j = f_ino f \<and> my_locks s' j b = L_Exclusive)"

lemma log_growsD:
  assumes "log_grows f s s'"
  shows "frame s s'" "\<exists>zs. inode s' j = inode s j @ zs \<and> (j = f_ino f \<or> zs = [])" "compatible s \<Longrightarrow> compatible s'"
    "my_locks s' j b = my_locks s j b \<or> j = f_ino f \<and> my_locks s' j b = L_Exclusive"
  using assms by (auto simp: log_grows_def)

lemma log_grows_trans [trans]:
  assumes "log_grows f s t" "log_grows g t u" "f_ino g = f_ino f"
  shows "log_grows f s u"
proof -
  have "\<exists>zs. inode u j = inode s j @ zs \<and> (j = f_ino f \<or> zs = [])" for j
    using log_growsD(2) [OF assms(1), of j] log_growsD(2) [OF assms(2), of j] assms(3) by auto
  moreover have "my_locks u j b = my_locks s j b \<or> j = f_ino f \<and> my_locks u j b = L_Exclusive" for j b
    using log_growsD(4) [OF assms(1), of j b] log_growsD(4) [OF assms(2), of j b] assms(3) by auto
  ultimately show ?thesis
    using assms(1,2) frame_trans unfolding log_grows_def by blast
qed

lemma log_grows_calm: "same_data s s' \<Longrightarrow> my_locks s' = my_locks s \<Longrightarrow> log_grows f s s'"
  by (auto simp: log_grows_def same_data_def compatible_def) (simp add: frame_def)

lemma log_grows_refl [simp]: "log_grows f s s"
  by (rule log_grows_calm) simp_all

lemma same_ino: "log_grows f s s' \<Longrightarrow> fds s fd = Some g \<Longrightarrow> \<exists>g'. fds s' fd = Some g' \<and> f_ino g' = f_ino g \<and> f_append g' = f_append g"
  by (rule frame_fd [OF log_growsD(1)])

lemma lseek_grows: "sys_lseek fd offs wh s = (r, s') \<Longrightarrow> log_grows f s s'"
  by (rule log_grows_calm [OF sys_lseek_same])
     (auto simp: sys_lseek_def Let_def split: option.splits if_splits)

lemma append_grows:
  assumes "sys_write fd bs s = (r, s')" "fds s fd = Some f" "f_append f"
  shows "log_grows f s s'"
proof -
  have "frame s s'"
    using assms frame_trans [OF frame_steps(1)] frame_trans [OF frame_steps(2) frame_steps(4)]
    by (auto simp: sys_write_def pop_eq Let_def split: if_splits)
  with assms show ?thesis
    by (auto simp: log_grows_def sys_write_def pop_eq Let_def write_at_end compatible_def split: if_splits)
qed

lemma read_space_grows:
  assumes "logdb_lease_read_entry_space log i sz s = (fits, len, s')" "fds s (l_fd log) = Some f"
  shows "log_grows g s s'"
proof -
  obtain off l where e: "logdb_log_read_entry log i s = (off, l, s')"
    using assms(1) by (auto simp: logdb_lease_read_entry_space_def Let_def split: prod.splits if_splits)
  have "my_locks s' = my_locks s" using arg_cong [OF read_entry_spec(1) [OF e assms(2)], of my_locks] by simp
  then show ?thesis by (rule log_grows_calm [OF read_space_spec(1) [OF assms]])
qed

lemma walk_entries_grows:
  "walk_entries log sz index visited s = (index', visited', off, s') \<Longrightarrow> fds s (l_fd log) = Some f \<Longrightarrow> log_grows f s s'"
proof (induction log sz index visited s arbitrary: f rule: walk_entries.induct)
  case (1 log sz index visited s)
  show ?case
  proof (cases "index = 0 \<or> \<not> visited < LOGDB_LEASE_MAX_WALK")
    case True
    with "1.prems" show ?thesis by (auto simp: walk_entries.simps [of log sz index] split: if_splits)
  next
    case False
    obtain fits len t where e: "logdb_lease_read_entry_space log (index - 1) sz s = (fits, len, t)"
      by (cases "logdb_lease_read_entry_space log (index - 1) sz s")
    have t: "log_grows f s t" by (rule read_space_grows [OF e "1.prems"(2)])
    obtain g where g: "fds t (l_fd log) = Some g" "f_ino g = f_ino f" using same_ino [OF t "1.prems"(2)] by blast
    show ?thesis
    proof (cases fits)
      case True
      with False e "1.prems"(1) t show ?thesis by (simp add: walk_entries.simps [of log sz index])
    next
      case no: False
      have "walk_entries log sz (index - 1) (visited + 1) t = (index', visited', off, s')"
        using "1.prems"(1) False no e by (simp add: walk_entries.simps [of log sz index])
      with "1.IH" [OF _ _ e [symmetric] refl no _ g(1)] False have "log_grows g t s'" by auto
      then show ?thesis using log_grows_trans [OF t _ g(2)] by blast
    qed
  qed
qed

lemma lease_choose_grows:
  assumes "lease_choose log visited sz s = (r, s')" "fds s (l_fd log) = Some f" "f_append f"
  shows "log_grows f s s'"
proof -
  obtain p s1 where p: "sys_lseek (l_fd log) 0 SEEK_END s = (p, s1)" by fastforce
  have s1: "log_grows f s s1" by (rule lseek_grows [OF p])
  obtain g where g: "fds s1 (l_fd log) = Some g" "f_ino g = f_ino f" using same_ino [OF s1 assms(2)] by blast
  obtain i v off s2 where w: "walk_entries log sz (logdb_log_index_from_offset p - of_nat visited) 0 s1 = (i, v, off, s2)"
    by (metis prod_cases4)
  have s2: "log_grows f s s2" by (rule log_grows_trans [OF s1 walk_entries_grows [OF w g(1)] g(2)])
  obtain h where h: "fds s2 (l_fd log) = Some h" "f_ino h = f_ino f" "f_append h"
    using same_ino [OF s2 assms(2)] assms(3) by blast
  obtain n s3 where n: "sys_write (l_fd log) (le16 0) s2 = (n, s3)" by fastforce
  have s3: "log_grows f s s3" by (rule log_grows_trans [OF s2 append_grows [OF n h(1,3)] h(2)])
  obtain q s4 where q: "sys_lseek (l_fd log) 0 SEEK_CUR s3 = (q, s4)" by fastforce
  have s4: "log_grows f s s4" by (rule log_grows_trans [OF s3 lseek_grows [OF q] refl])
  show ?thesis
    using assms(1) s1 s2 s3 s4 by (auto simp: lease_choose_def append_entry_def p w n q split: if_splits)
qed

text \<open>The lock that is taken, whatever the list of blocks is.\<close>

lemma inproc_unlock_fd: "logdb_log_inproc_unlock log i t = Done log' \<Longrightarrow> l_fd log' = l_fd log"
  by (auto simp: logdb_log_inproc_unlock_def Let_def obind_eq_Done split: if_splits)

lemma log_lock_grows:
  assumes "logdb_log_lock log i LOCK_WRITE s = Done (r, log', s')" "fds s (l_fd log) = Some f" "compatible s"
  shows "l_fd log' = l_fd log" "log_grows f s s'"
    and "r = 0 \<Longrightarrow> b \<in> entry_bytes i \<Longrightarrow> my_locks s' (f_ino f) b = L_Exclusive"
proof -
  obtain found s1 where fb: "find_block i (l_lock log) s = (found, s1)" by fastforce
  have s1: "log_grows f s s1" "fds s1 (l_fd log) = Some f" "compatible s1"
    using find_block_keeps [OF fb] assms(2,3) by (auto intro!: log_grows_calm simp: compatible_def)
  obtain q s2 where q: "sys_fcntl_setlk (l_fd log) L_Exclusive (logdb_log_offset i) sizeof_log_entry s1 = (q, s2)"
    by fastforce
  note lk = setlk_entry [OF q s1(2,3)]
  have "log_grows f s1 s2"
  proof (cases "q = -1")
    case True
    then have "s2 = popped s1"
      using q s1(2) by (auto simp: sys_fcntl_setlk_def pop_eq Let_def split: if_splits)
    then show ?thesis by (auto intro!: log_grows_calm)
  next
    case False
    have "my_locks s2 j b = my_locks s1 j b \<or> j = f_ino f \<and> my_locks s2 j b = L_Exclusive" for j b
      using lk(3) [of j b] lk(4) [OF False, of b] by blast
    then show ?thesis
      using sys_setlk_same [OF q] lk(2) by (auto simp: log_grows_def same_data_def)
  qed
  then have s2: "log_grows f s s2" by (rule log_grows_trans [OF s1(1) _ refl])
  show "l_fd log' = l_fd log" "log_grows f s s'"
    "r = 0 \<Longrightarrow> b \<in> entry_bytes i \<Longrightarrow> my_locks s' (f_ino f) b = L_Exclusive"
    using assms(1) s1(1) s2 lk(4)
    by (auto simp: logdb_log_lock_def fb q Let_def obind_eq_Done split: option.splits if_splits prod.splits
        dest!: inproc_unlock_fd)
qed


text \<open>What a granted lease promises about the log file and its locks.\<close>

definition lease_held :: "fdesc \<Rightarrow> logdb_lease_t \<Rightarrow> 32 word \<Rightarrow> os \<Rightarrow> bool" where
  "lease_held f lease sz s \<longleftrightarrow>
     ls_connection lease \<and> ls_type lease = LOCK_WRITE \<and> ls_len lease = sz \<and>
     unat (ls_index lease) < log_count (inode s (f_ino f)) \<and>
     uint (entry_at (inode s (f_ino f)) (unat (ls_index lease))) + uint sz \<le> LOGDB_SECTION_SIZE \<and>
     (\<forall>b \<in> entry_bytes (ls_index lease). my_locks s (f_ino f) b = L_Exclusive)"

lemma lease_take_grows:
  assumes "lease_take log i off sz s = Done (r, log', s')" "fds s (l_fd log) = Some f" "compatible s"
  shows "l_fd log' = l_fd log" "log_grows f s s'" "r = Some lease \<Longrightarrow> lease_held f lease sz s'"
proof -
  obtain q log1 s1 where lk: "logdb_log_lock log i LOCK_WRITE s = Done (q, log1, s1)"
    using assms(1) by (auto simp: lease_take_def obind_eq_Done)
  note g = log_lock_grows [OF lk assms(2,3)]
  obtain f1 where f1: "fds s1 (l_fd log1) = Some f1" "f_ino f1 = f_ino f" using same_ino [OF g(2) assms(2)] g(1) by auto
  obtain fits len s2 where sp: "logdb_lease_read_entry_space log1 i sz s1 = (fits, len, s2)" by (metis prod_cases3)
  note rs = read_space_spec [OF sp f1(1)]
  have eq: "(r, log', s') = (if q \<noteq> 0 then (None, log1, s1)
      else (if fits then Some \<lparr>ls_connection = True, ls_index = i, ls_offset = off, ls_len = sz, ls_type = LOCK_WRITE\<rparr>
            else None, log1, s2))"
    using assms(1) by (auto simp: lease_take_def lk sp)
  have s2: "log_grows f s1 s2" by (rule read_space_grows [OF sp f1(1)])
  show "l_fd log' = l_fd log" using eq g(1) by (simp split: if_splits)
  show "log_grows f s s'" using eq g(2) log_grows_trans [OF g(2) s2 refl] by (simp split: if_splits)
  assume "r = Some lease"
  then have "q = 0" fits "s' = s2" and
    l: "lease = \<lparr>ls_connection = True, ls_index = i, ls_offset = off, ls_len = sz, ls_type = LOCK_WRITE\<rparr>"
    using eq by (simp_all split: if_splits)
  moreover have "my_locks s2 (f_ino f) b = L_Exclusive" if "b \<in> entry_bytes i" for b
    using log_growsD(4) [OF s2, of "f_ino f" b] g(3) [OF \<open>q = 0\<close> that] by auto
  moreover have "inode s2 (f_ino f) = file_of s1 (l_fd log1)"
    using rs(1) f1 by (simp add: same_data_def file_of_open)
  ultimately show "lease_held f lease sz s'" using rs(2) by (auto simp: lease_held_def size_defs)
qed

lemma lease_walk_grows:
  "lease_walk n c visited sz s = Done (r, lease, c', s') \<Longrightarrow> fds s (l_fd (c_log c)) = Some f \<Longrightarrow> f_append f \<Longrightarrow> compatible s \<Longrightarrow>
     log_grows f s s' \<and> (r = 0 \<and> lease_held f lease sz s' \<and> c_readers c' = c_readers c \<or> r = -1 \<and> c_readers c' = c_readers c - 1)"
proof (induction n c visited sz s arbitrary: f rule: lease_walk.induct)
  case (2 n c visited sz s)
  obtain ch s1 where ch: "lease_choose (c_log c) visited sz s = (ch, s1)" by fastforce
  have s1: "log_grows f s s1" by (rule lease_choose_grows [OF ch "2.prems"(2,3)])
  show ?case
  proof (cases ch)
    case None
    with "2.prems"(1) s1 ch show ?thesis by (auto simp: rwlock_unlock_def)
  next
    case (Some a)
    obtain i v off where a: "a = (i, v, off)" by (metis prod_cases3)
    obtain l log s2 where take: "lease_take (c_log c) i off sz s1 = Done (l, log, s2)"
      and rest: "(case l of None \<Rightarrow> lease_walk n (c\<lparr>c_log := log\<rparr>) v sz s2
        | Some lease \<Rightarrow> Done (0, lease, c\<lparr>c_log := log\<rparr>, s2)) = Done (r, lease, c', s')"
      using "2.prems"(1) ch Some a by (auto simp: obind_eq_Done Let_def)
    obtain g where g: "fds s1 (l_fd (c_log c)) = Some g" "f_ino g = f_ino f" using same_ino [OF s1 "2.prems"(2)] by blast
    note tk = lease_take_grows [OF take g(1) log_growsD(3) [OF s1 "2.prems"(4)]]
    have s2: "log_grows f s s2" by (rule log_grows_trans [OF s1 tk(2) g(2)])
    show ?thesis
    proof (cases l)
      case None
      obtain h where h: "fds s2 (l_fd log) = Some h" "f_ino h = f_ino f" "f_append h"
        using same_ino [OF s2 "2.prems"(2)] tk(1) "2.prems"(3) by auto
      have "log_grows h s2 s' \<and> (r = 0 \<and> lease_held h lease sz s' \<and> c_readers c' = c_readers c \<or>
              r = -1 \<and> c_readers c' = c_readers c - 1)"
        using "2.IH" [OF ch [symmetric] Some a [symmetric] refl take refl refl refl None, of h] rest None h
          log_growsD(3) [OF s2 "2.prems"(4)]
        by simp
      with h(2) log_grows_trans [OF s2 _ h(2)] show ?thesis by (auto simp: lease_held_def)
    next
      case (Some l')
      with rest s2 tk(3) [of l'] g(2) show ?thesis by (auto simp: lease_held_def)
    qed
  qed
qed simp

section \<open>Properties\<close>

text \<open>C17: Whatever fails, whatever locks other processes hold and however often the loop goes round: acquiring a
  write lease changes no file but the log, to whose end it may add; it returns 0 or -1, and counts one more reader
  of the connection exactly if it returns 0. Then the lease is one on an existing section with room for the size
  that was asked for, this process has the exclusive lock of the bytes of the section's entry, and no other process
  has any lock on them.\<close>

theorem granted_lease_excludes:
  assumes "logdb_lease_acquire_write n lease c sz s = Done (r, lease', c', s')"
    and "fds s (l_fd (c_log c)) = Some f" "f_append f" "compatible s"
  shows "(r = 0 \<or> r = -1) \<and> c_readers c' = (if r = 0 then c_readers c + 1 else c_readers c) \<and>
    (\<forall>j. j \<noteq> f_ino f \<longrightarrow> inode s' j = inode s j) \<and> (\<exists>zs. inode s' (f_ino f) = inode s (f_ino f) @ zs) \<and>
    (r = 0 \<longrightarrow> ls_connection lease' \<and> ls_type lease' = LOCK_WRITE \<and> ls_len lease' = sz \<and>
       unat (ls_index lease') < log_count (inode s' (f_ino f)) \<and>
       uint (entry_at (inode s' (f_ino f)) (unat (ls_index lease'))) + uint sz \<le> LOGDB_SECTION_SIZE \<and>
       (\<forall>b \<in> entry_bytes (ls_index lease'). my_locks s' (f_ino f) b = L_Exclusive \<and>
          (\<forall>r \<in> set (other_locks s'). r_ino r = f_ino f \<and> within r b \<longrightarrow> r_mode r = L_None)))"
proof -
  obtain ok s1 where p: "sys_pthread s = (ok, s1)" by fastforce
  have s1: "log_grows f s s1"
    using p by (intro log_grows_calm) (auto simp: sys_pthread_def pop_eq Let_def)
  have "log_grows f s s' \<and> (r = 0 \<and> lease_held f lease' sz s' \<and> c_readers c' = c_readers c + 1 \<or>
      r = -1 \<and> c_readers c' = c_readers c)"
  proof (cases "uint sz > LOGDB_SECTION_SIZE \<or> \<not> ok")
    case True
    with assms(1) p s1 show ?thesis
      by (auto simp: logdb_lease_acquire_write_def logdb_lease_acquire_prelude_def split: if_splits)
  next
    case False
    let ?c = "c\<lparr>c_readers := c_readers c + 1\<rparr>"
    have w: "lease_walk n ?c 0 sz s1 = Done (r, lease', c', s')"
      using assms(1) False p by (simp add: logdb_lease_acquire_write_def logdb_lease_acquire_prelude_def)
    obtain g where g: "fds s1 (l_fd (c_log ?c)) = Some g" "f_ino g = f_ino f" "f_append g"
      using same_ino [OF s1 assms(2)] assms(3) by auto
    from lease_walk_grows [OF w g(1,3) log_growsD(3) [OF s1 assms(4)]] log_grows_trans [OF s1 _ g(2)] g(2)
    show ?thesis by (auto simp: lease_held_def)
  qed
  then have g: "log_grows f s s'" and o: "r = 0 \<and> lease_held f lease' sz s' \<and> c_readers c' = c_readers c + 1 \<or>
      r = -1 \<and> c_readers c' = c_readers c"
    by blast+
  have files: "(\<forall>j. j \<noteq> f_ino f \<longrightarrow> inode s' j = inode s j)" "\<exists>zs. inode s' (f_ino f) = inode s (f_ino f) @ zs"
    using log_growsD(2) [OF g] by (metis append_Nil2, blast)
  show ?thesis
    using o files exclusive_others [OF log_growsD(3) [OF g assms(4)]] by (auto simp: lease_held_def)
qed

theorem granted_lease_excludes_witness:
  "\<exists>l c s. logdb_lease_acquire_write 3 zero_lease ex_conn 3
      (ex_os (logdb_header @ [1, 2, 3, 4, 5]) (logdb_log_header @ le16 5) [Full, Full, Fail]) = Done (0, l, c, s) \<and>
     ls_len l = 3 \<and> (\<forall>b \<in> entry_bytes (ls_index l). my_locks s 1 b = L_Exclusive)"
proof -
  let ?s = "ex_os (logdb_header @ [1, 2, 3, 4, 5]) (logdb_log_header @ le16 5) [Full, Full, Fail]"
  have "case logdb_lease_acquire_write 3 zero_lease ex_conn 3 ?s of Done (r, _) \<Rightarrow> r = 0 | Fault _ \<Rightarrow> False"
    by code_simp
  then obtain l c s where run: "logdb_lease_acquire_write 3 zero_lease ex_conn 3 ?s = Done (0, l, c, s)"
    by (auto split: outcome.splits)
  have "fds ?s (l_fd (c_log ex_conn)) = Some \<lparr>f_ino = 1, f_pos = 6, f_append = True\<rparr>"
    by (simp add: ex_os_def ex_conn_def)
  from granted_lease_excludes [OF run this] run show ?thesis
    by (auto simp: compatible_def)
qed

text \<open>
  The append of an empty entry is checked with a comparison of the result of \<open>write\<close>, -1, to a \<open>sizeof\<close>, which
  is unsigned: a failure passes as a success.
\<close>

lemma one_section: "unat k \<le> length xs \<Longrightarrow> db_sections (logdb_log_header @ le16 k) (logdb_header @ xs) = [take (unat k) xs]"
  by (simp add: db_sections_def log_count_def size_defs section_of_def seg_def entry_at_first)


end
