(* ===== verification/Spec2Isabelle.thy ===== *)
theory Spec2Isabelle
  imports Flatten Tests Tools Alone Grant Skip SystemCheck
begin

text \<open>
  LogDB: a key-value log in one file, shared by threads and processes.

  \<^bold>\<open>The program.\<close> A database file is a 6-byte header followed by sections of 65536 bytes. A second file,
  the log, holds a header and one 16-bit entry per section: the number of bytes of the section that
  are valid. A commit writes its data behind the valid bytes of a section and then stores the new
  length in the log; the store of the length is the point at which the data becomes part of the
  database. The last process to close the database appends the log to it (\<open>logdb_close\<close>), the first
  one to open it makes a log file of that copy again (\<open>logdb_open\<close>).

  \<^bold>\<open>The theories\<close>, in the order of their dependence (paths are under \<^verbatim>\<open>src/\<close> of the repository):

  \<^item> LogDB_Prelude: outcomes with the faults of C, positional writes into byte lists, little-endian
    integers.
  \<^item> Kernel: the POSIX calls as functions on a state of the operating system, with a schedule of
    failures and short transfers. It models the system, not the repository.
  \<^item> IO (\<^verbatim>\<open>logdb_io.c\<close>): the transfer loops. Locale \<open>positional_store\<close>, interpreted by the loops.
  \<^item> Format (\<^verbatim>\<open>logdb_internal.h\<close>, \<^verbatim>\<open>logdb_data.h\<close>, the structs in the files, the offset functions).
  \<^item> Buffer (\<^verbatim>\<open>logdb_buffer.c\<close>): reference-counted chained buffers on an explicit heap, and what a
    buffer denotes as a byte sequence (\<open>brep\<close>). Flatten: \<open>logdb_buffer_data\<close> on buffers with chains, in
    their originals too, keeps what every buffer denotes. Heaps: every operation on buffers leaves a well-formed
    heap.
  \<^item> Log and Lock (\<^verbatim>\<open>logdb_log.c\<close>): the log file, and the reader/writer locks on its entries. Locales
    \<open>entry_log\<close> and \<open>rw_locks\<close>, interpreted by the model's operations.
  \<^item> Connection (\<^verbatim>\<open>logdb_connection.c\<close> up to \<open>logdb_open\<close>), Lease (\<^verbatim>\<open>logdb_lease.c\<close>), Txn
    (\<^verbatim>\<open>logdb_txn.c\<close>), Iter (\<^verbatim>\<open>logdb_iter.c\<close>), Close (\<open>logdb_close\<close>): the operations of the client, each
    under the name of the C function.
  \<^item> Threads: the lock functions of \<^verbatim>\<open>logdb_log.c\<close> atomic operation by atomic operation (\<open>pc_step\<close>), the list of
    blocks with its pointers, and any number of threads that interleave (\<open>thread_step\<close>). Exclusion: the
    invariant of such a process, as an interpretation of \<open>rw_locks\<close>, with mutual exclusion and the absence of
    faults. Alone: a thread that runs alone finishes its call, and does what theory Lock does in one step.
  \<^item> Commit: the verification of leases, commits and puts. Scan and Client: iterating over a database, and
    runs of puts. Skip: iterating without reading.
  \<^item> Grant: acquiring a write lease under every schedule of failures and against the locks of other processes,
    and the failed append that the program does not notice.
  \<^item> Reopen, Recovery, Restart: what closing and opening do to the sections; opening after a process has
    died, with the log of another process, or without a log. Sessions: any sequence of processes that open the
    database, put records, and close it or die; what a last one reads is what they put.
  \<^item> Dump (\<^verbatim>\<open>stress/dump.c\<close>), Stress (the thread function of \<^verbatim>\<open>stress/stress.c\<close>), Tools (its \<open>main\<close>): the two
    programs of the repository, from the first call to the exit code. SystemCheck
    (\<^verbatim>\<open>system_checks/check_pwrite_O_APPEND.c\<close>): the probe of the build. Tests (\<^verbatim>\<open>tests/testcases.def\<close>, \<^verbatim>\<open>main.c\<close>): the
    five tests and their driver, which run on the model as on the library.

  \<^bold>\<open>The state of a database\<close> is the list of its sections, \<open>db_sections L D\<close>, for the log file \<open>L\<close> and the database
  file \<open>D\<close>: of each section, as many bytes as its entry says. Everything said about puts, commits, closing,
  opening and crashes is said about this list, and a section that is a list of records is \<open>records_bytes\<close> of
  them.

  \<^bold>\<open>Conventions.\<close> The argument \<open>dbg\<close> tells a debug build, in which \<open>DBGIF\<close> and the environment variable
  of the tests are active, from a release build. \<open>tid\<close> is the thread. A pointer is a number, 0 is
  null. An operation that may use a bad pointer, leave an object, call \<open>abort\<close>, wait for ever or
  recurse without end returns a value of type \<open>outcome\<close>. Failures and short transfers come from the schedule
  of the operating system: \<open>quiet\<close> schedules have short transfers but no failures, \<open>calm\<close> says that nothing
  else is in the way, and theorems without such a hypothesis hold for every pattern of failures. A process
  that is \<open>killed\<close> loses its descriptors and locks and leaves its files; \<open>settled\<close> is the state between
  two programs that work on one database.

  \<^bold>\<open>Fuel.\<close> The recursions through buffers get one more unit than there are cells in the heap, which is
  enough whenever their links end (\<open>buffer_length_is_content_length\<close>). The retry loop of
  \<open>logdb_lease_acquire_write\<close> may really run for ever; its fuel is an argument, and theorems that say
  it returns name the rounds needed. The two loops of \<open>logdb_open\<close> go round at most twice each. The loops of the
  tools have their fuel as an argument, and their theorems say that one unit more than there are records is
  enough. The loops of the lock functions are runs of single steps and need none.

  \<^bold>\<open>Threads.\<close> Only the lock functions are modelled below the level of calls, since they are the part of the
  program that synchronises threads. The other functions run call by call: a commit of one thread between
  two calls of another is a run of the model, one in the middle of a call is not. The steps assume the
  sequentially consistent atomics of C11, which is what the code uses. The counters of readers are unbounded
  integers: the overflow that a comment in \<open>logdb_log_lock\<close> mentions is not modelled.

  \<^bold>\<open>Not modelled.\<close> The printing macros and messages, the permissions of new files, the counting and
  conversion of the arguments of the two tools, the threads of the stress tool side by side (each runs to its
  end when it is created), the build scripts and the C# bindings.
\<close>

end
